(* ===== verification/Prelude.thy ===== *)
theory Prelude
  imports Main
begin

text \<open>
  Shared vocabulary of the development: the arithmetic of Rust's 64-bit
  \<open>usize\<close>, results with errors, the \<open>Vec\<close> and slice operations the kernel
  uses, and the general contract of a component whose steps keep an invariant.

  A \<open>usize\<close> is a natural number below \<open>USIZE\<close>. An operation that the code
  guards (\<open>checked_add\<close>, \<open>checked_sub\<close>, \<open>saturating_add\<close>) is modelled with its
  guard; the well-formedness predicates of the components keep every stored
  number below \<open>USIZE\<close>.

  A result \<open>Result<T, E>\<close> is a value of \<open>'e + 'a\<close>, the error on the left.
\<close>

named_theorems result_simps \<open>inversion of result computations\<close>
named_theorems vec_simps \<open>positional operations on a split list\<close>

section \<open>64-bit arithmetic\<close>

definition USIZE :: nat where
  "USIZE = 2 ^ 64"

definition ISIZE_MAX :: nat where
  "ISIZE_MAX = 2 ^ 63 - 1"

definition PAGE_SIZE :: nat where
  "PAGE_SIZE = 4096"

definition PAGE_SHIFT :: nat where
  "PAGE_SHIFT = 12"

definition checked_add :: "nat \<Rightarrow> nat \<Rightarrow> nat option" where
  "checked_add a b = (if a + b < USIZE then Some (a + b) else None)"

definition checked_sub :: "nat \<Rightarrow> nat \<Rightarrow> nat option" where
  "checked_sub a b = (if b \<le> a then Some (a - b) else None)"

definition checked_mul :: "nat \<Rightarrow> nat \<Rightarrow> nat option" where
  "checked_mul a b = (if a * b < USIZE then Some (a * b) else None)"

definition saturating_add :: "nat \<Rightarrow> nat \<Rightarrow> nat" where
  "saturating_add a b = min (a + b) (USIZE - 1)"

definition wrapping_add :: "nat \<Rightarrow> nat \<Rightarrow> nat" where
  "wrapping_add a b = (a + b) mod USIZE"

definition next_multiple_of :: "nat \<Rightarrow> nat \<Rightarrow> nat" where
  "next_multiple_of a n = (if a mod n = 0 then a else a + (n - a mod n))"

definition checked_next_multiple_of :: "nat \<Rightarrow> nat \<Rightarrow> nat option" where
  "checked_next_multiple_of a n =
     (if n = 0 then None
      else if next_multiple_of a n < USIZE then Some (next_multiple_of a n) else None)"

definition div_ceil :: "nat \<Rightarrow> nat \<Rightarrow> nat" where
  "div_ceil a b = (if a mod b = 0 then a div b else a div b + 1)"

fun is_power_of_two :: "nat \<Rightarrow> bool" where
  "is_power_of_two n =
     (if n = 1 then True
      else if n > 1 \<and> even n then is_power_of_two (n div 2) else False)"

declare is_power_of_two.simps [simp del]

lemma USIZE_pos [simp]: "0 < USIZE"
  by (simp add: USIZE_def)

lemma PAGE_SIZE_pos [simp]: "0 < PAGE_SIZE"
  by (simp add: PAGE_SIZE_def)

lemma checked_add_Some [simp]: "checked_add a b = Some c \<longleftrightarrow> c = a + b \<and> a + b < USIZE"
  by (auto simp: checked_add_def)

lemma checked_add_None [simp]: "checked_add a b = None \<longleftrightarrow> USIZE \<le> a + b"
  by (simp add: checked_add_def)

lemma checked_sub_Some [simp]: "checked_sub a b = Some c \<longleftrightarrow> b \<le> a \<and> c = a - b"
  by (auto simp: checked_sub_def)

lemma checked_sub_None [simp]: "checked_sub a b = None \<longleftrightarrow> a < b"
  by (auto simp: checked_sub_def)

lemma checked_mul_Some [simp]: "checked_mul a b = Some c \<longleftrightarrow> c = a * b \<and> a * b < USIZE"
  by (auto simp: checked_mul_def)

lemma next_multiple_of_dvd: "0 < n \<Longrightarrow> n dvd next_multiple_of a n"
proof -
  assume n: "0 < n"
  have "a + (n - a mod n) = a div n * n + n"
    using n mod_less_divisor [OF n, of a] div_mult_mod_eq [of a n] by linarith
  then have "n dvd a + (n - a mod n)"
    by simp
  then show ?thesis
    by (auto simp: next_multiple_of_def mod_eq_0_iff_dvd)
qed

lemma next_multiple_of_ge: "a \<le> next_multiple_of a n"
  by (simp add: next_multiple_of_def)

lemma next_multiple_of_least:
  assumes "0 < n" and "n dvd m" and "a \<le> m"
  shows "next_multiple_of a n \<le> m"
proof (cases "a mod n = 0")
  case True
  with assms(3) show ?thesis by (simp add: next_multiple_of_def)
next
  case False
  from assms(2) obtain k where m: "m = n * k" by (auto elim: dvdE)
  have "a div n < k"
  proof (rule ccontr)
    assume "\<not> a div n < k"
    then have "n * k \<le> n * (a div n)" by simp
    moreover have "n * (a div n) + a mod n = a" by simp
    ultimately show False using assms(3) m False by linarith
  qed
  then have "n * (a div n + 1) \<le> n * k" by (intro mult_le_mono2) simp
  moreover have "a + (n - a mod n) = n * (a div n + 1)"
  proof -
    have "a mod n < n" and "n * (a div n) + a mod n = a"
      using assms(1) by simp_all
    then have "a + (n - a mod n) = n * (a div n) + n" by linarith
    then show ?thesis by simp
  qed
  ultimately show ?thesis by (simp add: next_multiple_of_def m)
qed

lemma checked_next_multiple_of_Some:
  "checked_next_multiple_of a n = Some m \<longleftrightarrow>
     0 < n \<and> m = next_multiple_of a n \<and> next_multiple_of a n < USIZE"
  by (auto simp: checked_next_multiple_of_def)

lemma is_power_of_two_pos: "is_power_of_two n \<Longrightarrow> 0 < n"
  by (subst (asm) is_power_of_two.simps) (auto split: if_splits)

lemma is_power_of_two_iff: "is_power_of_two n \<longleftrightarrow> (\<exists>k. n = 2 ^ k)"
proof (induction n rule: is_power_of_two.induct)
  case (1 n)
  show ?case
  proof (cases "n > 1 \<and> even n")
    case True
    then have n: "n = 2 * (n div 2)" by simp
    from 1 True have IH: "is_power_of_two (n div 2) \<longleftrightarrow> (\<exists>k. n div 2 = 2 ^ k)" by simp
    have "(\<exists>k. n div 2 = 2 ^ k) \<longleftrightarrow> (\<exists>k. n = 2 ^ k)"
    proof
      assume "\<exists>k. n div 2 = 2 ^ k"
      then obtain k where "n div 2 = 2 ^ k" ..
      with n have "n = 2 ^ Suc k" by simp
      then show "\<exists>k. n = 2 ^ k" ..
    next
      assume "\<exists>k. n = 2 ^ k"
      then obtain k where k: "n = 2 ^ k" ..
      with True obtain j where "k = Suc j" by (cases k) auto
      with k show "\<exists>k. n div 2 = 2 ^ k" by auto
    qed
    with IH True show ?thesis by (subst is_power_of_two.simps) auto
  next
    case False
    have "(\<exists>k. n = 2 ^ k) \<longleftrightarrow> n = 1"
    proof
      assume "\<exists>k. n = 2 ^ k"
      then obtain k where "n = 2 ^ k" ..
      moreover have "1 < (2::nat) * 2 ^ j" for j
        using one_le_power [of "2::nat" j] by linarith
      ultimately show "n = 1" using False by (cases k) auto
    qed (auto intro: exI [of _ 0])
    with False show ?thesis by (subst is_power_of_two.simps) auto
  qed
qed

section \<open>Results\<close>

fun rbind :: "'e + 'a \<Rightarrow> ('a \<Rightarrow> 'e + 'b) \<Rightarrow> 'e + 'b" where
  "rbind (Inl e) f = Inl e"
| "rbind (Inr a) f = f a"

definition ok_or :: "'a option \<Rightarrow> 'e \<Rightarrow> 'e + 'a" where
  "ok_or x e = (case x of None \<Rightarrow> Inl e | Some a \<Rightarrow> Inr a)"

definition guard :: "bool \<Rightarrow> 'e \<Rightarrow> 'e + unit" where
  "guard b e = (if b then Inr () else Inl e)"

definition is_ok :: "'e + 'a \<Rightarrow> bool" where
  "is_ok r = (case r of Inl _ \<Rightarrow> False | Inr _ \<Rightarrow> True)"

text \<open>A result of code that may also panic, which is \<open>None\<close>; an error returns early.\<close>

fun try_bind :: "('e + 'a) option \<Rightarrow> ('a \<Rightarrow> ('e + 'b) option) \<Rightarrow> ('e + 'b) option" where
  "try_bind None f = None"
| "try_bind (Some (Inl e)) f = Some (Inl e)"
| "try_bind (Some (Inr a)) f = f a"

lemma try_bind_Inr [result_simps]: "try_bind m f = Some (Inr b) \<longleftrightarrow> (\<exists>a. m = Some (Inr a) \<and> f a = Some (Inr b))"
  by (cases "(m, f)" rule: try_bind.cases) auto

lemma try_bind_Inl [result_simps]:
  "try_bind m f = Some (Inl e) \<longleftrightarrow> m = Some (Inl e) \<or> (\<exists>a. m = Some (Inr a) \<and> f a = Some (Inl e))"
  by (cases "(m, f)" rule: try_bind.cases) auto

lemma try_bind_None [result_simps]: "try_bind m f = None \<longleftrightarrow> m = None \<or> (\<exists>a. m = Some (Inr a) \<and> f a = None)"
  by (cases "(m, f)" rule: try_bind.cases) auto

lemma rbind_Inr [result_simps]: "rbind m f = Inr b \<longleftrightarrow> (\<exists>a. m = Inr a \<and> f a = Inr b)"
  by (cases m) auto

lemma rbind_Inl [result_simps]:
  "rbind m f = Inl e \<longleftrightarrow> m = Inl e \<or> (\<exists>a. m = Inr a \<and> f a = Inl e)"
  by (cases m) auto

lemma ok_or_simps [simp]: "ok_or (Some a) e = Inr a" "ok_or None e = Inl e"
  by (simp_all add: ok_or_def)

lemma ok_or_Inr [result_simps]: "ok_or x e = Inr a \<longleftrightarrow> x = Some a"
  by (cases x) (auto simp: ok_or_def)

lemma ok_or_Inl [result_simps]: "ok_or x e = Inl e' \<longleftrightarrow> x = None \<and> e' = e"
  by (cases x) (auto simp: ok_or_def)

lemma guard_Inr [result_simps]: "guard b e = Inr u \<longleftrightarrow> b"
  by (simp add: guard_def)

lemma guard_Inl [result_simps]: "guard b e = Inl e' \<longleftrightarrow> \<not> b \<and> e' = e"
  by (auto simp: guard_def)

lemma is_ok_simps [simp]: "is_ok (Inr a)" "\<not> is_ok (Inl e)"
  by (simp_all add: is_ok_def)

section \<open>Slices and vectors\<close>

text \<open>
  \<open>position\<close> is \<open>Iterator::position\<close>, \<open>find_map\<close> is \<open>Iterator::find_map\<close>,
  \<open>partition_point\<close> is the binary search of the same name (on a slice that the
  predicate splits into a true prefix and a false suffix, the length of the
  prefix), and the \<open>vec_\<close> operations are those of \<open>Vec\<close> at an index in range.
\<close>

fun position :: "('a \<Rightarrow> bool) \<Rightarrow> 'a list \<Rightarrow> nat option" where
  "position P [] = None"
| "position P (x # xs) = (if P x then Some 0 else map_option Suc (position P xs))"

fun find_map :: "('a \<Rightarrow> 'b option) \<Rightarrow> 'a list \<Rightarrow> 'b option" where
  "find_map f [] = None"
| "find_map f (x # xs) = (case f x of Some y \<Rightarrow> Some y | None \<Rightarrow> find_map f xs)"

definition partition_point :: "('a \<Rightarrow> bool) \<Rightarrow> 'a list \<Rightarrow> nat" where
  "partition_point P xs = length (takeWhile P xs)"

definition vec_insert :: "nat \<Rightarrow> 'a \<Rightarrow> 'a list \<Rightarrow> 'a list" where
  "vec_insert i x xs = take i xs @ x # drop i xs"

definition vec_remove :: "nat \<Rightarrow> 'a list \<Rightarrow> 'a list" where
  "vec_remove i xs = take i xs @ drop (Suc i) xs"

definition vec_swap_remove :: "nat \<Rightarrow> 'a list \<Rightarrow> 'a list" where
  "vec_swap_remove i xs = butlast (xs[i := last xs])"

lemma vec_insert_split [vec_simps]: "vec_insert (length ys) x (ys @ zs) = ys @ x # zs"
  by (simp add: vec_insert_def)

lemma vec_remove_split [vec_simps]: "vec_remove (length ys) (ys @ x # zs) = ys @ zs"
  by (simp add: vec_remove_def)

lemma position_None: "position P xs = None \<longleftrightarrow> (\<forall>x \<in> set xs. \<not> P x)"
  by (induction xs) auto

lemma position_SomeD:
  "position P xs = Some i \<Longrightarrow> i < length xs \<and> P (xs ! i) \<and> (\<forall>j < i. \<not> P (xs ! j))"
proof (induction xs arbitrary: i)
  case (Cons x xs)
  show ?case
  proof (cases "P x")
    case False
    with Cons.prems obtain k where "i = Suc k" and "position P xs = Some k"
      by auto
    with Cons.IH [of k] False show ?thesis
      by (auto simp: nth_Cons split: nat.splits)
  qed (use Cons.prems in auto)
qed simp

lemma position_splitE:
  assumes "position P xs = Some i"
  obtains ys x zs where "xs = ys @ x # zs" and "length ys = i" and "P x"
    and "\<forall>y \<in> set ys. \<not> P y"
proof -
  from position_SomeD [OF assms] have i: "i < length xs" and P: "P (xs ! i)"
    and nP: "\<forall>j < i. \<not> P (xs ! j)" by auto
  show thesis
  proof (rule that [of "take i xs" "xs ! i" "drop (Suc i) xs"])
    show "xs = take i xs @ xs ! i # drop (Suc i) xs"
      using i by (simp add: id_take_nth_drop)
    show "\<forall>y \<in> set (take i xs). \<not> P y"
      using i nP by (auto simp: in_set_conv_nth)
  qed (use i P in auto)
qed

lemma find_map_None: "find_map f xs = None \<longleftrightarrow> (\<forall>x \<in> set xs. f x = None)"
  by (induction xs) (auto split: option.splits)

lemma find_map_splitE:
  assumes "find_map f xs = Some b"
  obtains ys x zs where "xs = ys @ x # zs" and "f x = Some b" and "\<forall>y \<in> set ys. f y = None"
proof -
  from assms have "\<exists>ys x zs. xs = ys @ x # zs \<and> f x = Some b \<and> (\<forall>y \<in> set ys. f y = None)"
  proof (induction xs)
    case (Cons a xs)
    show ?case
    proof (cases "f a")
      case None
      with Cons obtain ys x zs where "xs = ys @ x # zs" "f x = Some b" "\<forall>y \<in> set ys. f y = None"
        by auto
      with None show ?thesis
        by (intro exI [of _ "a # ys"] exI [of _ x] exI [of _ zs]) auto
    next
      case (Some c)
      with Cons.prems show ?thesis
        by (intro exI [of _ "[]"] exI [of _ a] exI [of _ xs]) auto
    qed
  qed simp
  then show thesis using that by blast
qed

lemma partition_point_split:
  obtains ys zs where "xs = ys @ zs" and "length ys = partition_point P xs"
    and "\<forall>y \<in> set ys. P y" and "zs = [] \<or> \<not> P (hd zs)"
proof (rule that [of "takeWhile P xs" "dropWhile P xs"])
  show "dropWhile P xs = [] \<or> \<not> P (hd (dropWhile P xs))"
    using hd_dropWhile by blast
qed (auto simp: partition_point_def dest: set_takeWhileD)

lemma partition_point_append [vec_simps]:
  assumes "\<forall>y \<in> set ys. P y" and "zs = [] \<or> \<not> P (hd zs)"
  shows "partition_point P (ys @ zs) = length ys"
proof -
  have "takeWhile P (ys @ zs) = ys @ takeWhile P zs"
    using assms(1) by (intro takeWhile_append2) blast
  moreover have "takeWhile P zs = []"
    using assms(2) by (cases zs) auto
  ultimately show ?thesis by (simp add: partition_point_def)
qed

section \<open>Actions\<close>

text \<open>
  Code that changes a state and may return an error early: the state is kept in both
  cases, and a panic is \<open>None\<close>.
\<close>

type_synonym ('s, 'e, 'a) act = "'s \<Rightarrow> (('e + 'a) \<times> 's) option"

definition act_bind :: "('s, 'e, 'a) act \<Rightarrow> ('a \<Rightarrow> ('s, 'e, 'b) act) \<Rightarrow> ('s, 'e, 'b) act" where
  "act_bind m f s = (case m s of None \<Rightarrow> None | Some (Inl e, s') \<Rightarrow> Some (Inl e, s') | Some (Inr a, s') \<Rightarrow> f a s')"

definition act_result :: "'e + 'a \<Rightarrow> ('s, 'e, 'a) act" where
  "act_result r s = Some (r, s)"

definition act_return :: "'a \<Rightarrow> ('s, 'e, 'a) act" where
  "act_return a s = Some (Inr a, s)"

definition act_fail :: "'e \<Rightarrow> ('s, 'e, 'a) act" where
  "act_fail e s = Some (Inl e, s)"

text \<open>Indexing panics out of range.\<close>

definition act_index :: "'a list \<Rightarrow> nat \<Rightarrow> ('s, 'e, 'a) act" where
  "act_index xs i s = (if i < length xs then Some (Inr (xs ! i), s) else None)"

definition act_get :: "('s \<Rightarrow> 'a) \<Rightarrow> ('s, 'e, 'a) act" where
  "act_get f s = Some (Inr (f s), s)"

definition act_modify :: "('s \<Rightarrow> 's) \<Rightarrow> ('s, 'e, unit) act" where
  "act_modify f s = Some (Inr (), f s)"

text \<open>The action returns, with these guarantees for a value and for an error.\<close>

definition ensures :: "('s, 'e, 'a) act \<Rightarrow> 's \<Rightarrow> ('a \<Rightarrow> 's \<Rightarrow> bool) \<Rightarrow> ('e \<Rightarrow> 's \<Rightarrow> bool) \<Rightarrow> bool" where
  "ensures m s Q E \<longleftrightarrow> (\<exists>r s'. m s = Some (r, s') \<and> (case r of Inr a \<Rightarrow> Q a s' | Inl e \<Rightarrow> E e s'))"

lemma ensures_cases:
  assumes "ensures m s Q E"
  obtains (ret) a s' where "m s = Some (Inr a, s')" and "Q a s'" | (err) e s' where "m s = Some (Inl e, s')" and "E e s'"
  using assms unfolding ensures_def by (metis (no_types, lifting) old.sum.exhaust old.sum.simps(5) old.sum.simps(6))

lemma ensures_bind:
  assumes "ensures m s R E" and "\<And>a s'. R a s' \<Longrightarrow> ensures (f a) s' Q E"
  shows "ensures (act_bind m f) s Q E"
  using assms(1)
proof (cases rule: ensures_cases)
  case (ret a s')
  then show ?thesis using assms(2) [of a s'] by (simp add: ensures_def act_bind_def)
next
  case (err e s')
  then show ?thesis by (simp add: ensures_def act_bind_def)
qed

lemma ensures_conseq:
  assumes "ensures m s R F" and "\<And>a s'. R a s' \<Longrightarrow> Q a s'" and "\<And>e s'. F e s' \<Longrightarrow> E e s'"
  shows "ensures m s Q E"
  using assms(1) by (cases rule: ensures_cases) (simp_all add: ensures_def assms(2,3))

named_theorems act_simps \<open>actions that do one thing\<close>

lemma ensures_basic [act_simps]:
  "ensures (act_return a) s Q E \<longleftrightarrow> Q a s" "ensures (act_fail e) s Q E \<longleftrightarrow> E e s"
  "ensures (act_index xs i) s Q E \<longleftrightarrow> i < length xs \<and> Q (xs ! i) s" "ensures (act_get f) s Q E \<longleftrightarrow> Q (f s) s"
  "ensures (act_modify g) s Q' E \<longleftrightarrow> Q' () (g s)"
  "ensures (act_result r) s Q E \<longleftrightarrow> (case r of Inr a \<Rightarrow> Q a s | Inl e \<Rightarrow> E e s)"
  by (auto simp: ensures_def act_return_def act_fail_def act_index_def act_get_def act_modify_def act_result_def)

lemma bind_basic [act_simps]:
  "act_bind (act_return a) f = f a" "act_bind (act_fail e) f = act_fail e"
  "act_bind (act_get g) f = (\<lambda>s. f (g s) s)" "act_bind (act_modify k) f' = (\<lambda>s. f' () (k s))"
  "act_bind (act_result r) f = (case r of Inr a \<Rightarrow> f a | Inl e \<Rightarrow> act_fail e)"
  by (auto simp: fun_eq_iff act_bind_def act_return_def act_fail_def act_get_def act_modify_def act_result_def split: sum.split)

section \<open>Components whose steps keep an invariant\<close>

text \<open>
  The contract every stateful component of the kernel meets: a step relation
  and a well-formedness predicate that every step keeps. Its client lemma is
  that whatever sequence of steps runs, the predicate holds afterwards.
\<close>

locale component =
  fixes step :: "'s \<Rightarrow> 's \<Rightarrow> bool" and inv :: "'s \<Rightarrow> bool"
  assumes step_inv: "inv s \<Longrightarrow> step s t \<Longrightarrow> inv t"
begin

lemma run_inv:
  assumes "inv s" and "step\<^sup>*\<^sup>* s t"
  shows "inv t"
  using assms(2,1) by (induction rule: rtranclp_induct) (auto intro: step_inv)

end

end
