(* ===== verification/Occupancy.thy ===== *)
theory Occupancy
  imports Prelude
begin

text \<open>
  The occupancy table of an address space
  (\<open>kernel/src/core/memory/nest/address/\<close>): one ordered list of occupied spans
  for all regions, address windows that only steer where a new span is placed,
  and the retirement tickets that keep a withdrawn span from being reused before
  its translations are known to be gone.

  Both ends of a span are inclusive, so a span may end at the last address. The
  two counters that the code keeps in function-local statics (the generation of
  \<open>next_id\<close> and the ticket of \<open>retire\<close>) are fields of the state. A fallible
  allocation is an argument: \<open>mem k\<close> says whether the allocation at site \<open>k\<close>
  of the call finds room.
\<close>

section \<open>Data\<close>

datatype nest_error =
    OutOfMemory | AlreadyMapped | NotAligned | NotMapped | NoRegion | DramOverlap
  | WidenDenied | Shootdown | Pinned | Missing | Busy

datatype region_id = Normal | Kernel | Resource | Static

datatype placement_at = Lowest | Highest | Exact nat

record placement =
  p_region :: region_id
  p_size :: nat
  p_align :: nat
  p_at :: placement_at

record slot =
  s_start :: nat
  s_last :: nat
  s_ticket :: nat
  s_id :: nat
  s_region :: region_id

record window =
  w_id :: region_id
  w_base :: nat
  w_last :: nat

text \<open>A cleanup payload: the view it will clean up and the next payload of the chain.\<close>

datatype cleanup_node = CleanupNode (cn_view: "nat option") (cn_next: "cleanup_node option")

definition cleanup_empty :: cleanup_node where
  "cleanup_empty = CleanupNode None None"

record occupancy =
  windows :: "window list"
  slots :: "slot list"
  cleanups :: "(nat \<times> cleanup_node) list"
  next_gen :: nat
  next_ticket :: nat

section \<open>Placements\<close>

definition placement_new ::
  "region_id \<Rightarrow> nat \<Rightarrow> nat \<Rightarrow> placement_at \<Rightarrow> nest_error + placement" where
  "placement_new region sz align at =
     (if sz = 0 \<or> sz mod PAGE_SIZE \<noteq> 0 \<or> \<not> is_power_of_two align then Inl NotAligned
      else if (case at of Exact start \<Rightarrow> start mod PAGE_SIZE \<noteq> 0 \<or> start mod align \<noteq> 0
                        | _ \<Rightarrow> False) then Inl NotAligned
      else Inr \<lparr>p_region = region, p_size = sz, p_align = align, p_at = at\<rparr>)"

definition placement_lowest :: "region_id \<Rightarrow> nat \<Rightarrow> nat \<Rightarrow> nest_error + placement" where
  "placement_lowest region sz align = placement_new region sz align Lowest"

definition placement_highest :: "region_id \<Rightarrow> nat \<Rightarrow> nest_error + placement" where
  "placement_highest region sz = placement_new region sz PAGE_SIZE Highest"

definition placement_exact :: "region_id \<Rightarrow> nat \<Rightarrow> nat \<Rightarrow> nest_error + placement" where
  "placement_exact region start sz = placement_new region sz PAGE_SIZE (Exact start)"

section \<open>Operations\<close>

definition occ_new :: occupancy where
  "occ_new = \<lparr>windows = [], slots = [], cleanups = [], next_gen = 1, next_ticket = 1\<rparr>"

definition occ_attach ::
  "(nat \<Rightarrow> bool) \<Rightarrow> region_id \<Rightarrow> nat \<Rightarrow> nat \<Rightarrow> occupancy \<Rightarrow> (nest_error + unit) \<times> occupancy" where
  "occ_attach mem gid base lst s =
     (if base > lst \<or> gid = Static \<or> (\<exists>w \<in> set (windows s). w_id w = gid) then (Inl NoRegion, s)
      else if \<not> mem 0 then (Inl OutOfMemory, s)
      else (Inr (), s\<lparr>windows := windows s @ [\<lparr>w_id = gid, w_base = base, w_last = lst\<rparr>]\<rparr>))"

definition occ_window :: "region_id \<Rightarrow> occupancy \<Rightarrow> nest_error + window" where
  "occ_window gid s = ok_or (find (\<lambda>w. w_id w = gid) (windows s)) NoRegion"

text \<open>Writing through the first window with the identity, as \<open>iter_mut().find\<close> does.\<close>

fun set_window :: "region_id \<Rightarrow> (window \<Rightarrow> window) \<Rightarrow> window list \<Rightarrow> window list" where
  "set_window gid f [] = []"
| "set_window gid f (w # ws) = (if w_id w = gid then f w # ws else w # set_window gid f ws)"

definition occ_configure ::
  "(nat \<Rightarrow> bool) \<Rightarrow> region_id \<Rightarrow> nat \<Rightarrow> nat \<Rightarrow> occupancy \<Rightarrow> (nest_error + unit) \<times> occupancy" where
  "occ_configure mem gid base lst s =
     (if base > lst \<or> gid = Static then (Inl NoRegion, s)
      else if \<exists>w \<in> set (windows s). w_id w = gid then
        (if \<exists>sl \<in> set (slots s). s_region sl = gid \<and> (s_start sl < base \<or> s_last sl > lst)
         then (Inl AlreadyMapped, s)
         else (Inr (), s\<lparr>windows :=
                 set_window gid (\<lambda>w. w\<lparr>w_base := base, w_last := lst\<rparr>) (windows s)\<rparr>))
      else occ_attach mem gid base lst s)"

definition occ_advance :: "region_id \<Rightarrow> nat \<Rightarrow> occupancy \<Rightarrow> (nest_error + unit) \<times> occupancy" where
  "occ_advance gid base s =
     (case find (\<lambda>w. w_id w = gid) (windows s) of
        None \<Rightarrow> (Inl NoRegion, s)
      | Some w \<Rightarrow>
          if base < w_base w \<or> base > w_last w then (Inl NoRegion, s)
          else (Inr (), s\<lparr>windows := set_window gid (\<lambda>w. w\<lparr>w_base := base\<rparr>) (windows s)\<rparr>))"

definition occ_contains :: "region_id \<Rightarrow> nat \<Rightarrow> nat \<Rightarrow> occupancy \<Rightarrow> bool" where
  "occ_contains gid start lst s =
     (case occ_window gid s of Inl _ \<Rightarrow> False
      | Inr w \<Rightarrow> start \<ge> w_base w \<and> lst \<le> w_last w)"

text \<open>The loop of \<open>free_spans\<close>: \<open>at\<close> is the next address not known to be occupied.\<close>

fun free_spans_loop :: "window \<Rightarrow> nat \<Rightarrow> slot list \<Rightarrow> (nat \<times> nat) list" where
  "free_spans_loop w at [] = (if at \<le> w_last w then [(at, w_last w)] else [])"
| "free_spans_loop w at (s # ss) =
     (if s_last s < at then free_spans_loop w at ss
      else if s_start s > w_last w then (if at \<le> w_last w then [(at, w_last w)] else [])
      else (if s_start s > at then [(at, min (s_start s - 1) (w_last w))] else []) @
           (case checked_add (s_last s) 1 of
              Some nxt \<Rightarrow> free_spans_loop w (max at nxt) ss
            | None \<Rightarrow> []))"

definition free_spans ::
  "(nat \<Rightarrow> bool) \<Rightarrow> window \<Rightarrow> occupancy \<Rightarrow> nest_error + (nat \<times> nat) list" where
  "free_spans mem w s =
     (if \<not> mem 1 then Inl OutOfMemory else Inr (free_spans_loop w (w_base w) (slots s)))"

definition next_id :: "nat \<Rightarrow> nat option" where
  "next_id n = (if n \<noteq> 0 \<and> n \<le> ISIZE_MAX then Some n else None)"

definition occ_insert ::
  "(nat \<Rightarrow> bool) \<Rightarrow> region_id \<Rightarrow> nat \<Rightarrow> nat \<Rightarrow> occupancy \<Rightarrow> (nest_error + nat) \<times> occupancy" where
  "occ_insert mem region start lst s =
     (let at = partition_point (\<lambda>sl. s_start sl < start) (slots s) in
      if (at > 0 \<and> s_last (slots s ! (at - 1)) \<ge> start)
         \<or> (at < length (slots s) \<and> s_start (slots s ! at) \<le> lst) then (Inl NoRegion, s)
      else if \<not> mem 2 then (Inl OutOfMemory, s)
      else case next_id (next_gen s) of
             None \<Rightarrow> (Inl OutOfMemory, s)
           | Some gid \<Rightarrow>
               (Inr gid, s\<lparr>next_gen := gid + 1,
                          slots := vec_insert at
                            \<lparr>s_start = start, s_last = lst, s_ticket = 0, s_id = gid,
                             s_region = region\<rparr> (slots s)\<rparr>))"

definition fit_lowest :: "nat \<Rightarrow> nat \<Rightarrow> nat \<times> nat \<Rightarrow> nat option" where
  "fit_lowest sz align span =
     (case checked_next_multiple_of (fst span) align of
        None \<Rightarrow> None
      | Some at \<Rightarrow> (case checked_sub (snd span) at of
                     None \<Rightarrow> None
                   | Some gap \<Rightarrow> if gap \<ge> sz - 1 then Some at else None))"

definition fit_highest :: "nat \<Rightarrow> nat \<times> nat \<Rightarrow> nat option" where
  "fit_highest sz span =
     (case checked_sub (snd span) (sz - 1) of
        None \<Rightarrow> None
      | Some at \<Rightarrow> if at \<ge> fst span then Some at else None)"

definition choose_start ::
  "(nat \<Rightarrow> bool) \<Rightarrow> placement \<Rightarrow> occupancy \<Rightarrow> nest_error + nat" where
  "choose_start mem p s =
     (case p_at p of
        Exact start \<Rightarrow> Inr start
      | Lowest \<Rightarrow>
          rbind (occ_window (p_region p) s) (\<lambda>w.
          rbind (free_spans mem w s) (\<lambda>spans.
          ok_or (find_map (fit_lowest (p_size p) (p_align p)) spans) OutOfMemory))
      | Highest \<Rightarrow>
          rbind (occ_window (p_region p) s) (\<lambda>w.
          rbind (free_spans mem w s) (\<lambda>spans.
          ok_or (find_map (fit_highest (p_size p)) (rev spans)) OutOfMemory)))"

definition occ_reserve ::
  "(nat \<Rightarrow> bool) \<Rightarrow> placement \<Rightarrow> occupancy \<Rightarrow> (nest_error + nat \<times> nat) \<times> occupancy" where
  "occ_reserve mem p s =
     (case choose_start mem p s of
        Inl e \<Rightarrow> (Inl e, s)
      | Inr start \<Rightarrow>
          (case checked_add start (p_size p - 1) of
             None \<Rightarrow> (Inl NoRegion, s)
           | Some lst \<Rightarrow>
               (case occ_insert mem (p_region p) start lst s of
                  (Inl e, s') \<Rightarrow> (Inl e, s')
                | (Inr gid, s') \<Rightarrow> (Inr (start, gid), s'))))"

definition slot_match :: "nat \<Rightarrow> nat \<Rightarrow> nat \<Rightarrow> slot \<Rightarrow> bool" where
  "slot_match start lst gid sl =
     (s_start sl = start \<and> s_last sl = lst \<and> s_ticket sl = 0 \<and> s_id sl = gid)"

text \<open>
  \<open>split\<close> draws two generations; when the second draw fails the first is spent.
  The size of the whole address space wraps to zero, as the unchecked sum does.
\<close>

definition occ_split ::
  "(nat \<Rightarrow> bool) \<Rightarrow> nat \<Rightarrow> nat \<Rightarrow> nat \<Rightarrow> nat \<Rightarrow> occupancy
     \<Rightarrow> (nest_error + nat \<times> nat \<times> nat) \<times> occupancy" where
  "occ_split mem start lst gid left_size s =
     (let sz = wrapping_add (lst - start) 1 in
      if left_size = 0 \<or> left_size \<ge> sz \<or> left_size mod PAGE_SIZE \<noteq> 0 \<or> sz mod PAGE_SIZE \<noteq> 0
      then (Inl NotAligned, s)
      else case position (slot_match start lst gid) (slots s) of
        None \<Rightarrow> (Inl NoRegion, s)
      | Some at \<Rightarrow>
          if \<not> mem 0 then (Inl OutOfMemory, s)
          else case next_id (next_gen s) of
            None \<Rightarrow> (Inl OutOfMemory, s)
          | Some left_id \<Rightarrow>
              (case next_id (left_id + 1) of
                 None \<Rightarrow> (Inl OutOfMemory, s\<lparr>next_gen := left_id + 1\<rparr>)
               | Some right_id \<Rightarrow>
                   let right = start + left_size; region = s_region (slots s ! at) in
                   (Inr (right, left_id, right_id),
                    s\<lparr>next_gen := right_id + 1,
                      slots := vec_insert (at + 1)
                        \<lparr>s_start = right, s_last = lst, s_ticket = 0, s_id = right_id,
                         s_region = region\<rparr>
                        ((slots s)[at := \<lparr>s_start = start, s_last = right - 1, s_ticket = 0,
                                          s_id = left_id, s_region = region\<rparr>])\<rparr>)))"

definition occ_release :: "nat \<Rightarrow> nat \<Rightarrow> nat \<Rightarrow> occupancy \<Rightarrow> bool \<times> occupancy" where
  "occ_release start lst gid s =
     (case position (slot_match start lst gid) (slots s) of
        None \<Rightarrow> (False, s)
      | Some at \<Rightarrow> (True, s\<lparr>slots := vec_remove at (slots s),
                            cleanups := filter (\<lambda>(i, _). i \<noteq> gid) (cleanups s)\<rparr>))"

definition occ_prepare_cleanup ::
  "(nat \<Rightarrow> bool) \<Rightarrow> nat \<Rightarrow> occupancy \<Rightarrow> (nest_error + unit) \<times> occupancy" where
  "occ_prepare_cleanup mem gid s =
     (if \<exists>c \<in> set (cleanups s). fst c = gid then (Inr (), s)
      else if \<not> mem 0 then (Inl OutOfMemory, s)
      else if \<not> mem 1 then (Inl OutOfMemory, s)
      else (Inr (), s\<lparr>cleanups := cleanups s @ [(gid, cleanup_empty)]\<rparr>))"

definition occ_take_cleanup :: "nat \<Rightarrow> occupancy \<Rightarrow> cleanup_node option \<times> occupancy" where
  "occ_take_cleanup gid s =
     (case position (\<lambda>c. fst c = gid) (cleanups s) of
        None \<Rightarrow> (None, s)
      | Some at \<Rightarrow> (Some (snd (cleanups s ! at)),
                     s\<lparr>cleanups := vec_swap_remove at (cleanups s)\<rparr>))"

definition occ_has_id :: "nat \<Rightarrow> occupancy \<Rightarrow> bool" where
  "occ_has_id gid s \<longleftrightarrow> (\<exists>sl \<in> set (slots s). s_id sl = gid)"

fun pieces_loop ::
  "nat \<Rightarrow> nat \<Rightarrow> nat \<Rightarrow> slot list \<Rightarrow> nest_error + (nat \<times> nat \<times> nat) list" where
  "pieces_loop at lst gid [] = Inl NoRegion"
| "pieces_loop at lst gid (s # ss) =
     (if s_last s < at then pieces_loop at lst gid ss
      else if s_start s > lst then Inl NoRegion
      else if s_id s \<noteq> gid \<or> s_start s > at then Inl NoRegion
      else let hi = min (s_last s) lst in
           if hi = lst then Inr [(at, hi, s_ticket s)]
           else rbind (pieces_loop (hi + 1) lst gid ss) (\<lambda>ps. Inr ((at, hi, s_ticket s) # ps)))"

definition occ_pieces ::
  "(nat \<Rightarrow> bool) \<Rightarrow> nat \<Rightarrow> nat \<Rightarrow> nat \<Rightarrow> occupancy \<Rightarrow> nest_error + (nat \<times> nat \<times> nat) list" where
  "occ_pieces mem start lst gid s =
     (if \<not> mem 0 then Inl OutOfMemory else pieces_loop start lst gid (slots s))"

definition occ_retired_of ::
  "(nat \<Rightarrow> bool) \<Rightarrow> nat \<Rightarrow> occupancy \<Rightarrow> nest_error + (nat \<times> nat \<times> nat) list" where
  "occ_retired_of mem gid s =
     (if \<not> mem 0 then Inl OutOfMemory
      else Inr (map (\<lambda>sl. (s_start sl, s_last sl, s_ticket sl))
                  (filter (\<lambda>sl. s_id sl = gid \<and> s_ticket sl \<noteq> 0) (slots s))))"

definition occ_reserve_cuts :: "(nat \<Rightarrow> bool) \<Rightarrow> nest_error + unit" where
  "occ_reserve_cuts mem = (if mem 0 then Inr () else Inl OutOfMemory)"

text \<open>
  One turn of the loop of \<open>retire\<close> on one slot: the slot itself when it is not
  concerned, otherwise the parts left of, inside and right of the retired span.
\<close>

definition retire_slot :: "nat \<Rightarrow> nat \<Rightarrow> nat \<Rightarrow> nat \<Rightarrow> slot \<Rightarrow> slot list" where
  "retire_slot start lst gid ticket sl =
     (if s_ticket sl \<noteq> 0 \<or> s_id sl \<noteq> gid \<or> start > s_last sl \<or> lst < s_start sl then [sl]
      else (if s_start sl < start then [sl\<lparr>s_last := start - 1, s_ticket := 0\<rparr>] else [])
         @ [sl\<lparr>s_start := max (s_start sl) start, s_last := min (s_last sl) lst,
               s_ticket := ticket\<rparr>]
         @ (if s_last sl > lst then [sl\<lparr>s_start := lst + 1, s_ticket := 0\<rparr>] else []))"

text \<open>
  The ticket counter wraps; the assertion on a zero ticket is the result \<open>None\<close>.
  The loop visits each slot of the original list once: the parts it inserts are
  skipped by the index it advances.
\<close>

definition occ_retire :: "nat \<Rightarrow> nat \<Rightarrow> nat \<Rightarrow> occupancy \<Rightarrow> (nat \<times> occupancy) option" where
  "occ_retire start lst gid s =
     (let ticket = next_ticket s in
      if ticket = 0 then None
      else Some (ticket, s\<lparr>next_ticket := wrapping_add ticket 1,
                           slots := concat (map (retire_slot start lst gid ticket) (slots s))\<rparr>))"

definition occ_reclaim :: "nat \<Rightarrow> occupancy \<Rightarrow> occupancy" where
  "occ_reclaim ticket s =
     (let removed = map_option s_id (find (\<lambda>sl. s_ticket sl = ticket) (slots s));
          rest = filter (\<lambda>sl. s_ticket sl \<noteq> ticket) (slots s) in
      s\<lparr>slots := rest,
        cleanups := (case removed of
           Some gid \<Rightarrow> (if \<exists>sl \<in> set rest. s_id sl = gid then cleanups s
                       else filter (\<lambda>(i, _). i \<noteq> gid) (cleanups s))
         | None \<Rightarrow> cleanups s)\<rparr>)"

section \<open>Well-formedness\<close>

definition span :: "slot \<Rightarrow> nat set" where
  "span sl = {s_start sl .. s_last sl}"

definition footprint :: "slot list \<Rightarrow> nat set" where
  "footprint xs = (\<Union>sl \<in> set xs. span sl)"

definition ordered :: "slot list \<Rightarrow> bool" where
  "ordered xs = (sorted_wrt (\<lambda>a b. s_last a < s_start b) xs \<and> (\<forall>sl \<in> set xs. s_start sl \<le> s_last sl))"

definition slot_ok :: "occupancy \<Rightarrow> slot \<Rightarrow> bool" where
  "slot_ok s sl = (s_last sl < USIZE \<and> 0 < s_id sl \<and> s_id sl < next_gen s
     \<and> (next_ticket s = 0 \<or> s_ticket sl < next_ticket s))"

definition window_ok :: "window \<Rightarrow> bool" where
  "window_ok w = (w_base w \<le> w_last w \<and> w_last w < USIZE \<and> w_id w \<noteq> Static)"

definition occ_inv :: "occupancy \<Rightarrow> bool" where
  "occ_inv s = (ordered (slots s) \<and> (\<forall>sl \<in> set (slots s). slot_ok s sl)
     \<and> distinct (map w_id (windows s)) \<and> (\<forall>w \<in> set (windows s). window_ok w)
     \<and> 0 < next_gen s \<and> next_ticket s < USIZE)"

lemma footprint_simps [simp]:
  "footprint [] = {}"
  "footprint (x # xs) = span x \<union> footprint xs"
  "footprint (xs @ ys) = footprint xs \<union> footprint ys"
  by (auto simp: footprint_def)

lemma ordered_Nil [simp]: "ordered []"
  by (simp add: ordered_def)

lemma ordered_Cons [simp]:
  "ordered (x # xs) \<longleftrightarrow> s_start x \<le> s_last x \<and> (\<forall>y \<in> set xs. s_last x < s_start y) \<and> ordered xs"
  by (auto simp: ordered_def)

lemma ordered_append [simp]:
  "ordered (xs @ ys) \<longleftrightarrow>
     ordered xs \<and> ordered ys \<and> (\<forall>x \<in> set xs. \<forall>y \<in> set ys. s_last x < s_start y)"
  by (auto simp: ordered_def sorted_wrt_append)

lemma ordered_nonempty: "ordered xs \<Longrightarrow> x \<in> set xs \<Longrightarrow> s_start x \<le> s_last x"
  by (simp add: ordered_def)

lemma occ_invD:
  assumes "occ_inv s"
  shows "ordered (slots s)" and "\<And>sl. sl \<in> set (slots s) \<Longrightarrow> slot_ok s sl"
    and "distinct (map w_id (windows s))" and "\<And>w. w \<in> set (windows s) \<Longrightarrow> window_ok w"
    and "0 < next_gen s" and "next_ticket s < USIZE"
  using assms by (auto simp: occ_inv_def)

lemma occ_new_inv: "occ_inv occ_new"
  by (simp add: occ_inv_def occ_new_def USIZE_def)

text \<open>Distinct slots of an ordered list never share an address.\<close>

lemma ordered_disjoint:
  "ordered xs \<Longrightarrow> i < j \<Longrightarrow> j < length xs \<Longrightarrow> span (xs ! i) \<inter> span (xs ! j) = {}"
proof -
  assume o: "ordered xs" and ij: "i < j" "j < length xs"
  then have "s_last (xs ! i) < s_start (xs ! j)"
    by (auto simp: ordered_def sorted_wrt_iff_nth_less)
  then show ?thesis by (auto simp: span_def)
qed

section \<open>Inserting a span\<close>

lemma insert_point_free:
  assumes o: "ordered xs"
    and at: "at = partition_point (\<lambda>sl. s_start sl < st) xs"
    and free: "\<not> ((at > 0 \<and> s_last (xs ! (at - 1)) \<ge> st) \<or> (at < length xs \<and> s_start (xs ! at) \<le> la))"
  obtains ys zs where "xs = ys @ zs" and "length ys = at"
    and "\<forall>y \<in> set ys. s_last y < st" and "\<forall>z \<in> set zs. la < s_start z"
proof -
  obtain ys zs where xs: "xs = ys @ zs" and len: "length ys = at"
    using at by (rule_tac partition_point_split [of xs "\<lambda>sl. s_start sl < st"]) auto
  have "s_last y < st" if y: "y \<in> set ys" for y
  proof -
    from y have ne: "ys \<noteq> []" by auto
    then have "xs ! (at - 1) = last ys" by (simp add: xs nth_append last_conv_nth flip: len)
    with ne len free have lst: "s_last (last ys) < st" by auto
    have "ys = butlast ys @ [last ys]" using ne by simp
    with y have "y \<in> set (butlast ys) \<or> y = last ys" by (metis Un_iff empty_iff insert_iff list.set set_append)
    moreover have "s_last y < s_start (last ys)" if "y \<in> set (butlast ys)"
      using o that ne unfolding xs
      by (metis append_butlast_last_id list.set_intros(1) ordered_append)
    moreover have "s_start (last ys) \<le> s_last (last ys)"
      using o ne by (auto simp: xs intro: ordered_nonempty)
    ultimately show ?thesis using lst by auto
  qed
  moreover have "la < s_start z" if z: "z \<in> set zs" for z
  proof -
    from z obtain h t where zs: "zs = h # t" by (cases zs) auto
    with len have "xs ! at = h" and "at < length xs" by (auto simp: xs)
    with free have "la < s_start h" by auto
    with o z show ?thesis by (auto simp: xs zs)
  qed
  ultimately show thesis using that xs len by blast
qed

lemma insert_point_taken:
  assumes o: "ordered xs" and le: "st \<le> la"
    and at: "at = partition_point (\<lambda>sl. s_start sl < st) xs"
    and taken: "(at > 0 \<and> s_last (xs ! (at - 1)) \<ge> st) \<or> (at < length xs \<and> s_start (xs ! at) \<le> la)"
  shows "footprint xs \<inter> {st .. la} \<noteq> {}"
proof -
  obtain ys zs where xs: "xs = ys @ zs" and len: "length ys = at"
    and lo: "\<forall>y \<in> set ys. s_start y < st" and hi: "zs = [] \<or> \<not> s_start (hd zs) < st"
    using at by (rule_tac partition_point_split [of xs "\<lambda>sl. s_start sl < st"]) auto
  from taken show ?thesis
  proof
    assume a: "at > 0 \<and> s_last (xs ! (at - 1)) \<ge> st"
    then have m: "xs ! (at - 1) \<in> set ys" using len by (simp add: xs nth_append)
    with lo a have "st \<in> span (xs ! (at - 1))" by (simp add: span_def less_imp_le)
    with m le show ?thesis by (auto simp: footprint_def xs)
  next
    assume a: "at < length xs \<and> s_start (xs ! at) \<le> la"
    then obtain h t where zs: "zs = h # t" using len by (cases zs) (auto simp: xs)
    with len a hi have "st \<le> s_start h" "s_start h \<le> la" by (auto simp: xs)
    moreover have "s_start h \<in> span h"
      using o by (simp add: xs zs span_def)
    ultimately show ?thesis by (auto simp: footprint_def xs zs)
  qed
qed

lemma occ_insert_ok:
  assumes inv: "occ_inv s" and le: "st \<le> la" "la < USIZE"
    and ok: "occ_insert mem region st la s = (Inr gid, s')"
  shows "occ_inv s'" and "footprint (slots s) \<inter> {st .. la} = {}"
    and "gid = next_gen s"
    and "set (slots s') = insert \<lparr>s_start = st, s_last = la, s_ticket = 0, s_id = gid, s_region = region\<rparr> (set (slots s))"
    and "windows s' = windows s" and "cleanups s' = cleanups s" and "next_ticket s' = next_ticket s"
proof -
  let ?at = "partition_point (\<lambda>sl. s_start sl < st) (slots s)"
  let ?new = "\<lparr>s_start = st, s_last = la, s_ticket = 0, s_id = gid, s_region = region\<rparr>"
  from ok have free: "\<not> ((?at > 0 \<and> s_last (slots s ! (?at - 1)) \<ge> st)
        \<or> (?at < length (slots s) \<and> s_start (slots s ! ?at) \<le> la))"
    and gid: "gid = next_gen s"
    and s': "s' = s\<lparr>next_gen := gid + 1, slots := vec_insert ?at ?new (slots s)\<rparr>"
    by (auto simp: occ_insert_def next_id_def Let_def split: if_splits)
  obtain ys zs where xs: "slots s = ys @ zs" and len: "length ys = ?at"
    and lo: "\<forall>y \<in> set ys. s_last y < st" and hi: "\<forall>z \<in> set zs. la < s_start z"
    using insert_point_free [OF occ_invD(1) [OF inv] refl free] by blast
  have "vec_insert ?at ?new (slots s) = ys @ ?new # zs"
    unfolding len [symmetric] unfolding xs by (rule vec_insert_split)
  then have ins: "slots s' = ys @ ?new # zs"
    by (simp add: s')
  show "gid = next_gen s" by (rule gid)
  show "set (slots s') = insert ?new (set (slots s))" by (simp add: ins xs)
  show "footprint (slots s) \<inter> {st .. la} = {}"
    using lo hi by (fastforce simp: footprint_def xs span_def)
  show "windows s' = windows s" "cleanups s' = cleanups s" "next_ticket s' = next_ticket s"
    by (simp_all add: s')
  show "occ_inv s'"
    unfolding occ_inv_def
  proof (intro conjI ballI)
    show "ordered (slots s')"
      using occ_invD(1) [OF inv] lo hi le by (auto simp: ins xs)
    show "slot_ok s' sl" if "sl \<in> set (slots s')" for sl
    proof (cases "sl = ?new")
      case True
      then show ?thesis using le(2) occ_invD(5) [OF inv] by (auto simp: slot_ok_def s' gid)
    next
      case False
      with that have "sl \<in> set (slots s)" by (simp add: ins xs)
      then have "slot_ok s sl" by (rule occ_invD(2) [OF inv])
      then show ?thesis by (simp add: slot_ok_def s' gid)
    qed
  qed (use inv in \<open>auto simp: s' gid occ_inv_def\<close>)
qed

lemma occ_insert_err:
  assumes "occ_insert mem region st la s = (Inl e, s')"
  shows "s' = s"
  using assms by (auto simp: occ_insert_def Let_def split: if_splits option.splits)

lemma occ_insert_succeeds:
  assumes inv: "occ_inv s" and le: "st \<le> la" and free: "footprint (slots s) \<inter> {st .. la} = {}"
    and mem: "mem 2" and gen: "next_gen s \<le> ISIZE_MAX"
  shows "fst (occ_insert mem region st la s) = Inr (next_gen s)"
proof -
  let ?at = "partition_point (\<lambda>sl. s_start sl < st) (slots s)"
  have "\<not> ((?at > 0 \<and> s_last (slots s ! (?at - 1)) \<ge> st)
        \<or> (?at < length (slots s) \<and> s_start (slots s ! ?at) \<le> la))"
    using insert_point_taken [OF occ_invD(1) [OF inv] le refl] free by blast
  then show ?thesis
    using mem gen occ_invD(5) [OF inv] by (auto simp: occ_insert_def Let_def next_id_def)
qed

section \<open>Free spans\<close>

lemma free_spans_sound:
  assumes "ordered ss" and "(lo, hi) \<in> set (free_spans_loop w at ss)"
  shows "at \<le> lo \<and> lo \<le> hi \<and> hi \<le> w_last w \<and> {lo .. hi} \<inter> footprint ss = {}"
  using assms
proof (induction w at ss rule: free_spans_loop.induct)
  case (1 w at)
  then show ?case by (auto split: if_splits)
next
  case (2 w at s ss)
  have o: "ordered ss" and le: "s_start s \<le> s_last s"
    and later: "\<forall>y \<in> set ss. s_last s < s_start y" using "2.prems"(1) by auto
  consider (skip) "s_last s < at" | (stop) "\<not> s_last s < at" "s_start s > w_last w"
    | (go) "\<not> s_last s < at" "\<not> s_start s > w_last w" by blast
  then show ?case
  proof cases
    case skip
    with "2.prems"(2) have "(lo, hi) \<in> set (free_spans_loop w at ss)" by simp
    from "2.IH"(1) [OF skip o this] skip show ?thesis by (auto simp: span_def)
  next
    case stop
    with "2.prems"(2) have "lo = at" "hi = w_last w" "at \<le> w_last w" by (auto split: if_splits)
    with stop later le show ?thesis by (fastforce simp: span_def footprint_def)
  next
    case go
    show ?thesis
    proof (cases "(lo, hi) \<in> set (case checked_add (s_last s) 1 of
              Some nxt \<Rightarrow> free_spans_loop w (max at nxt) ss | None \<Rightarrow> [])")
      case True
      then obtain nxt where n: "checked_add (s_last s) 1 = Some nxt"
        and m: "(lo, hi) \<in> set (free_spans_loop w (max at nxt) ss)"
        by (cases "checked_add (s_last s) 1") (simp_all del: checked_add_Some checked_add_None)
      from "2.IH"(2) [OF go n o m] n show ?thesis by (auto simp: span_def)
    next
      case False
      with "2.prems"(2) go have "at < s_start s" "lo = at" "hi = min (s_start s - 1) (w_last w)"
        by (auto split: if_splits)
      with go later le show ?thesis by (fastforce simp: span_def footprint_def)
    qed
  qed
qed

lemma free_spans_complete:
  assumes "ordered ss" and "at \<le> a" and "a \<le> b" and "b \<le> w_last w" and "w_last w < USIZE"
    and "{a .. b} \<inter> footprint ss = {}"
  shows "\<exists>(lo, hi) \<in> set (free_spans_loop w at ss). lo \<le> a \<and> b \<le> hi"
  using assms
proof (induction w at ss rule: free_spans_loop.induct)
  case (1 w at)
  then show ?case by auto
next
  case (2 w at s ss)
  have o: "ordered ss" and le: "s_start s \<le> s_last s" using "2.prems"(1) by auto
  have d: "{a .. b} \<inter> footprint ss = {}" and ds: "{a .. b} \<inter> span s = {}"
    using "2.prems"(6) by auto
  have side: "b < s_start s \<or> s_last s < a"
  proof (rule ccontr)
    assume "\<not> ?thesis"
    then have "max a (s_start s) \<in> {a .. b} \<inter> span s"
      using "2.prems"(3) le by (auto simp: span_def)
    with ds show False by blast
  qed
  consider (skip) "s_last s < at" | (stop) "\<not> s_last s < at" "s_start s > w_last w"
    | (go) "\<not> s_last s < at" "\<not> s_start s > w_last w" by blast
  then show ?case
  proof cases
    case skip
    from "2.IH"(1) [OF skip o "2.prems"(2-5) d] skip show ?thesis by simp
  next
    case stop
    with "2.prems" show ?thesis by auto
  next
    case go
    from side show ?thesis
    proof
      assume "b < s_start s"
      with go "2.prems" show ?thesis by fastforce
    next
      assume l: "s_last s < a"
      then obtain nxt where n: "checked_add (s_last s) 1 = Some nxt"
        using "2.prems"(3-5) by (cases "checked_add (s_last s) 1") auto
      with l "2.prems"(2) have "max at nxt \<le> a" by auto
      from "2.IH"(2) [OF go n o this "2.prems"(3-5) d] go n show ?thesis
        by (auto simp del: checked_add_Some)
    qed
  qed
qed

lemma free_spans_sorted:
  "ordered ss \<Longrightarrow> sorted_wrt (\<lambda>x y. snd x < fst y) (free_spans_loop w at ss)"
proof (induction w at ss rule: free_spans_loop.induct)
  case (2 w at s ss)
  have o: "ordered ss" using "2.prems" by simp
  consider (skip) "s_last s < at" | (stop) "\<not> s_last s < at" "s_start s > w_last w"
    | (go) "\<not> s_last s < at" "\<not> s_start s > w_last w" by blast
  then show ?case
  proof cases
    case go
    show ?thesis
    proof (cases "checked_add (s_last s) 1")
      case None
      with go show ?thesis by (simp del: checked_add_None)
    next
      case (Some nxt)
      have "s_start s - 1 < fst y" if "y \<in> set (free_spans_loop w (max at nxt) ss)" for y
        using free_spans_sound [OF o, of "fst y" "snd y" w "max at nxt"] that Some "2.prems" by auto
      with "2.IH"(2) [OF go Some o] go Some show ?thesis
        by (auto simp: sorted_wrt_append min.strict_coboundedI1 simp del: checked_add_Some)
    qed
  qed (use "2.IH" o in auto)
qed simp

section \<open>Reserving\<close>

text \<open>What \<open>Placement::new\<close> guarantees, with the width of its numbers.\<close>

definition placement_ok :: "placement \<Rightarrow> bool" where
  "placement_ok p = (0 < p_size p \<and> p_size p < USIZE \<and> p_size p mod PAGE_SIZE = 0
     \<and> is_power_of_two (p_align p)
     \<and> (case p_at p of Exact st \<Rightarrow> st < USIZE \<and> st mod PAGE_SIZE = 0 \<and> p_align p dvd st | _ \<Rightarrow> True))"

lemma placement_new_ok:
  assumes "placement_new region sz align at = Inr p" and "sz < USIZE"
    and "\<And>st. at = Exact st \<Longrightarrow> st < USIZE"
  shows "placement_ok p"
  using assms
  by (auto simp: placement_new_def placement_ok_def split: if_splits placement_at.splits)

text \<open>The addresses of \<open>[a, a + size)\<close> lie in the window and are not occupied.\<close>

definition free_block :: "occupancy \<Rightarrow> window \<Rightarrow> nat \<Rightarrow> nat \<Rightarrow> bool" where
  "free_block s w sz a \<longleftrightarrow>
     w_base w \<le> a \<and> a + (sz - 1) \<le> w_last w \<and> {a .. a + (sz - 1)} \<inter> footprint (slots s) = {}"

lemma occ_window_ok:
  assumes "occ_inv s" and "occ_window gid s = Inr w"
  shows "window_ok w" and "w_id w = gid" and "w \<in> set (windows s)"
  using assms occ_invD(4) [OF assms(1)]
  by (auto simp: occ_window_def result_simps find_Some_iff)

lemma fit_lowest_Some:
  "fit_lowest sz align (lo, hi) = Some a \<longleftrightarrow>
     0 < align \<and> a = next_multiple_of lo align \<and> a < USIZE \<and> a \<le> hi \<and> sz - 1 \<le> hi - a"
  by (auto simp: fit_lowest_def checked_next_multiple_of_def checked_sub_def)

lemma fit_highest_Some:
  "fit_highest sz (lo, hi) = Some a \<longleftrightarrow> sz - 1 \<le> hi \<and> a = hi - (sz - 1) \<and> lo \<le> a"
  by (auto simp: fit_highest_def split: option.splits if_splits)

lemma lowest_fit:
  assumes inv: "occ_inv s" and w: "window_ok w" and align: "0 < align"
    and f: "find_map (fit_lowest sz align) (free_spans_loop w (w_base w) (slots s)) = Some a"
  shows "free_block s w sz a" and "align dvd a"
    and "\<And>b. align dvd b \<Longrightarrow> free_block s w sz b \<Longrightarrow> a \<le> b"
proof -
  let ?spans = "free_spans_loop w (w_base w) (slots s)"
  note o = occ_invD(1) [OF inv]
  from f obtain ys lo hi zs where sp: "?spans = ys @ (lo, hi) # zs"
    and fit: "fit_lowest sz align (lo, hi) = Some a"
    and none: "\<forall>y \<in> set ys. fit_lowest sz align y = None"
    by (auto elim!: find_map_splitE)
  have a: "a = next_multiple_of lo align" "a \<le> hi" "sz - 1 \<le> hi - a"
    using fit by (auto simp: fit_lowest_Some)
  have lohi: "w_base w \<le> lo" "hi \<le> w_last w" "{lo .. hi} \<inter> footprint (slots s) = {}"
    using free_spans_sound [OF o, of lo hi w "w_base w"] sp by auto
  have "lo \<le> a" by (simp add: a(1) next_multiple_of_ge)
  then have "{a .. a + (sz - 1)} \<subseteq> {lo .. hi}" using a(2,3) by auto
  then have "{a .. a + (sz - 1)} \<inter> footprint (slots s) = {}" using lohi(3) by blast
  then show "free_block s w sz a"
    using lohi \<open>lo \<le> a\<close> a(2,3) by (simp add: free_block_def)
  show "align dvd a" using align by (simp add: a(1) next_multiple_of_dvd)
  show "a \<le> b" if dvd: "align dvd b" and fb: "free_block s w sz b" for b
  proof -
    obtain lo' hi' where m: "(lo', hi') \<in> set ?spans" and c: "lo' \<le> b" "b + (sz - 1) \<le> hi'"
      using free_spans_complete [OF o, of "w_base w" b "b + (sz - 1)" w] fb w
      by (auto simp: free_block_def window_ok_def)
    have nm: "next_multiple_of lo' align \<le> b" by (rule next_multiple_of_least [OF align dvd c(1)])
    have hi': "hi' \<le> w_last w" using free_spans_sound [OF o m] by simp
    have "fit_lowest sz align (lo', hi') = Some (next_multiple_of lo' align)"
      using nm c hi' w align by (auto simp: fit_lowest_Some window_ok_def)
    with none m sp have "(lo', hi') \<in> insert (lo, hi) (set zs)" by auto
    then show ?thesis
    proof
      assume "(lo', hi') = (lo, hi)"
      with nm a(1) show ?thesis by simp
    next
      assume "(lo', hi') \<in> set zs"
      with free_spans_sorted [OF o, of w "w_base w"] sp have "hi < lo'"
        by (auto simp: sorted_wrt_append)
      with a(2) c(1) show ?thesis by simp
    qed
  qed
qed

lemma lowest_fit_exists:
  assumes inv: "occ_inv s" and w: "window_ok w" and align: "0 < align"
    and b: "align dvd b" "free_block s w sz b"
  shows "\<exists>a. find_map (fit_lowest sz align) (free_spans_loop w (w_base w) (slots s)) = Some a"
proof -
  let ?spans = "free_spans_loop w (w_base w) (slots s)"
  note o = occ_invD(1) [OF inv]
  obtain lo hi where m: "(lo, hi) \<in> set ?spans" and c: "lo \<le> b" "b + (sz - 1) \<le> hi"
    using free_spans_complete [OF o, of "w_base w" b "b + (sz - 1)" w] b(2) w
    by (auto simp: free_block_def window_ok_def)
  have nm: "next_multiple_of lo align \<le> b" by (rule next_multiple_of_least [OF align b(1) c(1)])
  have "hi \<le> w_last w" using free_spans_sound [OF o m] by simp
  then have "fit_lowest sz align (lo, hi) = Some (next_multiple_of lo align)"
    using nm c w align by (auto simp: fit_lowest_Some window_ok_def)
  then have "find_map (fit_lowest sz align) ?spans \<noteq> None"
    using m by (auto simp: find_map_None simp del: not_None_eq intro!: bexI)
  then show ?thesis by blast
qed

lemma highest_fit:
  assumes inv: "occ_inv s" and w: "window_ok w" and sz: "0 < sz"
    and f: "find_map (fit_highest sz) (rev (free_spans_loop w (w_base w) (slots s))) = Some a"
  shows "free_block s w sz a" and "\<And>b. free_block s w sz b \<Longrightarrow> b \<le> a"
proof -
  let ?spans = "free_spans_loop w (w_base w) (slots s)"
  note o = occ_invD(1) [OF inv]
  from f obtain ys lo hi zs where sp: "rev ?spans = ys @ (lo, hi) # zs"
    and fit: "fit_highest sz (lo, hi) = Some a"
    and none: "\<forall>y \<in> set ys. fit_highest sz y = None"
    by (auto elim!: find_map_splitE)
  have mem: "set ?spans = set ys \<union> insert (lo, hi) (set zs)"
    using arg_cong [OF sp, of set] by simp
  have sorted: "sorted_wrt (\<lambda>x y. snd y < fst x) (ys @ (lo, hi) # zs)"
    using free_spans_sorted [OF o, of w "w_base w"] by (simp flip: sp add: sorted_wrt_rev)
  have a: "sz - 1 \<le> hi" "a = hi - (sz - 1)" "lo \<le> a"
    using fit by (auto simp: fit_highest_Some)
  have lohi: "w_base w \<le> lo" "hi \<le> w_last w" "{lo .. hi} \<inter> footprint (slots s) = {}"
    using free_spans_sound [OF o, of lo hi w "w_base w"] mem by auto
  moreover have "{a .. a + (sz - 1)} \<subseteq> {lo .. hi}" using a by auto
  ultimately have "{a .. a + (sz - 1)} \<inter> footprint (slots s) = {}" by blast
  with lohi a show "free_block s w sz a" by (simp add: free_block_def)
  show "b \<le> a" if fb: "free_block s w sz b" for b
  proof -
    obtain lo' hi' where m: "(lo', hi') \<in> set ?spans" and c: "lo' \<le> b" "b + (sz - 1) \<le> hi'"
      using free_spans_complete [OF o, of "w_base w" b "b + (sz - 1)" w] fb w
      by (auto simp: free_block_def window_ok_def)
    have "fit_highest sz (lo', hi') \<noteq> None"
      using c fit_highest_Some [of sz lo' hi' "hi' - (sz - 1)"] by auto
    with none m mem have "(lo', hi') = (lo, hi) \<or> (lo', hi') \<in> set zs" by auto
    then show ?thesis
    proof
      assume "(lo', hi') = (lo, hi)"
      with c a show ?thesis by auto
    next
      assume "(lo', hi') \<in> set zs"
      with sorted have "hi' < lo" by (auto simp: sorted_wrt_append)
      with c a sz show ?thesis by auto
    qed
  qed
qed

lemma highest_fit_exists:
  assumes inv: "occ_inv s" and w: "window_ok w" and b: "free_block s w sz b"
  shows "\<exists>a. find_map (fit_highest sz) (rev (free_spans_loop w (w_base w) (slots s))) = Some a"
proof -
  let ?spans = "free_spans_loop w (w_base w) (slots s)"
  note o = occ_invD(1) [OF inv]
  obtain lo hi where m: "(lo, hi) \<in> set ?spans" and c: "lo \<le> b" "b + (sz - 1) \<le> hi"
    using free_spans_complete [OF o, of "w_base w" b "b + (sz - 1)" w] b w
    by (auto simp: free_block_def window_ok_def)
  then have "fit_highest sz (lo, hi) = Some (hi - (sz - 1))"
    by (auto simp: fit_highest_Some)
  then have "find_map (fit_highest sz) (rev ?spans) \<noteq> None"
    using m by (auto simp: find_map_None simp del: not_None_eq intro!: bexI)
  then show ?thesis by blast
qed

text \<open>What a successful choice of the start address guarantees, per direction.\<close>

lemma choose_start_Lowest:
  assumes "occ_inv s" and "placement_ok p" and "p_at p = Lowest"
    and "choose_start mem p s = Inr a"
  obtains w where "occ_window (p_region p) s = Inr w" and "free_block s w (p_size p) a"
    and "p_align p dvd a"
    and "\<And>b. p_align p dvd b \<Longrightarrow> free_block s w (p_size p) b \<Longrightarrow> a \<le> b"
proof -
  from assms(3,4) obtain w where w: "occ_window (p_region p) s = Inr w"
    and f: "find_map (fit_lowest (p_size p) (p_align p)) (free_spans_loop w (w_base w) (slots s)) = Some a"
    by (auto simp: choose_start_def free_spans_def result_simps split: if_splits)
  have "0 < p_align p" using assms(2) by (simp add: placement_ok_def is_power_of_two_pos)
  from lowest_fit [OF assms(1) occ_window_ok(1) [OF assms(1) w] this f] w show thesis
    by (rule_tac that) auto
qed

lemma choose_start_Highest:
  assumes "occ_inv s" and "placement_ok p" and "p_at p = Highest"
    and "choose_start mem p s = Inr a"
  obtains w where "occ_window (p_region p) s = Inr w" and "free_block s w (p_size p) a"
    and "\<And>b. free_block s w (p_size p) b \<Longrightarrow> b \<le> a"
proof -
  from assms(3,4) obtain w where w: "occ_window (p_region p) s = Inr w"
    and f: "find_map (fit_highest (p_size p)) (rev (free_spans_loop w (w_base w) (slots s))) = Some a"
    by (auto simp: choose_start_def free_spans_def result_simps split: if_splits)
  have "0 < p_size p" using assms(2) by (simp add: placement_ok_def)
  from highest_fit [OF assms(1) occ_window_ok(1) [OF assms(1) w] this f] w show thesis
    by (rule_tac that) auto
qed

lemma occ_reserve_ok:
  assumes "occ_reserve mem p s = (Inr (start, gid), s')"
  shows "choose_start mem p s = Inr start" and "start + (p_size p - 1) < USIZE"
    and "occ_insert mem (p_region p) start (start + (p_size p - 1)) s = (Inr gid, s')"
  using assms by (auto simp: occ_reserve_def split: sum.splits option.splits prod.splits)

lemma occ_reserve_succeeds:
  assumes inv: "occ_inv s" and at: "choose_start mem p s = Inr a"
    and w: "occ_window (p_region p) s = Inr w" and free: "free_block s w (p_size p) a"
    and mem: "mem 2" and gen: "next_gen s \<le> ISIZE_MAX"
  shows "fst (occ_reserve mem p s) = Inr (a, next_gen s)"
proof -
  have bound: "a + (p_size p - 1) < USIZE"
    using free occ_window_ok(1) [OF inv w] by (auto simp: free_block_def window_ok_def)
  have "fst (occ_insert mem (p_region p) a (a + (p_size p - 1)) s) = Inr (next_gen s)"
    using free mem gen by (intro occ_insert_succeeds inv) (auto simp: free_block_def)
  then show ?thesis
    using at bound by (auto simp: occ_reserve_def checked_add_def split: prod.splits)
qed

lemma occ_reserve_err: "occ_reserve mem p s = (Inl e, s') \<Longrightarrow> s' = s"
  by (auto simp: occ_reserve_def split: sum.splits option.splits prod.splits dest: occ_insert_err)

lemma occ_reserve_inv:
  assumes "occ_inv s" and "placement_ok p"
  shows "occ_inv (snd (occ_reserve mem p s))"
proof (cases "occ_reserve mem p s")
  case (Pair r s')
  show ?thesis
  proof (cases r)
    case (Inl e)
    with Pair assms show ?thesis by (auto dest: occ_reserve_err)
  next
    case (Inr x)
    obtain start gid where x: "x = (start, gid)" by fastforce
    note ok = occ_reserve_ok [OF Pair [unfolded Inr x]]
    from occ_insert_ok(1) [OF assms(1) _ ok(2,3)] Pair show ?thesis by simp
  qed
qed

text \<open>
  C1: a reservation that succeeds hands out addresses no slot held before; it adds
  exactly them to the occupied set, under a generation no slot has ever carried,
  and leaves the windows alone.
\<close>

theorem reserve_disjoint:
  assumes "occ_inv s" and "placement_ok p"
    and "occ_reserve mem p s = (Inr (start, gid), s')"
  shows "{start .. start + (p_size p - 1)} \<inter> footprint (slots s) = {}
    \<and> footprint (slots s') = footprint (slots s) \<union> {start .. start + (p_size p - 1)}
    \<and> start + (p_size p - 1) < USIZE
    \<and> (\<forall>sl \<in> set (slots s). s_id sl \<noteq> gid) \<and> windows s' = windows s \<and> occ_inv s'"
proof -
  note ok = occ_reserve_ok [OF assms(3)]
  note ins = occ_insert_ok [OF assms(1) _ ok(2,3)]
  have "\<forall>sl \<in> set (slots s). s_id sl \<noteq> gid"
    using ins(3) occ_invD(2) [OF assms(1)] by (fastforce simp: slot_ok_def)
  moreover have "footprint (slots s') = footprint (slots s) \<union> {start .. start + (p_size p - 1)}"
    using ins(4) by (auto simp: footprint_def span_def)
  ultimately show ?thesis using ins(1,2,5) ok(2) by auto
qed

text \<open>
  C2: searching from the low end returns the least aligned address of the region's
  window at which the block is free, and it fails with \<open>OutOfMemory\<close> only when the
  window has no such address (given room for the bookkeeping and a generation).
\<close>

theorem reserve_lowest_first_fit:
  assumes "occ_inv s" and "placement_ok p" and "p_at p = Lowest"
    and "occ_window (p_region p) s = Inr w"
    and "mem 1" and "mem 2" and "next_gen s \<le> ISIZE_MAX"
  shows "case fst (occ_reserve mem p s) of
           Inr (start, gid) \<Rightarrow> p_align p dvd start \<and> free_block s w (p_size p) start
             \<and> (\<forall>b < start. p_align p dvd b \<longrightarrow> \<not> free_block s w (p_size p) b)
         | Inl e \<Rightarrow> e = OutOfMemory \<and> (\<forall>b. p_align p dvd b \<longrightarrow> \<not> free_block s w (p_size p) b)"
proof (cases "choose_start mem p s")
  case (Inl e)
  have pos: "0 < p_align p" using assms(2) by (simp add: placement_ok_def is_power_of_two_pos)
  from Inl assms(3-5) have "e = OutOfMemory"
    and none: "find_map (fit_lowest (p_size p) (p_align p)) (free_spans_loop w (w_base w) (slots s)) = None"
    by (auto simp: choose_start_def free_spans_def result_simps split: option.splits)
  with lowest_fit_exists [OF assms(1) occ_window_ok(1) [OF assms(1,4)] pos] Inl show ?thesis
    by (fastforce simp: occ_reserve_def)
next
  case (Inr a)
  from choose_start_Lowest [OF assms(1-3) Inr] obtain w'
    where a: "occ_window (p_region p) s = Inr w'" "free_block s w' (p_size p) a" "p_align p dvd a"
      and least: "\<And>b. p_align p dvd b \<Longrightarrow> free_block s w' (p_size p) b \<Longrightarrow> a \<le> b" by blast
  from a(1) assms(4) have w': "w' = w" by simp
  with occ_reserve_succeeds [OF assms(1) Inr assms(4)] a(2) assms(6,7)
  have "fst (occ_reserve mem p s) = Inr (a, next_gen s)" by simp
  with a(2,3) least w' show ?thesis by fastforce
qed

text \<open>
  C3: searching from the high end returns the greatest address of the window at which
  the block is free, and it fails with \<open>OutOfMemory\<close> only when there is none.
\<close>

theorem reserve_highest_last_fit:
  assumes "occ_inv s" and "placement_ok p" and "p_at p = Highest"
    and "occ_window (p_region p) s = Inr w"
    and "mem 1" and "mem 2" and "next_gen s \<le> ISIZE_MAX"
  shows "case fst (occ_reserve mem p s) of
           Inr (start, gid) \<Rightarrow> free_block s w (p_size p) start
             \<and> (\<forall>b > start. \<not> free_block s w (p_size p) b)
         | Inl e \<Rightarrow> e = OutOfMemory \<and> (\<forall>b. \<not> free_block s w (p_size p) b)"
proof (cases "choose_start mem p s")
  case (Inl e)
  from Inl assms(3-5) have "e = OutOfMemory"
    and none: "find_map (fit_highest (p_size p)) (rev (free_spans_loop w (w_base w) (slots s))) = None"
    by (auto simp: choose_start_def free_spans_def result_simps split: option.splits)
  with highest_fit_exists [OF assms(1) occ_window_ok(1) [OF assms(1,4)]] Inl show ?thesis
    by (fastforce simp: occ_reserve_def)
next
  case (Inr a)
  from choose_start_Highest [OF assms(1-3) Inr] obtain w'
    where a: "occ_window (p_region p) s = Inr w'" "free_block s w' (p_size p) a"
      and greatest: "\<And>b. free_block s w' (p_size p) b \<Longrightarrow> b \<le> a" by blast
  from a(1) assms(4) have w': "w' = w" by simp
  with occ_reserve_succeeds [OF assms(1) Inr assms(4)] a(2) assms(6,7)
  have "fst (occ_reserve mem p s) = Inr (a, next_gen s)" by simp
  with a(2) greatest w' show ?thesis by fastforce
qed

section \<open>Releasing and splitting\<close>

lemma slot_match_unique:
  assumes "occ_inv s" and "position (slot_match st la gid) (slots s) = Some at"
  obtains ys sl zs where "slots s = ys @ sl # zs" and "length ys = at"
    and "slot_match st la gid sl" and "\<forall>x \<in> set ys \<union> set zs. \<not> slot_match st la gid x"
proof -
  from assms(2) obtain ys sl zs where xs: "slots s = ys @ sl # zs" and len: "length ys = at"
    and m: "slot_match st la gid sl" and pre: "\<forall>y \<in> set ys. \<not> slot_match st la gid y"
    by (auto elim!: position_splitE)
  have o: "ordered (ys @ sl # zs)" using occ_invD(1) [OF assms(1)] xs by simp
  have "\<not> slot_match st la gid z" if "z \<in> set zs" for z
    using o m that by (auto simp: slot_match_def)
  with pre xs len m that show thesis by blast
qed

lemma occ_inv_slotsI:
  assumes "occ_inv s" and "ordered (slots s')" and "\<And>sl. sl \<in> set (slots s') \<Longrightarrow> slot_ok s' sl"
    and "windows s' = windows s" and "0 < next_gen s'" and "next_ticket s' < USIZE"
  shows "occ_inv s'"
  using assms by (simp add: occ_inv_def)

lemma slot_ok_mono:
  "slot_ok s sl \<Longrightarrow> next_gen s \<le> next_gen s' \<Longrightarrow> next_ticket s' = next_ticket s \<Longrightarrow> slot_ok s' sl"
  by (auto simp: slot_ok_def)

lemma ordered_filter: "ordered xs \<Longrightarrow> ordered (filter P xs)"
  by (induction xs) auto

lemma occ_release_inv:
  assumes "occ_inv s"
  shows "occ_inv (snd (occ_release st la gid s))"
proof (cases "position (slot_match st la gid) (slots s)")
  case None
  with assms show ?thesis by (simp add: occ_release_def)
next
  case (Some at)
  then obtain ys sl zs where xs: "slots s = ys @ sl # zs" and len: "length ys = at"
    by (auto elim: slot_match_unique [OF assms])
  then have s': "snd (occ_release st la gid s)
      = s\<lparr>slots := ys @ zs, cleanups := filter (\<lambda>(i, _). i \<noteq> gid) (cleanups s)\<rparr>"
    using Some by (auto simp: occ_release_def vec_remove_split)
  note ok = occ_invD [OF assms]
  show ?thesis unfolding s'
    using ok(1,5,6) by (intro occ_inv_slotsI [OF assms])
      (auto simp: xs intro!: slot_ok_mono [OF ok(2)])
qed

lemma release_match:
  assumes "occ_inv s"
  shows "case occ_release st la gid s of (done, s') \<Rightarrow>
           (done \<longleftrightarrow> (\<exists>sl \<in> set (slots s). slot_match st la gid sl))
         \<and> (\<not> done \<longrightarrow> s' = s)
         \<and> (done \<longrightarrow> set (slots s') = {sl \<in> set (slots s). \<not> slot_match st la gid sl}
                   \<and> footprint (slots s') = footprint (slots s) - {st .. la})"
proof (cases "position (slot_match st la gid) (slots s)")
  case None
  from None have "\<not> (\<exists>sl \<in> set (slots s). slot_match st la gid sl)" by (simp add: position_None)
  with None show ?thesis by (simp add: occ_release_def)
next
  case (Some at)
  then obtain ys sl zs where xs: "slots s = ys @ sl # zs" and len: "length ys = at"
    and m: "slot_match st la gid sl" and other: "\<forall>x \<in> set ys \<union> set zs. \<not> slot_match st la gid x"
    using slot_match_unique [OF assms] by blast
  have o: "ordered (ys @ sl # zs)" using occ_invD(1) [OF assms] xs by simp
  have "span x \<inter> {st .. la} = {}" if "x \<in> set ys \<union> set zs" for x
    using o m that by (fastforce simp: span_def slot_match_def)
  then have "footprint (ys @ zs) = footprint (slots s) - {st .. la}"
    using m by (fastforce simp: xs footprint_def span_def slot_match_def)
  with Some len m other show ?thesis
    by (auto simp: occ_release_def xs vec_remove_split)
qed

text \<open>
  C4: a release acts only on a credential that names the slot exactly (both ends and the
  generation, not retired): it then removes that slot's addresses and no other slot; with
  any other credential, a stale generation included, it reports failure and changes nothing.
\<close>

theorem release_exact:
  assumes "occ_inv s"
  shows "case occ_release st la gid s of (done, s') \<Rightarrow>
           (done \<longleftrightarrow> (\<exists>sl \<in> set (slots s).
              s_start sl = st \<and> s_last sl = la \<and> s_id sl = gid \<and> s_ticket sl = 0))
         \<and> (\<not> done \<longrightarrow> s' = s)
         \<and> (done \<longrightarrow> set (slots s') = {sl \<in> set (slots s).
                      \<not> (s_start sl = st \<and> s_last sl = la \<and> s_id sl = gid \<and> s_ticket sl = 0)}
                   \<and> footprint (slots s') = footprint (slots s) - {st .. la})"
proof -
  have "slot_match st la gid sl \<longleftrightarrow> s_start sl = st \<and> s_last sl = la \<and> s_id sl = gid \<and> s_ticket sl = 0" for sl
    by (auto simp: slot_match_def)
  then show ?thesis using release_match [OF assms, of st la gid] by (simp only:)
qed

lemma split_size:
  assumes "st \<le> la" and "la < USIZE" and "left < wrapping_add (la - st) 1"
  shows "left \<le> la - st"
proof (cases "la - st + 1 < USIZE")
  case False
  with assms(1,2) have "la - st + 1 = USIZE" by linarith
  with assms(3) show ?thesis by (simp add: wrapping_add_def)
qed (use assms in \<open>auto simp: wrapping_add_def\<close>)

lemma occ_split_ok:
  assumes inv: "occ_inv s" and ok: "occ_split mem st la gid left s = (Inr (right, li, ri), s')"
  obtains ys sl zs where "slots s = ys @ sl # zs" and "slot_match st la gid sl"
    and "slots s' = ys @ \<lparr>s_start = st, s_last = right - 1, s_ticket = 0, s_id = li, s_region = s_region sl\<rparr>
                  # \<lparr>s_start = right, s_last = la, s_ticket = 0, s_id = ri, s_region = s_region sl\<rparr> # zs"
    and "right = st + left" and "st < right" and "right \<le> la"
    and "li = next_gen s" and "ri = next_gen s + 1" and "next_gen s' = next_gen s + 2"
    and "windows s' = windows s" and "cleanups s' = cleanups s" and "next_ticket s' = next_ticket s"
proof -
  from ok obtain at where p: "position (slot_match st la gid) (slots s) = Some at"
    and l: "left \<noteq> 0" "left < wrapping_add (la - st) 1" and r: "right = st + left"
    and ids: "li = next_gen s" "ri = next_gen s + 1"
    and s': "s' = s\<lparr>next_gen := next_gen s + 2, slots := vec_insert (at + 1)
          \<lparr>s_start = right, s_last = la, s_ticket = 0, s_id = ri, s_region = s_region (slots s ! at)\<rparr>
          ((slots s)[at := \<lparr>s_start = st, s_last = right - 1, s_ticket = 0, s_id = li,
              s_region = s_region (slots s ! at)\<rparr>])\<rparr>"
    by (auto simp: occ_split_def next_id_def Let_def split: if_splits option.splits)
  from p obtain ys sl zs where xs: "slots s = ys @ sl # zs" and len: "length ys = at"
    and m: "slot_match st la gid sl" using slot_match_unique [OF inv] by blast
  have "sl \<in> set (slots s)" by (simp add: xs)
  then have "st \<le> la" "la < USIZE"
    using m ordered_nonempty [OF occ_invD(1) [OF inv]] occ_invD(2) [OF inv]
    by (auto simp: slot_match_def slot_ok_def)
  with split_size [OF this l(2)] have "right \<le> la" by (simp add: r)
  moreover have at: "at + 1 = length (ys @ [x])" for x :: slot by (simp add: len)
  have "slots s' = ys @ \<lparr>s_start = st, s_last = right - 1, s_ticket = 0, s_id = li, s_region = s_region sl\<rparr>
          # \<lparr>s_start = right, s_last = la, s_ticket = 0, s_id = ri, s_region = s_region sl\<rparr> # zs"
    using vec_insert_split [of "ys @ [\<lparr>s_start = st, s_last = right - 1, s_ticket = 0, s_id = li,
              s_region = s_region sl\<rparr>]" "\<lparr>s_start = right, s_last = la, s_ticket = 0, s_id = ri,
              s_region = s_region sl\<rparr>" zs]
    by (simp add: s' xs flip: len)
  ultimately show thesis using l(1) by (intro that [OF xs m _ r]) (simp_all add: r ids s')
qed

lemma occ_split_err:
  assumes "occ_split mem st la gid left s = (Inl e, s')"
  shows "slots s' = slots s \<and> windows s' = windows s \<and> cleanups s' = cleanups s
    \<and> next_ticket s' = next_ticket s \<and> next_gen s \<le> next_gen s'"
  using assms
  by (auto simp: occ_split_def next_id_def Let_def split: if_splits option.splits)



lemma occ_split_inv:
  assumes "occ_inv s"
  shows "occ_inv (snd (occ_split mem st la gid left s))"
proof (cases "occ_split mem st la gid left s")
  case (Pair r s')
  note ok = occ_invD [OF assms]
  have "occ_inv s'"
  proof (cases r)
    case (Inl e)
    note err = occ_split_err [OF Pair [unfolded Inl]]
    show ?thesis
      using err ok by (intro occ_inv_slotsI [OF assms]) (auto intro: slot_ok_mono)
  next
    case (Inr x)
    obtain right li ri where x: "x = (right, li, ri)" by (cases x) auto
    from occ_split_ok [OF assms Pair [unfolded Inr x]] obtain ys sl zs where
      xs: "slots s = ys @ sl # zs" and m: "slot_match st la gid sl"
      and xs': "slots s' = ys @ \<lparr>s_start = st, s_last = right - 1, s_ticket = 0, s_id = li, s_region = s_region sl\<rparr>
          # \<lparr>s_start = right, s_last = la, s_ticket = 0, s_id = ri, s_region = s_region sl\<rparr> # zs"
      and r: "st < right" "right \<le> la" and ids: "li = next_gen s" "ri = next_gen s + 1"
      and s': "next_gen s' = next_gen s + 2" "windows s' = windows s" "next_ticket s' = next_ticket s"
      by metis
    have o: "ordered (ys @ sl # zs)" using ok(1) xs by simp
    show ?thesis
    proof (rule occ_inv_slotsI [OF assms])
      show "ordered (slots s')" using o m r by (auto simp: xs' slot_match_def)
      show "slot_ok s' x" if "x \<in> set (slots s')" for x
      proof (cases "x \<in> set (slots s)")
        case True
        then show ?thesis by (rule slot_ok_mono [OF ok(2)]) (simp_all add: s')
      next
        case False
        have "slot_ok s sl" by (rule ok(2)) (simp add: xs)
        with False that m r show ?thesis
          by (auto simp: xs xs' slot_match_def slot_ok_def s' ids)
      qed
    qed (use ok s' in auto)
  qed
  with Pair show ?thesis by simp
qed

text \<open>
  C5: splitting a reservation replaces its slot by two adjacent ones that cover the same
  addresses, in the same region, under two fresh generations, so the credential of the
  whole no longer names anything.
\<close>

theorem split_partition:
  assumes "occ_inv s" and "occ_split mem st la gid left s = (Inr (right, li, ri), s')"
  shows "footprint (slots s') = footprint (slots s) \<and> st < right \<and> right \<le> la
    \<and> right = st + left \<and> li \<noteq> ri \<and> (\<forall>sl \<in> set (slots s). s_id sl \<noteq> li \<and> s_id sl \<noteq> ri)
    \<and> (\<exists>sl \<in> set (slots s'). slot_match st (right - 1) li sl)
    \<and> (\<exists>sl \<in> set (slots s'). slot_match right la ri sl)
    \<and> \<not> (\<exists>sl \<in> set (slots s'). slot_match st la gid sl)"
proof -
  from occ_split_ok [OF assms] obtain ys sl zs where
    xs: "slots s = ys @ sl # zs" and m: "slot_match st la gid sl"
    and xs': "slots s' = ys @ \<lparr>s_start = st, s_last = right - 1, s_ticket = 0, s_id = li, s_region = s_region sl\<rparr>
        # \<lparr>s_start = right, s_last = la, s_ticket = 0, s_id = ri, s_region = s_region sl\<rparr> # zs"
    and r: "right = st + left" "st < right" "right \<le> la"
    and ids: "li = next_gen s" "ri = next_gen s + 1" by metis
  have o: "ordered (ys @ sl # zs)" using occ_invD(1) [OF assms(1)] xs by simp
  have "footprint (slots s') = footprint (slots s)"
    using m r by (auto simp: xs xs' span_def slot_match_def)
  moreover have "\<forall>x \<in> set (slots s). s_id x < next_gen s"
    using occ_invD(2) [OF assms(1)] by (auto simp: slot_ok_def)
  moreover have "\<not> (\<exists>x \<in> set (slots s'). slot_match st la gid x)"
    using o m r by (auto simp: xs' slot_match_def)
  ultimately show ?thesis using r ids by (fastforce simp: xs' slot_match_def)
qed

section \<open>Retiring and reclaiming\<close>

text \<open>Who holds an address: generation, ticket and region of the slot over it.\<close>

definition held :: "slot list \<Rightarrow> nat \<Rightarrow> nat \<Rightarrow> nat \<Rightarrow> region_id \<Rightarrow> bool" where
  "held xs x gid t r \<longleftrightarrow>
     (\<exists>sl \<in> set xs. x \<in> span sl \<and> s_id sl = gid \<and> s_ticket sl = t \<and> s_region sl = r)"

lemma footprint_held: "footprint xs = {x. \<exists>gid t r. held xs x gid t r}"
  by (auto simp: footprint_def held_def)

lemma held_simps [simp]:
  "\<not> held [] x gid t r"
  "held (sl # xs) x gid t r \<longleftrightarrow>
     x \<in> span sl \<and> s_id sl = gid \<and> s_ticket sl = t \<and> s_region sl = r \<or> held xs x gid t r"
  "held (xs @ ys) x gid t r \<longleftrightarrow> held xs x gid t r \<or> held ys x gid t r"
  by (auto simp: held_def)

lemma retire_slot_held:
  assumes "st \<le> la"
  shows "held (retire_slot st la gid k sl) x i t r \<longleftrightarrow>
    x \<in> span sl \<and> s_id sl = i \<and> s_region sl = r
    \<and> t = (if s_ticket sl = 0 \<and> i = gid \<and> st \<le> x \<and> x \<le> la then k else s_ticket sl)"
  using assms by (auto simp: retire_slot_def span_def)

lemma retire_slot_ordered:
  assumes "st \<le> la" and "s_start sl \<le> s_last sl"
  shows "ordered (retire_slot st la gid k sl)"
    and "y \<in> set (retire_slot st la gid k sl) \<Longrightarrow>
           s_start sl \<le> s_start y \<and> s_last y \<le> s_last sl \<and> s_id y = s_id sl
           \<and> (s_ticket y = s_ticket sl \<or> s_ticket y = k)"
  using assms by (auto simp: retire_slot_def split: if_splits)

lemma ordered_concat:
  assumes "ordered xs"
    and "\<And>x. x \<in> set xs \<Longrightarrow> ordered (f x)"
    and "\<And>x y. x \<in> set xs \<Longrightarrow> y \<in> set (f x) \<Longrightarrow> s_start x \<le> s_start y \<and> s_last y \<le> s_last x"
  shows "ordered (concat (map f xs))"
  using assms
proof (induction xs)
  case (Cons a xs)
  have "s_last y < s_start z" if y: "y \<in> set (f a)" and x: "x \<in> set xs" "z \<in> set (f x)" for x y z
    using Cons.prems(1) Cons.prems(3) [of a y] Cons.prems(3) [of x z] y x by fastforce
  moreover have "ordered (concat (map f xs))"
    using Cons.prems by (intro Cons.IH) auto
  ultimately show ?case using Cons.prems(2) by auto
qed simp

lemma occ_retire_Some:
  "occ_retire st la gid s = Some (k, s') \<longleftrightarrow> next_ticket s \<noteq> 0 \<and> k = next_ticket s
     \<and> s' = s\<lparr>next_ticket := wrapping_add k 1, slots := concat (map (retire_slot st la gid k) (slots s))\<rparr>"
  by (auto simp: occ_retire_def Let_def)

lemma wrapping_succ: "n < USIZE \<Longrightarrow> wrapping_add n (Suc 0) = (if n + 1 = USIZE then 0 else n + 1)"
  by (auto simp: wrapping_add_def)

lemma occ_retire_inv:
  assumes "occ_inv s" and "st \<le> la" and "occ_retire st la gid s = Some (k, s')"
  shows "occ_inv s'"
proof -
  note ok = occ_invD [OF assms(1)]
  from assms(3) have k: "next_ticket s \<noteq> 0" "k = next_ticket s"
    and s': "s' = s\<lparr>next_ticket := wrapping_add k 1, slots := concat (map (retire_slot st la gid k) (slots s))\<rparr>"
    by (auto simp: occ_retire_Some)
  note cut = retire_slot_ordered [OF assms(2) ordered_nonempty [OF ok(1)]]
  show ?thesis
  proof (rule occ_inv_slotsI [OF assms(1)])
    show "ordered (slots s')"
      using cut by (auto simp: s' intro!: ordered_concat [OF ok(1)])
    show "slot_ok s' y" if "y \<in> set (slots s')" for y
    proof -
      from that obtain sl where sl: "sl \<in> set (slots s)" "y \<in> set (retire_slot st la gid k sl)"
        by (auto simp: s')
      from cut(2) [OF sl] ok(2) [OF sl(1)] k ok(6) show ?thesis
        by (auto simp: slot_ok_def s' wrapping_succ)
    qed
  qed (use ok in \<open>auto simp: s' wrapping_add_def\<close>)
qed

lemma retire_held:
  assumes "st \<le> la" and "occ_retire st la gid s = Some (k, s')"
  shows "held (slots s') x i t r \<longleftrightarrow>
           (\<exists>t0. held (slots s) x i t0 r
              \<and> t = (if t0 = 0 \<and> i = gid \<and> st \<le> x \<and> x \<le> la then k else t0))"
proof -
  have "held (concat (map (retire_slot st la gid k) xs)) x i t r \<longleftrightarrow>
       (\<exists>t0. held xs x i t0 r \<and> t = (if t0 = 0 \<and> i = gid \<and> st \<le> x \<and> x \<le> la then k else t0))"
    for xs
  proof (induction xs)
    case (Cons sl xs)
    show ?case
      by (simp only: list.map concat.simps held_simps Cons.IH retire_slot_held [OF assms(1)]) blast
  qed simp
  with assms(2) show ?thesis by (simp add: occ_retire_Some)
qed

lemma retire_ticket_fresh:
  assumes "occ_inv s" and "occ_retire st la gid s = Some (k, s')"
  shows "k \<noteq> 0" and "sl \<in> set (slots s) \<Longrightarrow> s_ticket sl \<noteq> k"
  using assms(2) occ_invD(2) [OF assms(1), of sl] by (auto simp: occ_retire_Some slot_ok_def)

text \<open>
  C6: retiring a span marks with the new ticket exactly the addresses of the span that
  the reservation holds and that are not retired yet; every other address, and the set
  of occupied addresses, is as before, and no earlier slot carries the ticket.
\<close>

theorem retire_marks_exactly:
  assumes "occ_inv s" and "st \<le> la" and "occ_retire st la gid s = Some (k, s')"
  shows "(\<forall>x i t r. held (slots s') x i t r \<longleftrightarrow>
           (\<exists>t0. held (slots s) x i t0 r
              \<and> t = (if t0 = 0 \<and> i = gid \<and> st \<le> x \<and> x \<le> la then k else t0)))
    \<and> footprint (slots s') = footprint (slots s)
    \<and> k \<noteq> 0 \<and> (\<forall>sl \<in> set (slots s). s_ticket sl \<noteq> k)"
proof -
  note h = retire_held [OF assms(2,3)]
  have "footprint (slots s') = footprint (slots s)"
    unfolding footprint_held h by fast
  then show ?thesis
    using retire_ticket_fresh [OF assms(1,3)] by (simp only: h) simp
qed

lemma held_filter:
  "held (filter (\<lambda>sl. s_ticket sl \<noteq> k) xs) x i t r \<longleftrightarrow> held xs x i t r \<and> t \<noteq> k"
  by (auto simp: held_def)

lemma slots_reclaim: "slots (occ_reclaim k s) = filter (\<lambda>sl. s_ticket sl \<noteq> k) (slots s)"
  by (simp add: occ_reclaim_def Let_def)

lemma reclaim_fields [simp]:
  "windows (occ_reclaim k s) = windows s" "next_gen (occ_reclaim k s) = next_gen s"
  "next_ticket (occ_reclaim k s) = next_ticket s"
  by (simp_all add: occ_reclaim_def Let_def)

lemma occ_reclaim_inv:
  assumes "occ_inv s"
  shows "occ_inv (occ_reclaim k s)"
proof (rule occ_inv_slotsI [OF assms])
  show "slot_ok (occ_reclaim k s) sl" if "sl \<in> set (slots (occ_reclaim k s))" for sl
    using that by (intro slot_ok_mono [OF occ_invD(2) [OF assms]]) (auto simp: slots_reclaim)
qed (use occ_invD [OF assms] in \<open>auto simp: slots_reclaim ordered_filter\<close>)

text \<open>
  C7: settling the ticket of a retirement frees the addresses that retirement marked and
  nothing else, so afterwards the span is free of the reservation's live part while every
  address another generation or an earlier ticket holds is untouched.
\<close>

theorem retire_reclaim_frees_exactly:
  assumes "occ_inv s" and "st \<le> la" and "occ_retire st la gid s = Some (k, s')"
  shows "held (slots (occ_reclaim k s')) x i t r \<longleftrightarrow>
           held (slots s) x i t r \<and> \<not> (t = 0 \<and> i = gid \<and> st \<le> x \<and> x \<le> la)"
proof -
  have "t0 \<noteq> k" if "held (slots s) x i t0 r" for t0
    using that retire_ticket_fresh(2) [OF assms(1,3)] by (auto simp: held_def)
  with retire_ticket_fresh(1) [OF assms(1,3)] show ?thesis
    unfolding slots_reclaim held_filter retire_held [OF assms(2,3)] by metis
qed

section \<open>The pieces of a reservation\<close>

definition piece_at :: "(nat \<times> nat \<times> nat) list \<Rightarrow> nat \<Rightarrow> nat \<Rightarrow> bool" where
  "piece_at ps x t \<longleftrightarrow> (\<exists>lo hi. (lo, hi, t) \<in> set ps \<and> lo \<le> x \<and> x \<le> hi)"

lemma piece_at_simps [simp]:
  "\<not> piece_at [] x t"
  "piece_at ((lo, hi, t') # ps) x t \<longleftrightarrow> lo \<le> x \<and> x \<le> hi \<and> t' = t \<or> piece_at ps x t"
  by (auto simp: piece_at_def)

lemma held_above: "held xs x gid t r \<Longrightarrow> \<forall>y \<in> set xs. b < s_start y \<Longrightarrow> b < x"
  by (auto simp: held_def span_def)

text \<open>
  Either some address of the range is not held by the generation and the loop reports
  \<open>NoRegion\<close>, or the pieces give, address by address, the ticket it is held under.
\<close>

definition pieces_spec ::
  "nat \<Rightarrow> nat \<Rightarrow> nat \<Rightarrow> slot list \<Rightarrow> nest_error + (nat \<times> nat \<times> nat) list \<Rightarrow> bool" where
  "pieces_spec at lst gid ss res \<longleftrightarrow>
     (case res of
        Inl e \<Rightarrow> e = NoRegion \<and> (\<exists>x. at \<le> x \<and> x \<le> lst \<and> (\<forall>t r. \<not> held ss x gid t r))
      | Inr ps \<Rightarrow> (\<forall>x. at \<le> x \<and> x \<le> lst \<longrightarrow> (\<exists>t r. held ss x gid t r))
                 \<and> (\<forall>x t. piece_at ps x t \<longleftrightarrow> at \<le> x \<and> x \<le> lst \<and> (\<exists>r. held ss x gid t r)))"

lemma pieces_spec_skip:
  assumes "s_last sl < at" and "pieces_spec at lst gid ss res"
  shows "pieces_spec at lst gid (sl # ss) res"
  using assms by (auto simp: pieces_spec_def span_def split: sum.splits)

lemma pieces_spec_step:
  assumes o: "ordered (sl # ss)" and c: "s_start sl \<le> at" "at \<le> s_last sl" "s_last sl < lst" "s_id sl = gid"
    and rest: "pieces_spec (s_last sl + 1) lst gid ss res"
  shows "pieces_spec at lst gid (sl # ss)
           (rbind res (\<lambda>ps. Inr ((at, s_last sl, s_ticket sl) # ps)))"
proof -
  have later: "held ss x gid t r \<Longrightarrow> s_last sl < x" for x t r
    by (rule held_above [of ss]) (use o in auto)
  show ?thesis
  proof (cases res)
    case (Inl e)
    then obtain x where "e = NoRegion" "s_last sl < x" "x \<le> lst" "\<forall>t r. \<not> held ss x gid t r"
      using rest by (fastforce simp: pieces_spec_def Suc_le_eq)
    with c Inl show ?thesis
      by (auto simp: pieces_spec_def span_def result_simps intro!: exI [of _ x])
  next
    case (Inr ps)
    have h: "(\<exists>r. held (sl # ss) x gid t r) \<longleftrightarrow>
            x \<in> span sl \<and> t = s_ticket sl \<or> s_last sl < x \<and> (\<exists>r. held ss x gid t r)" for x t
      using c later by auto
    have "(\<exists>t r. held (sl # ss) x gid t r)" if "at \<le> x" "x \<le> lst" for x
      using rest Inr c that by (cases "x \<le> s_last sl") (auto simp: pieces_spec_def span_def)
    moreover have "piece_at ((at, s_last sl, s_ticket sl) # ps) x t
        \<longleftrightarrow> at \<le> x \<and> x \<le> lst \<and> (\<exists>r. held (sl # ss) x gid t r)" for x t
      unfolding h piece_at_simps using rest Inr c by (auto simp: pieces_spec_def span_def)
    ultimately show ?thesis
      by (simp add: pieces_spec_def result_simps Inr del: held_simps piece_at_simps)
  qed
qed

lemma pieces_loop_spec:
  assumes "ordered ss" and "at \<le> lst"
  shows "pieces_spec at lst gid ss (pieces_loop at lst gid ss)"
  using assms
proof (induction at lst gid ss rule: pieces_loop.induct)
  case (1 at lst gid)
  then show ?case by (auto simp: pieces_spec_def)
next
  case (2 at lst gid sl ss)
  note o = "2.prems"(1)
  have later: "held ss x gid t r \<Longrightarrow> s_last sl < x" for x t r
    by (rule held_above [of ss]) (use o in auto)
  consider (skip) "s_last sl < at"
    | (gap) "at \<le> s_last sl" "s_start sl > lst \<or> s_id sl \<noteq> gid \<or> s_start sl > at"
    | (fin) "at \<le> s_last sl" "s_start sl \<le> at" "s_id sl = gid" "lst \<le> s_last sl"
    | (more) "at \<le> s_last sl" "s_start sl \<le> at" "s_id sl = gid" "s_last sl < lst" by linarith
  then show ?case
  proof cases
    case skip
    with "2.IH"(1) [OF skip] "2.prems" pieces_spec_skip show ?thesis by simp
  next
    case gap
    then have "pieces_loop at lst gid (sl # ss) = Inl NoRegion" by auto
    moreover have "\<not> held (sl # ss) at gid t r" for t r
      using gap later [of at t r] "2.prems"(2) by (auto simp: span_def)
    ultimately show ?thesis using "2.prems"(2) by (auto simp: pieces_spec_def)
  next
    case fin
    with later show ?thesis
      using "2.prems"(2) by (fastforce simp: pieces_spec_def span_def min_def)
  next
    case more
    then have "pieces_spec (s_last sl + 1) lst gid ss (pieces_loop (s_last sl + 1) lst gid ss)"
      using "2.IH"(2) [of "s_last sl"] "2.prems" by (simp add: min_def)
    from pieces_spec_step [OF o more(2,1,4,3) this] more show ?thesis
      by (simp add: min_def Let_def)
  qed
qed

text \<open>
  C8: the pieces of a range exist exactly when the generation holds every address of it
  (a foreign slot or a hole in between is an error), and they report for each address of
  the range the ticket it is held under and nothing outside the range.
\<close>

theorem pieces_cover:
  assumes "occ_inv s" and "st \<le> la" and "mem 0"
  shows "case occ_pieces mem st la gid s of
           Inl e \<Rightarrow> e = NoRegion \<and> (\<exists>x. st \<le> x \<and> x \<le> la \<and> (\<forall>t r. \<not> held (slots s) x gid t r))
         | Inr ps \<Rightarrow> (\<forall>x. st \<le> x \<and> x \<le> la \<longrightarrow> (\<exists>t r. held (slots s) x gid t r))
             \<and> (\<forall>x t. piece_at ps x t \<longleftrightarrow> st \<le> x \<and> x \<le> la \<and> (\<exists>r. held (slots s) x gid t r))"
  using pieces_loop_spec [OF occ_invD(1) [OF assms(1)] assms(2), of gid] assms(3)
  by (simp add: occ_pieces_def pieces_spec_def)

section \<open>Windows\<close>

lemma set_window_ids: "(\<And>w. w_id (f w) = w_id w) \<Longrightarrow> map w_id (set_window gid f ws) = map w_id ws"
  by (induction ws) auto

lemma set_window_mem: "x \<in> set (set_window gid f ws) \<Longrightarrow> x \<in> set ws \<or> (\<exists>w \<in> set ws. w_id w = gid \<and> x = f w)"
  by (induction ws) (auto split: if_splits)

lemma occ_inv_windowsI:
  assumes "occ_inv s" and "slots s' = slots s" and "next_gen s' = next_gen s"
    and "next_ticket s' = next_ticket s" and "distinct (map w_id (windows s'))"
    and "\<And>w. w \<in> set (windows s') \<Longrightarrow> window_ok w"
  shows "occ_inv s'"
  using assms by (simp add: occ_inv_def slot_ok_def)

lemma occ_attach_inv:
  assumes "occ_inv s" and "lst < USIZE"
  shows "occ_inv (snd (occ_attach mem gid base lst s))"
  using assms occ_invD(3,4) [OF assms(1)]
  by (auto simp: occ_attach_def window_ok_def intro!: occ_inv_windowsI [OF assms(1)])

lemma occ_configure_inv:
  assumes "occ_inv s" and "lst < USIZE"
  shows "occ_inv (snd (occ_configure mem gid base lst s))"
  using assms occ_invD(3,4) [OF assms(1)]
  by (auto simp: occ_configure_def window_ok_def set_window_ids occ_attach_inv
      intro!: occ_inv_windowsI [OF assms(1)] dest!: set_window_mem)

lemma find_window: "find (\<lambda>w. w_id w = gid) ws = Some w \<Longrightarrow> distinct (map w_id ws) \<Longrightarrow>
    x \<in> set ws \<Longrightarrow> w_id x = gid \<Longrightarrow> x = w"
  by (induction ws) (auto split: if_splits)

lemma occ_advance_inv:
  assumes "occ_inv s"
  shows "occ_inv (snd (occ_advance gid base s))"
proof (cases "find (\<lambda>w. w_id w = gid) (windows s)")
  case None
  with assms show ?thesis by (simp add: occ_advance_def)
next
  case (Some w)
  note ok = occ_invD(3,4) [OF assms]
  have "window_ok x" if "base \<le> w_last w" "x \<in> set (set_window gid (\<lambda>w. w\<lparr>w_base := base\<rparr>) (windows s))" for x
    using set_window_mem [OF that(2)] ok find_window [OF Some ok(1)] that(1)
    by (auto simp: window_ok_def)
  then show ?thesis
    using Some ok assms
    by (auto simp: occ_advance_def set_window_ids intro!: occ_inv_windowsI [OF assms])
qed

section \<open>Histories\<close>

text \<open>
  One call on an address space. The generation and the ticket counters are shared by
  every address space of the kernel, so between two calls they may also have moved on
  (\<open>others\<close>); a ticket counter that has come round to zero stays there, because the
  next retirement stops the kernel.
\<close>

inductive occ_step :: "occupancy \<Rightarrow> occupancy \<Rightarrow> bool" where
  attach: "lst < USIZE \<Longrightarrow> occ_step s (snd (occ_attach mem gid base lst s))"
| configure: "lst < USIZE \<Longrightarrow> occ_step s (snd (occ_configure mem gid base lst s))"
| advance: "occ_step s (snd (occ_advance gid base s))"
| reserve: "placement_ok p \<Longrightarrow> occ_step s (snd (occ_reserve mem p s))"
| split: "occ_step s (snd (occ_split mem st la i left s))"
| release: "occ_step s (snd (occ_release st la i s))"
| prepare: "occ_step s (snd (occ_prepare_cleanup mem i s))"
| take: "occ_step s (snd (occ_take_cleanup i s))"
| retire: "st \<le> la \<Longrightarrow> occ_retire st la i s = Some (k, s') \<Longrightarrow> occ_step s s'"
| reclaim: "occ_step s (occ_reclaim k s)"
| others: "next_gen s \<le> g \<Longrightarrow> next_ticket s \<le> k \<and> next_ticket s \<noteq> 0 \<and> k < USIZE \<or> k = 0
     \<Longrightarrow> occ_step s (s\<lparr>next_gen := g, next_ticket := k\<rparr>)"

lemma occ_inv_cleanups:
  "occ_inv s \<Longrightarrow> slots s' = slots s \<Longrightarrow> windows s' = windows s \<Longrightarrow> next_gen s' = next_gen s
     \<Longrightarrow> next_ticket s' = next_ticket s \<Longrightarrow> occ_inv s'"
  by (simp add: occ_inv_def slot_ok_def)

lemma occ_step_inv:
  assumes "occ_step s t" and inv: "occ_inv s"
  shows "occ_inv t"
  using assms(1)
proof cases
  case (others g k)
  then have "slot_ok (s\<lparr>next_gen := g, next_ticket := k\<rparr>) sl" if "sl \<in> set (slots s)" for sl
    using occ_invD(2) [OF inv that] by (auto simp: slot_ok_def)
  with others occ_invD [OF inv] show ?thesis
    using USIZE_pos by (intro occ_inv_slotsI [OF inv]) auto
next
  case (prepare mem i)
  with inv show ?thesis by (auto simp: occ_prepare_cleanup_def intro: occ_inv_cleanups)
next
  case (take i)
  with inv show ?thesis
    by (auto simp: occ_take_cleanup_def intro: occ_inv_cleanups split: option.splits)
qed (use inv in \<open>auto intro: occ_attach_inv occ_configure_inv occ_advance_inv occ_reserve_inv
    occ_split_inv occ_release_inv occ_retire_inv occ_reclaim_inv\<close>)

interpretation occ_run: component occ_step occ_inv
  by unfold_locales (rule occ_step_inv)

text \<open>
  C9: whatever calls an address space has served since its creation, failed ones
  included, no two slots share an address, the slots are in ascending order of
  address, and at most one window exists per region, none of them empty.
\<close>

theorem occ_reachable_disjoint:
  assumes "occ_step\<^sup>*\<^sup>* occ_new s" and "i < j" and "j < length (slots s)"
  shows "span (slots s ! i) \<inter> span (slots s ! j) = {}
    \<and> s_last (slots s ! i) < s_start (slots s ! j)
    \<and> distinct (map w_id (windows s)) \<and> (\<forall>w \<in> set (windows s). w_base w \<le> w_last w)"
proof -
  have inv: "occ_inv s" by (rule occ_run.run_inv [OF occ_new_inv assms(1)])
  have "s_last (slots s ! i) < s_start (slots s ! j)"
    using occ_invD(1) [OF inv] assms(2,3) by (auto simp: ordered_def sorted_wrt_iff_nth_less)
  then show ?thesis
    using occ_invD(3,4) [OF inv] ordered_disjoint [OF occ_invD(1) [OF inv] assms(2,3)]
    by (auto simp: window_ok_def)
qed

section \<open>Instances\<close>

text \<open>A space with one window of eight pages and one page of it held.\<close>

definition occ_sample :: occupancy where
  "occ_sample = \<lparr>windows = [\<lparr>w_id = Normal, w_base = 4096, w_last = 36863\<rparr>],
     slots = [\<lparr>s_start = 12288, s_last = 16383, s_ticket = 0, s_id = 5, s_region = Normal\<rparr>],
     cleanups = [], next_gen = 6, next_ticket = 3\<rparr>"

definition place_low :: placement where
  "place_low = \<lparr>p_region = Normal, p_size = 8192, p_align = 4096, p_at = Lowest\<rparr>"

definition place_high :: placement where
  "place_high = \<lparr>p_region = Normal, p_size = 8192, p_align = 4096, p_at = Highest\<rparr>"

lemma page_is_power: "is_power_of_two 4096"
  by (simp add: is_power_of_two.simps)

lemma sample_inv: "occ_inv occ_sample"
  by (simp add: occ_inv_def occ_sample_def window_ok_def slot_ok_def USIZE_def)

lemma place_ok: "placement_ok place_low" "placement_ok place_high"
  by (simp_all add: placement_ok_def place_low_def place_high_def USIZE_def PAGE_SIZE_def page_is_power)

lemmas reserve_eval = occ_reserve_def choose_start_def occ_window_def free_spans_def fit_lowest_def
  fit_highest_def occ_insert_def next_id_def occ_sample_def place_low_def place_high_def
  checked_add_def checked_sub_def checked_next_multiple_of_def next_multiple_of_def
  USIZE_def ISIZE_MAX_def partition_point_def vec_insert_def

lemma reserve_low_eval:
  "occ_reserve (\<lambda>_. True) place_low occ_sample =
     (Inr (4096, 6), occ_sample\<lparr>next_gen := 7,
        slots := \<lparr>s_start = 4096, s_last = 12287, s_ticket = 0, s_id = 6, s_region = Normal\<rparr>
                 # slots occ_sample\<rparr>)"
  by (simp add: reserve_eval)

theorem reserve_disjoint_witness:
  "{4096 .. 12287} \<inter> footprint (slots occ_sample) = {}
   \<and> footprint (slots (snd (occ_reserve (\<lambda>_. True) place_low occ_sample)))
       = footprint (slots occ_sample) \<union> {4096 .. 12287}
   \<and> occ_inv (snd (occ_reserve (\<lambda>_. True) place_low occ_sample))"
  using reserve_disjoint [OF sample_inv place_ok(1) reserve_low_eval]
  unfolding reserve_low_eval by (simp add: place_low_def)

theorem reserve_lowest_first_fit_witness:
  "fst (occ_reserve (\<lambda>_. True) place_low occ_sample) = Inr (4096, 6)
   \<and> free_block occ_sample \<lparr>w_id = Normal, w_base = 4096, w_last = 36863\<rparr> 8192 4096
   \<and> \<not> free_block occ_sample \<lparr>w_id = Normal, w_base = 4096, w_last = 36863\<rparr> 8192 0"
  using reserve_lowest_first_fit [OF sample_inv place_ok(1), where mem = "\<lambda>_. True"
      and w = "\<lparr>w_id = Normal, w_base = 4096, w_last = 36863\<rparr>"]
  by (simp add: reserve_low_eval) (simp add: place_low_def occ_window_def occ_sample_def ISIZE_MAX_def result_simps)

theorem reserve_highest_last_fit_witness:
  "fst (occ_reserve (\<lambda>_. True) place_high occ_sample) = Inr (28672, 6)
   \<and> free_block occ_sample \<lparr>w_id = Normal, w_base = 4096, w_last = 36863\<rparr> 8192 28672
   \<and> \<not> free_block occ_sample \<lparr>w_id = Normal, w_base = 4096, w_last = 36863\<rparr> 8192 32768"
proof -
  have e: "fst (occ_reserve (\<lambda>_. True) place_high occ_sample) = Inr (28672, 6)"
    by (simp add: reserve_eval)
  show ?thesis
    using reserve_highest_last_fit [OF sample_inv place_ok(2), where mem = "\<lambda>_. True"
      and w = "\<lparr>w_id = Normal, w_base = 4096, w_last = 36863\<rparr>"]
    by (simp add: e) (simp add: place_high_def occ_window_def occ_sample_def ISIZE_MAX_def result_simps)
qed

theorem release_exact_witness:
  "fst (occ_release 12288 16383 5 occ_sample) \<and> \<not> fst (occ_release 12288 16383 7 occ_sample)
   \<and> footprint (slots (snd (occ_release 12288 16383 5 occ_sample))) = {}"
  using release_exact [OF sample_inv, of 12288 16383 5] release_exact [OF sample_inv, of 12288 16383 7]
  by (auto simp: occ_sample_def span_def split: prod.splits)

lemma sample2_inv: "occ_inv (snd (occ_reserve (\<lambda>_. True) place_low occ_sample))"
  by (rule occ_reserve_inv [OF sample_inv place_ok(1)])

lemmas split_eval = occ_split_def slot_match_def next_id_def wrapping_add_def vec_insert_def
  USIZE_def ISIZE_MAX_def PAGE_SIZE_def

theorem split_partition_witness:
  "\<exists>s'. occ_split (\<lambda>_. True) 4096 12287 6 4096
           (snd (occ_reserve (\<lambda>_. True) place_low occ_sample)) = (Inr (8192, 7, 8), s')
     \<and> footprint (slots s') = footprint (slots (snd (occ_reserve (\<lambda>_. True) place_low occ_sample)))"
proof -
  let ?s = "snd (occ_reserve (\<lambda>_. True) place_low occ_sample)"
  have "fst (occ_split (\<lambda>_. True) 4096 12287 6 4096 ?s) = Inr (8192, 7, 8)"
    by (simp add: reserve_low_eval split_eval)
  then obtain s' where e: "occ_split (\<lambda>_. True) 4096 12287 6 4096 ?s = (Inr (8192, 7, 8), s')"
    by (metis prod.collapse)
  with split_partition [OF sample2_inv e] show ?thesis by blast
qed

lemma retire_sample:
  "occ_retire 12288 16383 5 occ_sample = Some (3, occ_sample\<lparr>next_ticket := 4,
     slots := [\<lparr>s_start = 12288, s_last = 16383, s_ticket = 3, s_id = 5, s_region = Normal\<rparr>]\<rparr>)"
  by (simp add: occ_retire_def retire_slot_def occ_sample_def wrapping_add_def USIZE_def)

theorem retire_marks_exactly_witness:
  "\<exists>s'. occ_retire 12288 16383 5 occ_sample = Some (3, s')
      \<and> footprint (slots s') = footprint (slots occ_sample)"
  using retire_marks_exactly [OF sample_inv _ retire_sample] by (auto simp: retire_sample)

theorem retire_reclaim_frees_exactly_witness:
  "\<exists>s'. occ_retire 12288 16383 5 occ_sample = Some (3, s')
      \<and> \<not> held (slots (occ_reclaim 3 s')) 12288 5 0 Normal"
  using retire_reclaim_frees_exactly [OF sample_inv _ retire_sample, of 12288 5 0 Normal]
  by (auto simp: retire_sample)

theorem pieces_cover_witness:
  "occ_pieces (\<lambda>_. True) 12288 16383 5 occ_sample = Inr [(12288, 16383, 0)]
   \<and> (\<exists>t r. held (slots occ_sample) 13000 5 t r)"
proof -
  have e: "occ_pieces (\<lambda>_. True) 12288 16383 5 occ_sample = Inr [(12288, 16383, 0)]"
    by (simp add: occ_pieces_def occ_sample_def)
  from pieces_cover [OF sample_inv, of 12288 16383 "\<lambda>_. True" 5] show ?thesis by (simp add: e)
qed

theorem occ_reachable_disjoint_witness:
  "\<exists>s. occ_step\<^sup>*\<^sup>* occ_new s \<and> length (slots s) = 2
     \<and> span (slots s ! 0) \<inter> span (slots s ! 1) = {}"
proof -
  define p where "p a = \<lparr>p_region = Static, p_size = 4096, p_align = 4096, p_at = Exact a\<rparr>" for a
  define s1 where "s1 = snd (occ_reserve (\<lambda>_. True) (p 8192) occ_new)"
  define s2 where "s2 = snd (occ_reserve (\<lambda>_. True) (p 4096) s1)"
  have ok: "placement_ok (p 4096)" "placement_ok (p 8192)"
    by (simp_all add: placement_ok_def p_def USIZE_def PAGE_SIZE_def page_is_power)
  have "occ_step occ_new s1" "occ_step s1 s2"
    unfolding s1_def s2_def by (rule occ_step.reserve, rule ok)+
  then have run: "occ_step\<^sup>*\<^sup>* occ_new s2" by auto
  have "length (slots s2) = 2"
    by (simp add: s1_def s2_def p_def occ_new_def reserve_eval)
  with occ_reachable_disjoint [OF run, of 0 1] run show ?thesis by auto
qed

end
