(* ===== verification/Address.thy ===== *)
theory Address
  imports Prelude "HOL-Library.Word"
begin

text \<open>
  Addresses and paging geometry (\<open>kernel/src/core/memory/address/\<close>,
  \<open>kernel/src/machine/mode/geometry.rs\<close>).

  A virtual address is a number below \<open>USIZE\<close>; \<open>from_raw\<close> sign-extends it from the
  mode's top address bit, which is done on the 64-bit word as in the code. The numbers
  of the three paging modes come from \<open>geometry\<close>.
\<close>

unbundle bit_operations_syntax

section \<open>Geometry\<close>

datatype satp_mode = Sv39 | Sv48 | Sv57

record geo =
  levels :: nat
  va_bits :: nat

definition geometry :: "satp_mode \<Rightarrow> geo" where
  "geometry m = (case m of Sv39 \<Rightarrow> \<lparr>levels = 3, va_bits = 39\<rparr>
                         | Sv48 \<Rightarrow> \<lparr>levels = 4, va_bits = 48\<rparr>
                         | Sv57 \<Rightarrow> \<lparr>levels = 5, va_bits = 57\<rparr>)"

definition split_bit :: "geo \<Rightarrow> nat" where
  "split_bit g = va_bits g - 1"

definition geo_ok :: "geo \<Rightarrow> bool" where
  "geo_ok g \<longleftrightarrow> 0 < levels g \<and> va_bits g = PAGE_SHIFT + 9 * levels g \<and> va_bits g \<le> 57"

lemma geometry_ok: "geo_ok (geometry m)"
  by (cases m) (simp_all add: geometry_def geo_ok_def PAGE_SHIFT_def)

section \<open>Virtual addresses\<close>

definition virt_from_raw :: "geo \<Rightarrow> nat \<Rightarrow> nat" where
  "virt_from_raw g addr =
     (let bit = split_bit g in
      unat (signed_drop_bit (63 - bit) (push_bit (63 - bit) (word_of_nat addr :: 64 word))))"

definition vpn :: "nat \<Rightarrow> nat \<Rightarrow> nat" where
  "vpn va level = va div 2 ^ (PAGE_SHIFT + level * 9) mod 512"

definition page_offset :: "nat \<Rightarrow> nat" where
  "page_offset va = va mod PAGE_SIZE"

definition is_user :: "geo \<Rightarrow> nat \<Rightarrow> bool" where
  "is_user g va \<longleftrightarrow> va div 2 ^ split_bit g mod 2 = 0"

definition page_align :: "nat \<Rightarrow> nat" where
  "page_align va = va - va mod PAGE_SIZE"

definition phys_is_aligned :: "nat \<Rightarrow> bool" where
  "phys_is_aligned pa \<longleftrightarrow> pa mod PAGE_SIZE = 0"

definition page_count_new :: "nat \<Rightarrow> nat option" where
  "page_count_new v = (if v = 0 then None else Some v)"

definition checked_bytes :: "nat \<Rightarrow> nat option" where
  "checked_bytes n = checked_mul n PAGE_SIZE"

text \<open>The two canonical halves of the address space.\<close>

definition canonical :: "geo \<Rightarrow> nat \<Rightarrow> bool" where
  "canonical g a \<longleftrightarrow> a < 2 ^ split_bit g \<or> USIZE - 2 ^ split_bit g \<le> a \<and> a < USIZE"

section \<open>Sign extension\<close>

definition sext :: "nat \<Rightarrow> 64 word \<Rightarrow> 64 word" where
  "sext b w = signed_drop_bit (63 - b) (push_bit (63 - b) w)"

lemma bit_sext: "b \<le> 63 \<Longrightarrow> bit (sext b w) n \<longleftrightarrow> n < 64 \<and> bit w (min n b)"
  by (auto simp: sext_def bit_signed_drop_bit_iff bit_push_bit_iff min_def)

lemma sext_not: "b \<le> 63 \<Longrightarrow> sext b (NOT w) = NOT (sext b w)"
  by (rule bit_word_eqI) (auto simp: bit_sext bit_not_iff_eq min_def)

lemma sext_sext: "b \<le> 63 \<Longrightarrow> sext b (sext b w) = sext b w"
  by (rule bit_word_eqI) (auto simp: bit_sext)

lemma sext_small:
  assumes "b \<le> 63" and "w < 2 ^ b"
  shows "sext b w = w"
proof (rule bit_word_eqI)
  fix n assume "n < LENGTH(64)"
  have "take_bit b w = w" using less_mask_eq [OF assms(2)] by (simp add: take_bit_eq_mask)
  then have "bit w k \<Longrightarrow> k < b" for k by (metis bit_take_bit_iff)
  then show "bit (sext b w) n = bit w n"
    using assms(1) \<open>n < LENGTH(64)\<close> by (cases "n < b") (auto simp: bit_sext min_def)
qed

lemma split_bit_le: "geo_ok g \<Longrightarrow> split_bit g \<le> 56 \<and> split_bit g < 63"
  by (auto simp: geo_ok_def split_bit_def)

lemma virt_from_raw_sext: "virt_from_raw g a = unat (sext (split_bit g) (word_of_nat a))"
  by (simp add: virt_from_raw_def sext_def Let_def)

lemma virt_from_raw_idem: "geo_ok g \<Longrightarrow> virt_from_raw g (virt_from_raw g a) = virt_from_raw g a"
  using split_bit_le [of g] by (simp add: virt_from_raw_sext sext_sext)

lemma virt_from_raw_bound: "virt_from_raw g a < USIZE"
  using unsigned_less [of "sext (split_bit g) (word_of_nat a)"]
  by (simp add: virt_from_raw_sext USIZE_def)

lemma virt_from_raw_canonical:
  assumes g: "geo_ok g" and c: "canonical g a"
  shows "virt_from_raw g a = a"
proof -
  let ?w = "word_of_nat a :: 64 word"
  note b = split_bit_le [OF g]
  have lt: "a < 2 ^ 64"
    using c b power_strict_increasing [of "split_bit g" 64 "2 :: nat"]
    by (auto simp: canonical_def USIZE_def)
  then have u: "unat ?w = a" by (simp add: unat_of_nat)
  have p: "unat (2 ^ split_bit g :: 64 word) = 2 ^ split_bit g"
    using b unat_of_nat [of "2 ^ split_bit g", where 'a = 64]
      power_strict_increasing [of "split_bit g" 64 "2 :: nat"] by simp
  have "sext (split_bit g) ?w = ?w"
  proof (cases "a < 2 ^ split_bit g")
    case True
    then have "?w < 2 ^ split_bit g" using u p by (simp add: word_less_nat_alt)
    then show ?thesis using b by (intro sext_small) auto
  next
    case False
    with c have "USIZE - 2 ^ split_bit g \<le> a" by (simp add: canonical_def)
    moreover have "NOT ?w = word_of_nat (2 ^ 64 - 1 - a)"
      using lt by (simp add: of_nat_diff not_eq_complement)
    then have "unat (NOT ?w) = 2 ^ 64 - 1 - a" by (simp add: unat_of_nat)
    ultimately have "unat (NOT ?w) < 2 ^ split_bit g"
      using lt unfolding USIZE_def by simp
    then have "NOT ?w < 2 ^ split_bit g" using p by (simp add: word_less_nat_alt)
    then have "sext (split_bit g) (NOT ?w) = NOT ?w" using b by (intro sext_small) auto
    then have "NOT (NOT (sext (split_bit g) ?w)) = NOT (NOT ?w)" using b by (simp add: sext_not)
    then show ?thesis by simp
  qed
  with u show ?thesis by (simp add: virt_from_raw_sext)
qed

lemma is_user_canonical:
  assumes "geo_ok g" and "canonical g a"
  shows "is_user g a \<longleftrightarrow> a < 2 ^ split_bit g"
proof -
  let ?h = "2 ^ split_bit g :: nat"
  note b = split_bit_le [OF assms(1)]
  have e: "(2::nat) ^ 64 = ?h * (2 * 2 ^ (63 - split_bit g))"
    using b by (simp flip: power_add power_Suc)
  have "a div ?h mod 2 = 1" if "USIZE - ?h \<le> a" "a < USIZE"
  proof -
    have "a div ?h = 2 * 2 ^ (63 - split_bit g) - 1"
      using that unfolding USIZE_def e by (intro div_nat_eqI) (auto simp: algebra_simps)
    then show ?thesis by (simp add: mod2_eq_if)
  qed
  moreover have "?h \<le> USIZE - ?h"
    using b power_increasing [of "Suc (split_bit g)" 64 "2 :: nat"] by (simp add: USIZE_def)
  ultimately show ?thesis
    using assms(2) by (auto simp: canonical_def is_user_def)
qed

text \<open>Addresses between two canonical addresses of one half lie in that half.\<close>

lemma canonical_between:
  assumes "geo_ok g" and "canonical g a" and "canonical g b" and "is_user g a = is_user g b"
    and "a \<le> x" and "x \<le> b"
  shows "canonical g x" and "is_user g x = is_user g a"
proof -
  note u = is_user_canonical [OF assms(1)]
  have "canonical g x \<and> (x < 2 ^ split_bit g \<longleftrightarrow> a < 2 ^ split_bit g)"
  proof (cases "a < 2 ^ split_bit g")
    case True
    then have "b < 2 ^ split_bit g" using u [OF assms(2)] u [OF assms(3)] assms(4) by simp
    with True assms(6) show ?thesis by (simp add: canonical_def)
  next
    case False
    with assms(2) have "USIZE - 2 ^ split_bit g \<le> a" by (simp add: canonical_def)
    moreover have "b < USIZE"
      using assms(3) False assms(5,6) by (auto simp: canonical_def)
    ultimately show ?thesis using False assms(5,6) by (simp add: canonical_def)
  qed
  then show "canonical g x" and "is_user g x = is_user g a"
    using u [OF assms(2)] u [of x] by simp_all
qed

end
