(* ===== verification/View.thy ===== *)
theory View
  imports Occupancy Address "HOL-Library.Monad_Syntax"
begin

text \<open>
  The logical side of a mapping (\<open>kernel/src/core/memory/nest/view/\<close>): access bits,
  the active ranges of a view with their ceiling and current permission, the cutting
  and narrowing of ranges, the grouping of frames into contiguous runs, and the state
  of a view.

  Flag sets are 64-bit words with the set operations of the flag types written as the
  bitwise ones. An arithmetic step that would panic (\<open>NonZeroUsize::new(..).unwrap()\<close>
  of zero, a difference below zero) is the result \<open>None\<close>; an error is \<open>Inl\<close>.
  A frame is named by its physical address.
\<close>

section \<open>Flag sets\<close>

type_synonym flags = "64 word"
type_synonym access = flags
type_synonym pte_flags = flags

definition flags_contains :: "flags \<Rightarrow> flags \<Rightarrow> bool" where
  "flags_contains a b \<longleftrightarrow> a AND b = b"

definition flags_intersects :: "flags \<Rightarrow> flags \<Rightarrow> bool" where
  "flags_intersects a b \<longleftrightarrow> a AND b \<noteq> 0"

definition A_READ :: access where "A_READ = 1"
definition A_WRITE :: access where "A_WRITE = 2"
definition A_EXECUTE :: access where "A_EXECUTE = 4"
definition A_ALL :: access where "A_ALL = A_READ OR A_WRITE OR A_EXECUTE"

definition PTE_V :: pte_flags where "PTE_V = 1"
definition PTE_R :: pte_flags where "PTE_R = 2"
definition PTE_W :: pte_flags where "PTE_W = 4"
definition PTE_X :: pte_flags where "PTE_X = 8"
definition PTE_U :: pte_flags where "PTE_U = 16"
definition PTE_G :: pte_flags where "PTE_G = 32"
definition PTE_A :: pte_flags where "PTE_A = 64"
definition PTE_D :: pte_flags where "PTE_D = 128"
definition PTE_ALL :: pte_flags where
  "PTE_ALL = PTE_V OR PTE_R OR PTE_W OR PTE_X OR PTE_U OR PTE_G OR PTE_A OR PTE_D"

definition WIRE_MASK :: flags where "WIRE_MASK = 0xE"

lemmas flag_defs = A_READ_def A_WRITE_def A_EXECUTE_def A_ALL_def PTE_V_def PTE_R_def PTE_W_def
  PTE_X_def PTE_U_def PTE_G_def PTE_A_def PTE_D_def PTE_ALL_def WIRE_MASK_def

definition access_from_wire :: "flags \<Rightarrow> access option" where
  "access_from_wire f =
     (if f AND NOT WIRE_MASK \<noteq> 0 then None
      else let b = drop_bit 1 f in if b AND NOT A_ALL = 0 then Some b else None)"

definition access_from_pte :: "pte_flags \<Rightarrow> access" where
  "access_from_pte f = drop_bit 1 f AND A_ALL"

definition access_to_pte :: "access \<Rightarrow> pte_flags" where
  "access_to_pte a = push_bit 1 a AND PTE_ALL"

definition is_leaf_set :: "access \<Rightarrow> bool" where
  "is_leaf_set a \<longleftrightarrow> a \<noteq> 0 \<and> \<not> (flags_contains a A_WRITE \<and> \<not> flags_contains a A_READ)"

section \<open>Active ranges\<close>

record active_range =
  ar_start :: nat
  ar_size :: nat
  ar_ceiling :: access
  ar_current :: access

definition active_new :: "nat \<Rightarrow> nat \<Rightarrow> access \<Rightarrow> access \<Rightarrow> nest_error + active_range" where
  "active_new start sz ceiling current =
     (if sz = 0 then Inl NotAligned
      else if page_offset start \<noteq> 0 \<or> sz mod PAGE_SIZE \<noteq> 0 \<or> \<not> flags_contains ceiling current
              \<or> \<not> is_leaf_set current then Inl NotAligned
      else Inr \<lparr>ar_start = start, ar_size = sz, ar_ceiling = ceiling, ar_current = current\<rparr>)"

definition ar_end :: "active_range \<Rightarrow> nat" where
  "ar_end r = saturating_add (ar_start r) (ar_size r - 1)"

definition ar_contains :: "active_range \<Rightarrow> nat \<Rightarrow> bool" where
  "ar_contains r address \<longleftrightarrow> ar_start r \<le> address \<and> address \<le> ar_end r"

definition ar_overlaps :: "active_range \<Rightarrow> nat \<Rightarrow> nat \<Rightarrow> bool" where
  "ar_overlaps r lo hi \<longleftrightarrow> ar_start r \<le> hi \<and> ar_end r \<ge> lo"

definition ar_intersection :: "active_range \<Rightarrow> nat \<Rightarrow> nat \<Rightarrow> (nat \<times> nat) option" where
  "ar_intersection r lo hi =
     (let l = max (ar_start r) lo; h = min (ar_end r) hi in if l \<le> h then Some (l, h) else None)"

text \<open>The loop of \<open>cover\<close>; the first argument is \<open>at\<close>.\<close>

fun ar_cover :: "nat \<Rightarrow> nat \<Rightarrow> active_range list \<Rightarrow> bool" where
  "ar_cover at hi [] = False"
| "ar_cover at hi (r # rs) =
     (if ar_end r < at then ar_cover at hi rs
      else if ar_start r > at then False
      else if ar_end r \<ge> hi then True
      else ar_cover (ar_end r + 1) hi rs)"

definition current_at :: "active_range list \<Rightarrow> nat \<Rightarrow> access option" where
  "current_at rs address = map_option ar_current (find (\<lambda>r. ar_contains r address) rs)"

text \<open>\<open>NonZeroUsize::new(hi - lo + 1).unwrap()\<close>.\<close>

definition span_size :: "nat \<Rightarrow> nat \<Rightarrow> nat option" where
  "span_size lo hi = do { d \<leftarrow> checked_sub hi lo; checked_add d 1 }"

definition split_range ::
  "geo \<Rightarrow> nat \<Rightarrow> nat \<Rightarrow> access option \<Rightarrow> active_range \<Rightarrow> active_range list option" where
  "split_range g lo hi access r =
     (let rlo = ar_start r; rhi = ar_end r in
      if \<not> ar_overlaps r lo hi then Some [r]
      else do {
        mid \<leftarrow> (case access of
             None \<Rightarrow> Some []
           | Some a \<Rightarrow>
               let part_lo = max rlo lo; part_hi = min rhi hi in
               do { n \<leftarrow> span_size part_lo part_hi;
                    Some [r\<lparr>ar_start := virt_from_raw g part_lo, ar_size := n, ar_current := a\<rparr>] });
        right \<leftarrow> (if rhi > hi
             then do { n \<leftarrow> span_size (hi + 1) rhi;
                       Some [r\<lparr>ar_start := virt_from_raw g (hi + 1), ar_size := n\<rparr>] }
             else Some []);
        Some ((if rlo < lo then [r\<lparr>ar_size := lo - rlo\<rparr>] else []) @ mid @ right) })"

definition ar_split ::
  "geo \<Rightarrow> (nat \<Rightarrow> bool) \<Rightarrow> active_range list \<Rightarrow> nat \<Rightarrow> nat \<Rightarrow> access option
     \<Rightarrow> (nest_error + active_range list) option" where
  "ar_split g mem rs lo hi access =
     (if \<not> mem 0 then Some (Inl OutOfMemory)
      else map_option (Inr \<circ> concat) (those (map (split_range g lo hi access) rs)))"

definition narrow_range ::
  "geo \<Rightarrow> nat \<Rightarrow> nat \<Rightarrow> access \<Rightarrow> active_range \<Rightarrow> (nest_error + active_range list) option" where
  "narrow_range g lo hi ceiling r =
     (let rlo = ar_start r; rhi = ar_end r in
      if \<not> ar_overlaps r lo hi then Some (Inr [r])
      else if \<not> flags_contains (ar_ceiling r) ceiling then Some (Inl WidenDenied)
      else let mid_lo = max rlo lo; mid_hi = min rhi hi; current = ar_current r AND ceiling in
      if \<not> is_leaf_set current then Some (Inl WidenDenied)
      else do {
        n \<leftarrow> span_size mid_lo mid_hi;
        right \<leftarrow> (if rhi > hi
             then do { m \<leftarrow> span_size (hi + 1) rhi;
                       Some [r\<lparr>ar_start := virt_from_raw g (hi + 1), ar_size := m\<rparr>] }
             else Some []);
        Some (Inr ((if rlo < lo then [r\<lparr>ar_size := lo - rlo\<rparr>] else [])
                   @ [r\<lparr>ar_start := virt_from_raw g mid_lo, ar_size := n, ar_ceiling := ceiling,
                        ar_current := current\<rparr>]
                   @ right)) })"

fun narrow_loop ::
  "geo \<Rightarrow> nat \<Rightarrow> nat \<Rightarrow> access \<Rightarrow> active_range list \<Rightarrow> (nest_error + active_range list) option" where
  "narrow_loop g lo hi ceiling [] = Some (Inr [])"
| "narrow_loop g lo hi ceiling (r # rs) = do {
     x \<leftarrow> narrow_range g lo hi ceiling r;
     (case x of
        Inl e \<Rightarrow> Some (Inl e)
      | Inr xs \<Rightarrow> do {
          y \<leftarrow> narrow_loop g lo hi ceiling rs;
          Some (rbind y (\<lambda>ys. Inr (xs @ ys))) }) }"

definition ar_narrow ::
  "geo \<Rightarrow> (nat \<Rightarrow> bool) \<Rightarrow> active_range list \<Rightarrow> nat \<Rightarrow> nat \<Rightarrow> access
     \<Rightarrow> (nest_error + active_range list) option" where
  "ar_narrow g mem rs lo hi ceiling =
     (if \<not> mem 0 then Some (Inl OutOfMemory) else narrow_loop g lo hi ceiling rs)"

section \<open>Frame runs\<close>

record frame_run =
  fr_start :: nat
  fr_physical :: nat
  fr_size :: nat
  fr_current :: access

definition run_address :: "nat \<Rightarrow> nat \<Rightarrow> nat" where
  "run_address base page = base + page * PAGE_SIZE"

definition run_joins ::
  "nat \<Rightarrow> active_range list \<Rightarrow> access \<Rightarrow> nat \<times> nat \<Rightarrow> nat \<times> nat \<Rightarrow> bool" where
  "run_joins base active current previous nxt \<longleftrightarrow>
     fst nxt = fst previous + 1 \<and> snd nxt = snd previous + PAGE_SIZE
     \<and> current_at active (run_address base (fst nxt)) = Some current"

text \<open>How many of the following frames continue the run (the inner loop of \<open>next\<close>).\<close>

fun run_more :: "nat \<Rightarrow> active_range list \<Rightarrow> access \<Rightarrow> nat \<times> nat \<Rightarrow> (nat \<times> nat) list \<Rightarrow> nat" where
  "run_more base active current previous [] = 0"
| "run_more base active current previous (f # fs) =
     (if run_joins base active current previous f then 1 + run_more base active current f fs else 0)"

lemma run_more_le: "run_more base active current p fs \<le> length fs"
  by (induction base active current p fs rule: run_more.induct) auto

text \<open>Draining the iterator.\<close>

function frame_runs ::
  "nat \<Rightarrow> active_range list \<Rightarrow> (nat \<times> nat) list \<Rightarrow> (nest_error + frame_run) list" where
  "frame_runs base active [] = []"
| "frame_runs base active (f # fs) =
     (case current_at active (run_address base (fst f)) of
        None \<Rightarrow> Inl NoRegion # frame_runs base active fs
      | Some current \<Rightarrow>
          let n = run_more base active current f fs in
          Inr \<lparr>fr_start = run_address base (fst f), fr_physical = snd f,
               fr_size = (n + 1) * PAGE_SIZE, fr_current = current\<rparr>
          # frame_runs base active (drop n fs))"
  by pat_completeness auto
termination
  by (relation "measure (\<lambda>(_, _, fs). length fs)") auto

section \<open>Views\<close>

record view =
  v_start :: nat
  v_size :: nat
  v_id :: nat
  v_attrs :: pte_flags
  v_active :: "active_range list"
  v_published :: "(nat \<times> nat) list"

definition view_covers :: "view \<Rightarrow> nat \<Rightarrow> nat \<Rightarrow> bool" where
  "view_covers v lo hi = ar_cover lo hi (v_active v)"

definition range_at :: "view \<Rightarrow> nat \<Rightarrow> active_range option" where
  "range_at v address = find (\<lambda>r. ar_contains r address) (v_active v)"

definition publishes :: "view \<Rightarrow> nat \<Rightarrow> bool" where
  "publishes v page \<longleftrightarrow> (\<exists>p \<in> set (v_published v). fst p = page)"

definition view_publish :: "nat \<Rightarrow> nat \<Rightarrow> view \<Rightarrow> view" where
  "view_publish page frame v =
     v\<lparr>v_published := vec_insert (partition_point (\<lambda>p. fst p < page) (v_published v))
                        (page, frame) (v_published v)\<rparr>"

text \<open>Every failing path of \<open>View::new\<close> gives the span back before it returns the error.\<close>

definition view_new ::
  "(nat \<Rightarrow> bool) \<Rightarrow> nat \<Rightarrow> nat \<Rightarrow> nat \<Rightarrow> pte_flags \<Rightarrow> active_range list \<Rightarrow> nat \<Rightarrow> nest_error + view" where
  "view_new mem start sz gid attrs active source_pages =
     (case checked_add start (sz - 1) of
        None \<Rightarrow> Inl NotAligned
      | Some end \<Rightarrow>
          if sz = 0 \<or> sz mod PAGE_SIZE \<noteq> 0 \<or> active = [] \<or> checked_bytes source_pages \<noteq> Some sz
          then Inl NotAligned
          else if \<exists>r \<in> set active. ar_start r < start \<or> ar_end r > end then Inl NoRegion
          else if \<not> successively (\<lambda>a b. ar_end a < ar_start b) active then Inl AlreadyMapped
          else if \<not> mem 0 then Inl OutOfMemory
          else Inr \<lparr>v_start = start, v_size = sz, v_id = gid, v_attrs = attrs,
                    v_active = active, v_published = []\<rparr>)"

definition view_overlaps :: "view \<Rightarrow> nat \<Rightarrow> nat \<Rightarrow> bool" where
  "view_overlaps v lo hi \<longleftrightarrow> (\<exists>r \<in> set (v_active v). ar_overlaps r lo hi)"

definition leaf_flags :: "view \<Rightarrow> access \<Rightarrow> pte_flags" where
  "leaf_flags v current = PTE_V OR access_to_pte current OR v_attrs v"

definition attrs_are_architectural :: "pte_flags \<Rightarrow> bool" where
  "attrs_are_architectural attrs \<longleftrightarrow> \<not> flags_intersects attrs (PTE_V OR PTE_R OR PTE_W OR PTE_X)"

definition view_is_global :: "view \<Rightarrow> bool" where
  "view_is_global v \<longleftrightarrow> flags_contains (v_attrs v) PTE_G"

definition view_page_index :: "view \<Rightarrow> nat \<Rightarrow> nat" where
  "view_page_index v address = (address - v_start v) div PAGE_SIZE"

text \<open>A selection on a view: all of it, or a page range fixed at its creation.\<close>

datatype view_range = Whole view | Pages view nat nat

definition view_pages :: "view \<Rightarrow> nat \<Rightarrow> nat \<Rightarrow> nest_error + view_range" where
  "view_pages v offset count =
     (case checked_add offset count of
        None \<Rightarrow> Inl NotAligned
      | Some end \<Rightarrow>
          (case checked_mul end PAGE_SIZE of
             None \<Rightarrow> Inl NoRegion
           | Some bytes \<Rightarrow> if bytes > v_size v then Inl NoRegion else Inr (Pages v offset count)))"

definition view_window :: "view_range \<Rightarrow> nat \<times> nat" where
  "view_window r =
     (case r of
        Whole v \<Rightarrow> (v_start v, v_start v + (v_size v - 1))
      | Pages v offset count \<Rightarrow>
          let start = v_start v + offset * PAGE_SIZE in (start, start + (count * PAGE_SIZE - 1)))"

section \<open>Well-formed ranges\<close>

definition range_ok :: "geo \<Rightarrow> active_range \<Rightarrow> bool" where
  "range_ok g r \<longleftrightarrow> 0 < ar_size r \<and> ar_size r < USIZE \<and> ar_start r + (ar_size r - 1) < USIZE
     \<and> canonical g (ar_start r) \<and> canonical g (ar_end r)
     \<and> is_user g (ar_start r) = is_user g (ar_end r)
     \<and> ar_start r mod PAGE_SIZE = 0 \<and> ar_size r mod PAGE_SIZE = 0
     \<and> flags_contains (ar_ceiling r) (ar_current r) \<and> is_leaf_set (ar_current r)"

definition ranges_ok :: "geo \<Rightarrow> active_range list \<Rightarrow> bool" where
  "ranges_ok g rs \<longleftrightarrow> sorted_wrt (\<lambda>a b. ar_end a < ar_start b) rs \<and> (\<forall>r \<in> set rs. range_ok g r)"

text \<open>The permission pair (ceiling, current) of an address: what the ranges mean.\<close>

definition perm_at :: "active_range list \<Rightarrow> nat \<Rightarrow> (access \<times> access) option" where
  "perm_at rs x = map_option (\<lambda>r. (ar_ceiling r, ar_current r)) (find (\<lambda>r. ar_contains r x) rs)"

lemma ar_end_ok: "range_ok g r \<Longrightarrow> ar_end r = ar_start r + (ar_size r - 1)"
proof -
  assume "range_ok g r"
  then have "ar_start r + (ar_size r - 1) < USIZE" unfolding range_ok_def by blast
  then show ?thesis by (simp add: ar_end_def saturating_add_def)
qed

lemma range_ok_le: "range_ok g r \<Longrightarrow> ar_start r \<le> ar_end r \<and> ar_end r < USIZE"
proof -
  assume r: "range_ok g r"
  then have "ar_start r + (ar_size r - 1) < USIZE" unfolding range_ok_def by blast
  then show ?thesis by (simp add: ar_end_ok [OF r])
qed

lemma ranges_ok_simps [simp]:
  "ranges_ok g []"
  "ranges_ok g (r # rs) \<longleftrightarrow> range_ok g r \<and> (\<forall>q \<in> set rs. ar_end r < ar_start q) \<and> ranges_ok g rs"
  "ranges_ok g (xs @ ys) \<longleftrightarrow> ranges_ok g xs \<and> ranges_ok g ys
     \<and> (\<forall>x \<in> set xs. \<forall>y \<in> set ys. ar_end x < ar_start y)"
  by (auto simp: ranges_ok_def sorted_wrt_append)

lemma perm_at_simps [simp]:
  "perm_at [] x = None"
  "perm_at (r # rs) x = (if ar_contains r x then Some (ar_ceiling r, ar_current r) else perm_at rs x)"
  "perm_at (xs @ ys) x = (case perm_at xs x of None \<Rightarrow> perm_at ys x | Some p \<Rightarrow> Some p)"
proof -
  show "perm_at (xs @ ys) x = (case perm_at xs x of None \<Rightarrow> perm_at ys x | Some p \<Rightarrow> Some p)"
    by (induction xs) (simp_all add: perm_at_def)
qed (simp_all add: perm_at_def)

lemma current_at_perm: "current_at rs x = map_option snd (perm_at rs x)"
  by (simp add: current_at_def perm_at_def option.map_comp comp_def)

lemma perm_at_outside:
  "(\<And>r. r \<in> set rs \<Longrightarrow> \<not> ar_contains r x) \<Longrightarrow> perm_at rs x = None"
  by (induction rs) auto

lemma perm_at_SomeE:
  assumes "perm_at rs x = Some p"
  obtains r where "r \<in> set rs" and "ar_contains r x" and "p = (ar_ceiling r, ar_current r)"
proof -
  from assms obtain r where f: "find (\<lambda>r. ar_contains r x) rs = Some r"
    and p: "p = (ar_ceiling r, ar_current r)" by (auto simp: perm_at_def)
  from f have "r \<in> set rs" "ar_contains r x" by (auto simp: find_Some_iff)
  with p that show thesis by blast
qed

lemma perm_at_mem:
  assumes "ranges_ok g rs" and "r \<in> set rs" and "ar_contains r x"
  shows "perm_at rs x = Some (ar_ceiling r, ar_current r)"
  using assms
proof (induction rs)
  case (Cons a rs)
  show ?case
  proof (cases "r = a")
    case False
    with Cons.prems have "ar_end a < ar_start r" "r \<in> set rs" by auto
    with Cons show ?thesis by (auto simp: ar_contains_def)
  qed (use Cons.prems in simp)
qed simp

text \<open>
  Replacing every range by pieces inside it: when the pieces of each range realise
  the transformation \<open>h\<close> of its permissions, so does the whole list.
\<close>

definition pieces_ok ::
  "geo \<Rightarrow> (nat \<Rightarrow> access \<times> access \<Rightarrow> (access \<times> access) option) \<Rightarrow> active_range
     \<Rightarrow> active_range list \<Rightarrow> bool" where
  "pieces_ok g h r ps \<longleftrightarrow> ranges_ok g ps
     \<and> (\<forall>p \<in> set ps. ar_start r \<le> ar_start p \<and> ar_end p \<le> ar_end r)
     \<and> (\<forall>x. perm_at ps x = (if ar_contains r x then h x (ar_ceiling r, ar_current r) else None))"

lemma concat_pieces:
  assumes "ranges_ok g rs" and "list_all2 (pieces_ok g h) rs pss"
  shows "ranges_ok g (concat pss) \<and> perm_at (concat pss) x = Option.bind (perm_at rs x) (h x)
    \<and> (\<forall>p \<in> set (concat pss). \<exists>r \<in> set rs. ar_start r \<le> ar_start p \<and> ar_end p \<le> ar_end r)"
  using assms(2,1)
proof (induction rule: list_all2_induct)
  case (Cons r rs ps pss)
  have ok: "ranges_ok g ps" "\<forall>p \<in> set ps. ar_start r \<le> ar_start p \<and> ar_end p \<le> ar_end r"
    "perm_at ps x = (if ar_contains r x then h x (ar_ceiling r, ar_current r) else None)"
    using Cons.hyps(1) by (auto simp: pieces_ok_def)
  have IH: "ranges_ok g (concat pss)" "perm_at (concat pss) x = Option.bind (perm_at rs x) (h x)"
    "\<forall>p \<in> set (concat pss). \<exists>r \<in> set rs. ar_start r \<le> ar_start p \<and> ar_end p \<le> ar_end r"
    using Cons by auto
  have "ar_end p < ar_start q" if "p \<in> set ps" "q \<in> set (concat pss)" for p q
    using ok(2) IH(3) that Cons.prems by fastforce
  moreover have "perm_at rs x = None" if "ar_contains r x"
    using that Cons.prems
    by (intro perm_at_outside) (fastforce simp: ar_contains_def)
  ultimately show ?case using ok IH by (fastforce split: option.splits)
qed simp

text \<open>Cutting a page-aligned part out of a range.\<close>

lemma cut_ok:
  assumes r: "range_ok g r" and g: "geo_ok g"
    and ab: "ar_start r \<le> a" "a \<le> b" "b \<le> ar_end r"
    and al: "a mod PAGE_SIZE = 0" "(b + 1) mod PAGE_SIZE = 0"
    and p: "flags_contains c u" "is_leaf_set u"
  defines "q \<equiv> r\<lparr>ar_start := virt_from_raw g a, ar_size := b - a + 1, ar_ceiling := c, ar_current := u\<rparr>"
  shows "span_size a b = Some (b - a + 1)" and "range_ok g q" and "ar_start q = a" and "ar_end q = b"
proof -
  have e: "ar_end r = ar_start r + (ar_size r - 1)" by (rule ar_end_ok [OF r])
  have sz: "b - a + 1 < USIZE" using ab r e by (auto simp: range_ok_def)
  then show "span_size a b = Some (b - a + 1)"
    using ab by (simp add: span_size_def checked_sub_def checked_add_def)
  have r': "canonical g (ar_start r)" "canonical g (ar_end r)" "is_user g (ar_start r) = is_user g (ar_end r)"
    using r by (simp_all add: range_ok_def)
  note can = canonical_between(1) [OF g r'] and half = canonical_between(2) [OF g r']
  have a: "virt_from_raw g a = a" using can ab by (intro virt_from_raw_canonical [OF g]) auto
  have "(b - a + 1) mod PAGE_SIZE = 0"
    using dvd_diff_nat [of PAGE_SIZE "b + 1" a] al ab by (simp add: mod_eq_0_iff_dvd Suc_diff_le)
  moreover have "b < USIZE" using ab range_ok_le [OF r] by simp
  moreover show e': "ar_end q = b"
    using ab \<open>b < USIZE\<close> by (simp add: ar_end_def q_def a saturating_add_def)
  moreover show "ar_start q = a" by (simp add: q_def a)
  ultimately show "range_ok g q"
    using sz p al ab can [of a] can [of b] half [of a] half [of b]
    by (simp add: range_ok_def) (simp add: q_def)
qed

section \<open>Cutting and narrowing\<close>

text \<open>What cutting and narrowing mean for the permissions of one address.\<close>

definition split_perm ::
  "nat \<Rightarrow> nat \<Rightarrow> access option \<Rightarrow> nat \<Rightarrow> access \<times> access \<Rightarrow> (access \<times> access) option" where
  "split_perm lo hi access x p =
     (if lo \<le> x \<and> x \<le> hi then map_option (\<lambda>a. (fst p, a)) access else Some p)"

definition narrow_perm ::
  "nat \<Rightarrow> nat \<Rightarrow> access \<Rightarrow> nat \<Rightarrow> access \<times> access \<Rightarrow> (access \<times> access) option" where
  "narrow_perm lo hi ceiling x p =
     (if lo \<le> x \<and> x \<le> hi then Some (ceiling, snd p AND ceiling) else Some p)"

definition narrow_allowed :: "nat \<Rightarrow> nat \<Rightarrow> access \<Rightarrow> active_range \<Rightarrow> bool" where
  "narrow_allowed lo hi ceiling r \<longleftrightarrow> (ar_overlaps r lo hi \<longrightarrow>
     flags_contains (ar_ceiling r) ceiling \<and> is_leaf_set (ar_current r AND ceiling))"

definition page_span :: "nat \<Rightarrow> nat \<Rightarrow> bool" where
  "page_span lo hi \<longleftrightarrow> lo \<le> hi \<and> lo mod PAGE_SIZE = 0 \<and> (hi + 1) mod PAGE_SIZE = 0"

lemma range_ok_aligned:
  assumes "range_ok g r"
  shows "ar_start r mod PAGE_SIZE = 0" and "(ar_end r + 1) mod PAGE_SIZE = 0"
proof -
  show s: "ar_start r mod PAGE_SIZE = 0" using assms unfolding range_ok_def by blast
  have "ar_size r mod PAGE_SIZE = 0" "0 < ar_size r" using assms unfolding range_ok_def by blast+
  moreover from this have "ar_end r + 1 = ar_start r + ar_size r" by (simp add: ar_end_ok [OF assms])
  ultimately show "(ar_end r + 1) mod PAGE_SIZE = 0" using s by (simp add: mod_eq_0_iff_dvd)
qed

lemma max_min_aligned:
  "a mod n = 0 \<Longrightarrow> b mod n = 0 \<Longrightarrow> max a b mod n = (0::nat)"
  "(a + 1) mod n = 0 \<Longrightarrow> (b + 1) mod n = 0 \<Longrightarrow> (min a b + 1) mod n = 0"
  by (simp_all add: max_def min_def)

abbreviation mid_range :: "geo \<Rightarrow> nat \<Rightarrow> access \<Rightarrow> access \<Rightarrow> nat \<Rightarrow> active_range \<Rightarrow> active_range" where
  "mid_range g lo c u n r \<equiv>
     r\<lparr>ar_start := virt_from_raw g (max (ar_start r) lo), ar_size := n, ar_ceiling := c, ar_current := u\<rparr>"

text \<open>
  The three parts of a range cut at a page span, with any permission on the middle
  part: each is a well-formed range with the ends it should have.
\<close>

lemma cut_parts:
  assumes r: "range_ok g r" and g: "geo_ok g" and sp: "page_span lo hi" and o: "ar_overlaps r lo hi"
  shows "ar_start r < lo \<Longrightarrow> range_ok g (r\<lparr>ar_size := lo - ar_start r\<rparr>)
           \<and> ar_end (r\<lparr>ar_size := lo - ar_start r\<rparr>) = lo - 1"
    and "flags_contains c u \<Longrightarrow> is_leaf_set u \<Longrightarrow>
           \<exists>n. span_size (max (ar_start r) lo) (min (ar_end r) hi) = Some n
           \<and> range_ok g (mid_range g lo c u n r)
           \<and> virt_from_raw g (max (ar_start r) lo) = max (ar_start r) lo
           \<and> ar_end (mid_range g lo c u n r) = min (ar_end r) hi"
    and "hi < ar_end r \<Longrightarrow>
           \<exists>n. span_size (hi + 1) (ar_end r) = Some n
           \<and> range_ok g (r\<lparr>ar_start := virt_from_raw g (hi + 1), ar_size := n\<rparr>)
           \<and> virt_from_raw g (hi + 1) = hi + 1
           \<and> ar_end (r\<lparr>ar_start := virt_from_raw g (hi + 1), ar_size := n\<rparr>) = ar_end r"
proof -
  note al = range_ok_aligned [OF r]
  have p: "flags_contains (ar_ceiling r) (ar_current r)" "is_leaf_set (ar_current r)"
    using r unfolding range_ok_def by blast+
  have sp': "lo \<le> hi" "lo mod PAGE_SIZE = 0" "(hi + 1) mod PAGE_SIZE = 0"
    using sp by (simp_all add: page_span_def)
  have o': "ar_start r \<le> hi" "lo \<le> ar_end r" using o by (simp_all add: ar_overlaps_def)
  have le: "ar_start r \<le> ar_end r" using range_ok_le [OF r] by simp
  show "range_ok g (r\<lparr>ar_size := lo - ar_start r\<rparr>)
           \<and> ar_end (r\<lparr>ar_size := lo - ar_start r\<rparr>) = lo - 1" if "ar_start r < lo"
  proof -
    have "canonical g (ar_start r)" using r unfolding range_ok_def by blast
    then have "virt_from_raw g (ar_start r) = ar_start r" by (rule virt_from_raw_canonical [OF g])
    moreover have "lo - 1 - ar_start r + 1 = lo - ar_start r" using that by simp
    ultimately show ?thesis
      using cut_ok(2,4) [OF r g _ _ _ al(1), of "lo - 1", OF _ _ _ _ p] that o' sp' by simp
  qed
  show "\<exists>n. span_size (max (ar_start r) lo) (min (ar_end r) hi) = Some n
           \<and> range_ok g (mid_range g lo c u n r)
           \<and> virt_from_raw g (max (ar_start r) lo) = max (ar_start r) lo
           \<and> ar_end (mid_range g lo c u n r) = min (ar_end r) hi"
    if "flags_contains c u" "is_leaf_set u"
    using cut_ok [OF r g _ _ _ max_min_aligned(1) [OF al(1) sp'(2)]
        max_min_aligned(2) [OF al(2) sp'(3)] that] o' sp'(1) le by simp
  show "\<exists>n. span_size (hi + 1) (ar_end r) = Some n
           \<and> range_ok g (r\<lparr>ar_start := virt_from_raw g (hi + 1), ar_size := n\<rparr>)
           \<and> virt_from_raw g (hi + 1) = hi + 1
           \<and> ar_end (r\<lparr>ar_start := virt_from_raw g (hi + 1), ar_size := n\<rparr>) = ar_end r"
    if "hi < ar_end r"
    using cut_ok [OF r g _ _ _ sp'(3) al(2) p] o' that by simp
qed

text \<open>The part left of the span, and the computation of the part right of it.\<close>

definition left_part :: "nat \<Rightarrow> active_range \<Rightarrow> active_range list" where
  "left_part lo r = (if ar_start r < lo then [r\<lparr>ar_size := lo - ar_start r\<rparr>] else [])"

definition right_part :: "geo \<Rightarrow> nat \<Rightarrow> active_range \<Rightarrow> active_range list option" where
  "right_part g hi r =
     (if ar_end r > hi
      then do { n \<leftarrow> span_size (hi + 1) (ar_end r);
                Some [r\<lparr>ar_start := virt_from_raw g (hi + 1), ar_size := n\<rparr>] }
      else Some [])"

lemma right_part_Some:
  assumes "range_ok g r" and "geo_ok g" and "page_span lo hi" and "ar_overlaps r lo hi"
  obtains R where "right_part g hi r = Some R" and "ranges_ok g R"
    and "\<forall>p \<in> set R. ar_start p = hi + 1 \<and> ar_end p = ar_end r"
    and "\<And>x. perm_at R x = (if hi < x \<and> x \<le> ar_end r then Some (ar_ceiling r, ar_current r) else None)"
proof (cases "ar_end r > hi")
  case True
  with cut_parts(3) [OF assms] obtain n where n: "span_size (hi + 1) (ar_end r) = Some n"
    "range_ok g (r\<lparr>ar_start := virt_from_raw g (hi + 1), ar_size := n\<rparr>)"
    "virt_from_raw g (hi + 1) = hi + 1"
    "ar_end (r\<lparr>ar_start := virt_from_raw g (hi + 1), ar_size := n\<rparr>) = ar_end r" by blast
  then show thesis
    using True by (intro that [of "[r\<lparr>ar_start := virt_from_raw g (hi + 1), ar_size := n\<rparr>]"])
      (auto simp: right_part_def ar_contains_def)
qed (auto simp: right_part_def intro: that)

text \<open>Left, middle and right part together, with \<open>m\<close> the permission of the middle.\<close>

lemma three_pieces:
  assumes ok: "range_ok g r" "geo_ok g" "page_span lo hi" "ar_overlaps r lo hi"
    and M: "ranges_ok g M"
    "\<forall>p \<in> set M. ar_start p = max (ar_start r) lo \<and> ar_end p = min (ar_end r) hi"
    "\<And>x. perm_at M x = (if max (ar_start r) lo \<le> x \<and> x \<le> min (ar_end r) hi then m else None)"
    and R: "right_part g hi r = Some R"
    and h: "\<And>x. h x (ar_ceiling r, ar_current r)
              = (if lo \<le> x \<and> x \<le> hi then m else Some (ar_ceiling r, ar_current r))"
  shows "pieces_ok g h r (left_part lo r @ M @ R)"
proof -
  have sp: "lo \<le> hi" and o: "ar_start r \<le> hi" "lo \<le> ar_end r"
    using ok(3,4) by (simp_all add: page_span_def ar_overlaps_def)
  have L: "ranges_ok g (left_part lo r)"
    "\<forall>p \<in> set (left_part lo r). ar_start p = ar_start r \<and> ar_end p = lo - 1 \<and> ar_start r < lo"
    "perm_at (left_part lo r) x
       = (if ar_start r \<le> x \<and> x < lo then Some (ar_ceiling r, ar_current r) else None)" for x
    using cut_parts(1) [OF ok] by (auto simp: left_part_def ar_contains_def)
  from right_part_Some [OF ok] R have R': "ranges_ok g R"
    "\<forall>p \<in> set R. ar_start p = hi + 1 \<and> ar_end p = ar_end r"
    "\<And>x. perm_at R x = (if hi < x \<and> x \<le> ar_end r then Some (ar_ceiling r, ar_current r) else None)"
    by (metis option.inject)+
  show ?thesis
    unfolding pieces_ok_def
  proof (intro conjI allI)
    show "ranges_ok g (left_part lo r @ M @ R)" using L(1,2) M(1,2) R'(1,2) sp by fastforce
    show "\<forall>p \<in> set (left_part lo r @ M @ R). ar_start r \<le> ar_start p \<and> ar_end p \<le> ar_end r"
      using L(2) M(2) R'(2) o by auto
    show "perm_at (left_part lo r @ M @ R) x
        = (if ar_contains r x then h x (ar_ceiling r, ar_current r) else None)" for x
      using o sp by (auto simp: L(3) M(3) R'(3) h ar_contains_def split: option.splits)
  qed
qed

lemma middle_part:
  assumes ok: "range_ok g r" "geo_ok g" "page_span lo hi" "ar_overlaps r lo hi"
    and p: "flags_contains c u" "is_leaf_set u"
  obtains n where "span_size (max (ar_start r) lo) (min (ar_end r) hi) = Some n"
    and "ranges_ok g [mid_range g lo c u n r]"
    and "\<forall>p \<in> set [mid_range g lo c u n r].
           ar_start p = max (ar_start r) lo \<and> ar_end p = min (ar_end r) hi"
    and "\<And>x. perm_at [mid_range g lo c u n r] x
           = (if max (ar_start r) lo \<le> x \<and> x \<le> min (ar_end r) hi then Some (c, u) else None)"
proof -
  from cut_parts(2) [OF ok p] obtain n where
    n: "span_size (max (ar_start r) lo) (min (ar_end r) hi) = Some n"
      "range_ok g (mid_range g lo c u n r)"
      "virt_from_raw g (max (ar_start r) lo) = max (ar_start r) lo"
      "ar_end (mid_range g lo c u n r) = min (ar_end r) hi" by blast
  define q where "q = mid_range g lo c u n r"
  have q: "range_ok g q" "ar_start q = max (ar_start r) lo" "ar_end q = min (ar_end r) hi"
    "ar_ceiling q = c" "ar_current q = u"
    using n(2,4) by (simp_all add: q_def [symmetric]) (simp_all add: q_def n(3))
  show thesis by (rule that [OF n(1)]) (simp_all add: q ar_contains_def flip: q_def)
qed

lemma untouched_pieces:
  assumes "range_ok g r" and "\<not> ar_overlaps r lo hi"
    and "\<And>x. \<not> (lo \<le> x \<and> x \<le> hi) \<Longrightarrow> h x (ar_ceiling r, ar_current r) = Some (ar_ceiling r, ar_current r)"
  shows "pieces_ok g h r [r]"
  using assms by (fastforce simp: pieces_ok_def ar_contains_def ar_overlaps_def)

lemma split_range_pieces:
  assumes ok: "range_ok g r" "geo_ok g" "page_span lo hi"
    and a: "\<And>a. access = Some a \<Longrightarrow> ar_overlaps r lo hi \<Longrightarrow> flags_contains (ar_ceiling r) a \<and> is_leaf_set a"
  shows "\<exists>ps. split_range g lo hi access r = Some ps \<and> pieces_ok g (split_perm lo hi access) r ps"
proof (cases "ar_overlaps r lo hi")
  case False
  then have "pieces_ok g (split_perm lo hi access) r [r]"
    by (intro untouched_pieces [OF ok(1), of lo hi]) (auto simp: split_perm_def)
  with False show ?thesis by (simp add: split_range_def)
next
  case True
  obtain R where R: "right_part g hi r = Some R" by (rule right_part_Some [OF ok True])
  show ?thesis
  proof (cases access)
    case None
    have "pieces_ok g (split_perm lo hi access) r (left_part lo r @ [] @ R)"
      by (rule three_pieces [OF ok True _ _ _ R, of _ None]) (auto simp: split_perm_def None)
    moreover have "split_range g lo hi access r = Some (left_part lo r @ [] @ R)"
      using R True unfolding split_range_def left_part_def right_part_def Let_def None by simp
    ultimately show ?thesis by blast
  next
    case (Some u)
    from a [OF Some True] have p: "flags_contains (ar_ceiling r) u" "is_leaf_set u" by auto
    from middle_part [OF ok True p] obtain n where
      n: "span_size (max (ar_start r) lo) (min (ar_end r) hi) = Some n"
      and M: "ranges_ok g [mid_range g lo (ar_ceiling r) u n r]"
        "\<forall>p \<in> set [mid_range g lo (ar_ceiling r) u n r].
           ar_start p = max (ar_start r) lo \<and> ar_end p = min (ar_end r) hi"
        "\<And>x. perm_at [mid_range g lo (ar_ceiling r) u n r] x
           = (if max (ar_start r) lo \<le> x \<and> x \<le> min (ar_end r) hi
              then Some (ar_ceiling r, u) else None)" by blast
    have "pieces_ok g (split_perm lo hi access) r (left_part lo r
          @ [mid_range g lo (ar_ceiling r) u n r] @ R)"
      by (rule three_pieces [OF ok True M R]) (simp add: split_perm_def Some)
    moreover have "split_range g lo hi access r = Some (left_part lo r
          @ [mid_range g lo (ar_ceiling r) u n r] @ R)"
      using R True n unfolding split_range_def left_part_def right_part_def Let_def Some by simp
    ultimately show ?thesis by blast
  qed
qed

lemma those_map_Some:
  "(\<And>x. x \<in> set xs \<Longrightarrow> \<exists>y. f x = Some y \<and> P x y) \<Longrightarrow> \<exists>ys. those (map f xs) = Some ys \<and> list_all2 P xs ys"
proof (induction xs)
  case (Cons x xs)
  from Cons.prems obtain y where "f x = Some y" "P x y" by auto
  moreover from Cons obtain ys where "those (map f xs) = Some ys" "list_all2 P xs ys" by auto
  ultimately show ?case by (auto intro!: exI [of _ "y # ys"])
qed simp

text \<open>
  C10: cutting a page span out of the ranges of a view, or giving it a new current
  permission, never panics on well-formed ranges; afterwards the ranges are again
  well-formed and every address has exactly the permission the cut means: inside the
  span none (or the new one under the old ceiling), outside the span the old one.
\<close>

theorem ar_split_correct:
  assumes "ranges_ok g rs" and "geo_ok g" and "page_span lo hi" and "mem 0"
    and "\<And>r a. r \<in> set rs \<Longrightarrow> access = Some a \<Longrightarrow> ar_overlaps r lo hi \<Longrightarrow>
           flags_contains (ar_ceiling r) a \<and> is_leaf_set a"
  shows "\<exists>rs'. ar_split g mem rs lo hi access = Some (Inr rs') \<and> ranges_ok g rs'
    \<and> (\<forall>x. perm_at rs' x = Option.bind (perm_at rs x) (split_perm lo hi access x))"
proof -
  have "\<exists>ps. split_range g lo hi access r = Some ps \<and> pieces_ok g (split_perm lo hi access) r ps"
    if "r \<in> set rs" for r
    using that assms(1) by (intro split_range_pieces assms) (auto simp: ranges_ok_def)
  from those_map_Some [of rs "split_range g lo hi access", OF this] obtain pss
    where pss: "those (map (split_range g lo hi access) rs) = Some pss"
      "list_all2 (pieces_ok g (split_perm lo hi access)) rs pss" by blast
  from pss(1) assms(4) have "ar_split g mem rs lo hi access = Some (Inr (concat pss))"
    by (simp add: ar_split_def)
  with concat_pieces [OF assms(1) pss(2)] show ?thesis by blast
qed

lemma narrow_range_pieces:
  assumes ok: "range_ok g r" "geo_ok g" "page_span lo hi"
  shows "(\<exists>ps. narrow_range g lo hi ceiling r = Some (Inr ps)
            \<and> pieces_ok g (narrow_perm lo hi ceiling) r ps
            \<and> (ar_overlaps r lo hi \<longrightarrow> flags_contains (ar_ceiling r) ceiling
                 \<and> is_leaf_set (ar_current r AND ceiling)))
       \<or> narrow_range g lo hi ceiling r = Some (Inl WidenDenied) \<and> ar_overlaps r lo hi
           \<and> \<not> (flags_contains (ar_ceiling r) ceiling \<and> is_leaf_set (ar_current r AND ceiling))"
proof (cases "ar_overlaps r lo hi")
  case False
  then have "pieces_ok g (narrow_perm lo hi ceiling) r [r]"
    by (intro untouched_pieces [OF ok(1), of lo hi]) (auto simp: narrow_perm_def)
  with False show ?thesis by (simp add: narrow_range_def)
next
  case True
  let ?u = "ar_current r AND ceiling"
  show ?thesis
  proof (cases "flags_contains (ar_ceiling r) ceiling \<and> is_leaf_set ?u")
    case False
    with True show ?thesis by (auto simp: narrow_range_def Let_def)
  next
    case allow: True
    obtain R where R: "right_part g hi r = Some R" by (rule right_part_Some [OF ok True])
    have p: "flags_contains ceiling ?u" by (simp add: flags_contains_def ac_simps)
    from middle_part [OF ok True p] allow obtain n where
      n: "span_size (max (ar_start r) lo) (min (ar_end r) hi) = Some n"
      and M: "ranges_ok g [mid_range g lo ceiling ?u n r]"
        "\<forall>p \<in> set [mid_range g lo ceiling ?u n r].
           ar_start p = max (ar_start r) lo \<and> ar_end p = min (ar_end r) hi"
        "\<And>x. perm_at [mid_range g lo ceiling ?u n r] x
           = (if max (ar_start r) lo \<le> x \<and> x \<le> min (ar_end r) hi
              then Some (ceiling, ?u) else None)" by blast
    have "pieces_ok g (narrow_perm lo hi ceiling) r (left_part lo r @ [mid_range g lo ceiling ?u n r] @ R)"
      by (rule three_pieces [OF ok True M R]) (simp add: narrow_perm_def)
    moreover have "narrow_range g lo hi ceiling r
        = Some (Inr (left_part lo r @ [mid_range g lo ceiling ?u n r] @ R))"
      using R True n allow unfolding narrow_range_def left_part_def right_part_def Let_def by simp
    ultimately show ?thesis using allow by blast
  qed
qed

lemma narrow_loop_pieces:
  assumes "\<forall>r \<in> set rs. range_ok g r" and "geo_ok g" and "page_span lo hi"
  shows "(\<exists>pss. narrow_loop g lo hi ceiling rs = Some (Inr (concat pss))
            \<and> list_all2 (pieces_ok g (narrow_perm lo hi ceiling)) rs pss \<and> (\<forall>r \<in> set rs. narrow_allowed lo hi ceiling r))
       \<or> narrow_loop g lo hi ceiling rs = Some (Inl WidenDenied) \<and> (\<exists>r \<in> set rs. \<not> narrow_allowed lo hi ceiling r)"
  using assms(1)
proof (induction rs)
  case (Cons r rs)
  have "range_ok g r" using Cons.prems by simp
  from narrow_range_pieces [OF this assms(2,3), of ceiling] show ?case
  proof (elim disjE exE conjE)
    fix ps assume ps: "narrow_range g lo hi ceiling r = Some (Inr ps)"
      "pieces_ok g (narrow_perm lo hi ceiling) r ps"
      and al: "ar_overlaps r lo hi \<longrightarrow> flags_contains (ar_ceiling r) ceiling
                 \<and> is_leaf_set (ar_current r AND ceiling)"
    have IH: "(\<exists>pss. narrow_loop g lo hi ceiling rs = Some (Inr (concat pss))
            \<and> list_all2 (pieces_ok g (narrow_perm lo hi ceiling)) rs pss \<and> (\<forall>r \<in> set rs. narrow_allowed lo hi ceiling r))
       \<or> narrow_loop g lo hi ceiling rs = Some (Inl WidenDenied) \<and> (\<exists>r \<in> set rs. \<not> narrow_allowed lo hi ceiling r)"
      using Cons by simp
    then show ?thesis
    proof (elim disjE exE conjE)
      fix pss assume "narrow_loop g lo hi ceiling rs = Some (Inr (concat pss))"
        "list_all2 (pieces_ok g (narrow_perm lo hi ceiling)) rs pss" "\<forall>r \<in> set rs. narrow_allowed lo hi ceiling r"
      with ps al show ?thesis
        by (intro disjI1 exI [of _ "ps # pss"]) (simp add: narrow_allowed_def)
    qed (use ps in auto)
  qed (auto simp: narrow_allowed_def)
qed simp

text \<open>
  C11: narrowing a page span succeeds exactly when the new ceiling lies within the old
  ceiling of every range it touches and leaves each a legal leaf permission; otherwise
  it reports \<open>WidenDenied\<close>. On success every address of the span has the new ceiling
  and its current permission restricted to it, all others keep theirs, and the ranges
  stay well-formed.
\<close>

theorem ar_narrow_correct:
  assumes "ranges_ok g rs" and "geo_ok g" and "page_span lo hi" and "mem 0"
  shows "if \<forall>r \<in> set rs. narrow_allowed lo hi ceiling r
         then \<exists>rs'. ar_narrow g mem rs lo hi ceiling = Some (Inr rs') \<and> ranges_ok g rs'
           \<and> (\<forall>x. perm_at rs' x = Option.bind (perm_at rs x) (narrow_perm lo hi ceiling x))
         else ar_narrow g mem rs lo hi ceiling = Some (Inl WidenDenied)"
proof -
  have "\<forall>r \<in> set rs. range_ok g r" using assms(1) by (simp add: ranges_ok_def)
  from narrow_loop_pieces [OF this assms(2,3), of ceiling] assms(4) show ?thesis
    unfolding ar_narrow_def using concat_pieces [OF assms(1)] by fastforce
qed

text \<open>
  \<open>cover\<close> says yes exactly when every address of the span lies in some range.
\<close>

lemma ar_cover_iff:
  assumes "ranges_ok g rs" and "at \<le> hi"
  shows "ar_cover at hi rs \<longleftrightarrow> (\<forall>x. at \<le> x \<and> x \<le> hi \<longrightarrow> perm_at rs x \<noteq> None)"
  using assms
proof (induction at hi rs rule: ar_cover.induct)
  case (1 at hi)
  then show ?case by auto
next
  case (2 at hi r rs)
  have later: "ar_end r < x" if "perm_at rs x = Some p" for x p
    using that "2.prems"(1) by (fastforce simp: ar_contains_def elim!: perm_at_SomeE)
  consider (skip) "ar_end r < at" | (gap) "at \<le> ar_end r" "at < ar_start r"
    | (fin) "ar_start r \<le> at" "hi \<le> ar_end r" | (more) "ar_start r \<le> at" "at \<le> ar_end r" "ar_end r < hi"
    by linarith
  then show ?case
  proof cases
    case skip
    then have "perm_at (r # rs) x = perm_at rs x" if "at \<le> x" for x
      using that by (simp add: ar_contains_def)
    with skip "2.IH"(1) [OF skip] "2.prems" show ?thesis by (simp del: perm_at_simps)
  next
    case gap
    then have "perm_at (r # rs) at = None"
      using later [of at] by (cases "perm_at rs at") (auto simp: ar_contains_def)
    moreover have "\<not> ar_cover at hi (r # rs)" using gap by simp
    ultimately show ?thesis using "2.prems"(2) by blast
  next
    case fin
    then show ?thesis using "2.prems" by (auto simp: ar_contains_def)
  next
    case more
    then have "ar_cover (ar_end r + 1) hi rs
        \<longleftrightarrow> (\<forall>x. ar_end r + 1 \<le> x \<and> x \<le> hi \<longrightarrow> perm_at rs x \<noteq> None)"
      using "2.IH"(2) "2.prems" by simp
    moreover have "perm_at (r # rs) x = (if x \<le> ar_end r then Some (ar_ceiling r, ar_current r) else perm_at rs x)"
      if "at \<le> x" for x using that more by (simp add: ar_contains_def)
    ultimately show ?thesis
      using more by (auto simp del: perm_at_simps simp add: Suc_le_eq)
  qed
qed

section \<open>Runs reproduce the frames\<close>

text \<open>The pages a run stands for: virtual address, physical address, permission.\<close>

definition expand_run :: "frame_run \<Rightarrow> (nat \<times> nat \<times> access) list" where
  "expand_run r = map (\<lambda>i. (fr_start r + i * PAGE_SIZE, fr_physical r + i * PAGE_SIZE, fr_current r))
                    [0 ..< fr_size r div PAGE_SIZE]"

fun expand_item :: "nest_error + frame_run \<Rightarrow> (nat \<times> nat \<times> access) option list" where
  "expand_item (Inl e) = [None]"
| "expand_item (Inr r) = map Some (expand_run r)"

definition page_item :: "nat \<Rightarrow> active_range list \<Rightarrow> nat \<times> nat \<Rightarrow> (nat \<times> nat \<times> access) option" where
  "page_item base active f =
     map_option (\<lambda>c. (run_address base (fst f), snd f, c)) (current_at active (run_address base (fst f)))"

lemma run_more_pages:
  "map (page_item base active) (take (run_more base active c prev fs) fs)
   = map (\<lambda>i. Some (run_address base (fst prev) + i * PAGE_SIZE, snd prev + i * PAGE_SIZE, c))
       [1 ..< 1 + run_more base active c prev fs]"
proof (induction base active c prev fs rule: run_more.induct)
  case (2 base active c prev f fs)
  let ?n = "run_more base active c f fs"
  show ?case
  proof (cases "run_joins base active c prev f")
    case True
    then have f: "fst f = fst prev + 1" "snd f = snd prev + PAGE_SIZE"
      "current_at active (run_address base (fst f)) = Some c" by (auto simp: run_joins_def)
    have "[1 ..< 1 + (1 + ?n)] = 1 # map Suc [1 ..< 1 + ?n]"
      by (simp add: map_Suc_upt upt_conv_Cons del: upt_Suc)
    with "2.IH" [OF True] True f show ?thesis
      by (simp add: page_item_def run_address_def algebra_simps del: upt_Suc)
  qed simp
qed simp


section \<open>Permission bits\<close>

lemma flag_masks: "A_ALL = mask 3" "PTE_ALL = mask 8" "WIRE_MASK = push_bit 1 (mask 3)"
  by (simp_all add: flag_defs mask_eq_exp_minus_1 push_bit_eq_mult)

lemma bits_within:
  "(f :: 64 word) AND NOT (push_bit k (mask m)) = 0 \<longleftrightarrow> push_bit k (drop_bit k f AND mask m) = f"
  by (fastforce simp: bit_eq_iff bit_simps)

lemma drop_push_small:
  "k + m \<le> 64 \<Longrightarrow> drop_bit k (push_bit k (a AND mask m)) = a AND mask m" for a :: "64 word"
  by (rule bit_word_eqI) (auto simp: bit_simps)

lemma push_bit_inj_small:
  fixes a b :: "64 word"
  assumes "push_bit k a = push_bit k b" and "a AND mask m = a" and "b AND mask m = b" and "k + m \<le> 64"
  shows "a = b"
  using drop_push_small [OF assms(4), of a] drop_push_small [OF assms(4), of b] assms(1-3) by metis

lemma access_from_wire_iff:
  "access_from_wire f = Some a \<longleftrightarrow> flags_contains A_ALL a \<and> f = push_bit 1 a"
proof
  assume "access_from_wire f = Some a"
  then have w: "f AND NOT WIRE_MASK = 0" and a: "drop_bit 1 f = a" and "a AND NOT A_ALL = 0"
    unfolding access_from_wire_def Let_def by (auto split: if_splits)
  from w have "push_bit 1 (a AND A_ALL) = f" unfolding flag_masks bits_within a .
  moreover from this have "a = a AND A_ALL"
    using drop_push_small [of 1 3 a] unfolding a [symmetric] flag_masks by simp
  ultimately show "flags_contains A_ALL a \<and> f = push_bit 1 a"
    unfolding flags_contains_def by (simp only: and.commute [of A_ALL a])
next
  assume r: "flags_contains A_ALL a \<and> f = push_bit 1 a"
  then have a: "a AND mask 3 = a" by (simp add: flags_contains_def flag_masks and.commute)
  have d: "drop_bit 1 f = a"
    unfolding conjunct2 [OF r] using drop_push_small [of 1 3 a, unfolded a] by fastforce
  have "f AND NOT WIRE_MASK = 0"
    unfolding flag_masks bits_within d a using r by blast
  moreover have "a AND NOT A_ALL = 0"
    using bits_within [of a 0 3] a by (simp add: flag_masks)
  ultimately show "access_from_wire f = Some a"
    unfolding access_from_wire_def Let_def d by simp
qed

lemma architectural_bits:
  assumes "attrs_are_architectural attrs" and "bit attrs n"
  shows "4 \<le> n"
proof -
  have "PTE_V OR PTE_R OR PTE_W OR PTE_X = mask 4"
    by (simp add: flag_defs mask_eq_exp_minus_1)
  with assms(1) have "attrs AND mask 4 = 0"
    by (simp add: attrs_are_architectural_def flags_intersects_def)
  then have "\<not> bit (attrs AND mask 4) n" by simp
  with assms(2) bit_imp_le_length [OF assms(2)] show ?thesis by (simp add: bit_simps)
qed

lemma access_bits: "flags_contains A_ALL a \<Longrightarrow> bit a n \<Longrightarrow> n < 3"
  unfolding flags_contains_def flag_masks by (metis bit_and_iff bit_mask_iff)

lemma bit_leaf_flags:
  assumes "flags_contains A_ALL c"
  shows "bit (leaf_flags v c) n \<longleftrightarrow> n = 0 \<or> 0 < n \<and> bit c (n - 1) \<or> bit (v_attrs v) n"
proof -
  have "bit (access_to_pte c) n \<longleftrightarrow> 0 < n \<and> bit c (n - 1)"
    using access_bits [OF assms, of "n - 1"] bit_imp_le_length [of c "n - 1"]
    unfolding access_to_pte_def flag_masks bit_and_iff bit_mask_iff bit_push_bit_iff by auto
  then show ?thesis by (auto simp: leaf_flags_def PTE_V_def bit_or_iff bit_1_iff)
qed

text \<open>
  C13: the page-table bits of a view's leaf carry exactly its logical permission and its
  architectural attributes: the entry is valid, its R/W/X bits decode to the current
  permission, and with V and R/W/X removed the attributes are left.
\<close>

theorem leaf_flags_roundtrip:
  assumes "attrs_are_architectural (v_attrs v)" and "flags_contains A_ALL c"
  shows "flags_contains (leaf_flags v c) PTE_V \<and> access_from_pte (leaf_flags v c) = c
    \<and> leaf_flags v c AND NOT (PTE_V OR PTE_R OR PTE_W OR PTE_X) = v_attrs v"
proof (intro conjI)
  note b = bit_leaf_flags [OF assms(2), of v] and arch = architectural_bits [OF assms(1)]
    and ac = access_bits [OF assms(2)]
  show "flags_contains (leaf_flags v c) PTE_V"
    unfolding flags_contains_def
    by (rule bit_word_eqI) (auto simp: bit_and_iff b PTE_V_def bit_1_iff)
  show "access_from_pte (leaf_flags v c) = c"
  proof (rule bit_word_eqI)
    fix n assume "n < LENGTH(64)"
    then show "bit (access_from_pte (leaf_flags v c)) n = bit c n"
      unfolding access_from_pte_def flag_masks bit_and_iff bit_drop_bit_eq bit_mask_iff comp_def b
      using arch [of "1 + n"] ac [of n] by auto
  qed
  have m: "PTE_V OR PTE_R OR PTE_W OR PTE_X = mask 4"
    by (simp add: flag_defs mask_eq_exp_minus_1)
  show "leaf_flags v c AND NOT (PTE_V OR PTE_R OR PTE_W OR PTE_X) = v_attrs v"
  proof (rule bit_word_eqI)
    fix n assume "n < LENGTH(64)"
    then show "bit (leaf_flags v c AND NOT (PTE_V OR PTE_R OR PTE_W OR PTE_X)) n = bit (v_attrs v) n"
      unfolding m bit_and_iff bit_not_iff_eq bit_mask_iff b
      using arch [of n] ac [of "n - 1"] by auto
  qed
qed

section \<open>View construction and publication\<close>

lemma successively_sorted:
  assumes "successively (\<lambda>a b. ar_end a < ar_start b) rs" and "\<forall>r \<in> set rs. ar_start r \<le> ar_end r"
  shows "sorted_wrt (\<lambda>a b. ar_end a < ar_start b) rs"
  using assms
proof (induction rs rule: induct_list012)
  case (3 a b rs)
  then have IH: "sorted_wrt (\<lambda>a b. ar_end a < ar_start b) (b # rs)" by simp
  have "ar_end a < ar_start c" if "c \<in> set (b # rs)" for c
    using that IH 3(3,4) by fastforce
  with IH show ?case by simp
qed simp_all

lemma view_new_ok:
  assumes "view_new mem start sz gid attrs active source_pages = Inr v"
  shows "sz = source_pages * PAGE_SIZE" and "active \<noteq> []"
    and "\<forall>r \<in> set active. start \<le> ar_start r \<and> ar_end r \<le> start + (sz - 1)"
    and "successively (\<lambda>a b. ar_end a < ar_start b) active" and "v_active v = active"
  using assms
  by (auto simp: view_new_def checked_bytes_def split: option.splits if_splits)

text \<open>Publication keeps the records ordered by page.\<close>

lemma view_publish_sorted:
  assumes "sorted_wrt (\<lambda>a b. fst a < fst b) (v_published v)" and "\<not> publishes v page"
  shows "sorted_wrt (\<lambda>a b. fst a < fst b) (v_published (view_publish page frame v))"
    and "set (v_published (view_publish page frame v)) = insert (page, frame) (set (v_published v))"
proof -
  obtain ys zs where xs: "v_published v = ys @ zs"
    and len: "length ys = partition_point (\<lambda>p. fst p < page) (v_published v)"
    and lo: "\<forall>y \<in> set ys. fst y < page" and hi: "zs = [] \<or> \<not> fst (hd zs) < page"
    by (rule partition_point_split [of "v_published v" "\<lambda>p. fst p < page"]) auto
  have e: "v_published (view_publish page frame v) = ys @ (page, frame) # zs"
    unfolding view_publish_def len [symmetric] unfolding xs by (simp add: vec_insert_split)
  have "page < fst z" if "z \<in> set zs" for z
  proof (cases zs)
    case (Cons h t)
    with hi assms(2) have "page < fst h" by (auto simp: publishes_def xs)
    with assms(1) that show ?thesis by (auto simp: xs Cons sorted_wrt_append)
  qed (use that in simp)
  with assms(1) lo show "sorted_wrt (\<lambda>a b. fst a < fst b) (v_published (view_publish page frame v))"
    by (auto simp: e xs sorted_wrt_append)
  show "set (v_published (view_publish page frame v)) = insert (page, frame) (set (v_published v))"
    by (simp add: e xs)
qed

section \<open>Instances\<close>

definition range_sample :: active_range where
  "range_sample = \<lparr>ar_start = 8192, ar_size = 16384, ar_ceiling = 7, ar_current = 3\<rparr>"

lemma range_sample_ok: "ranges_ok (geometry Sv39) [range_sample]"
  by (simp add: range_ok_def range_sample_def canonical_def is_user_def ar_end_def saturating_add_def
      geometry_def split_bit_def flags_contains_def is_leaf_set_def USIZE_def PAGE_SIZE_def flag_defs)

lemma page_span_sample: "page_span 12288 16383"
  by (simp add: page_span_def PAGE_SIZE_def)

theorem ar_split_correct_witness:
  "\<exists>rs'. ar_split (geometry Sv39) (\<lambda>_. True) [range_sample] 12288 16383 None = Some (Inr rs')
     \<and> perm_at rs' 8192 = Some (7, 3) \<and> perm_at rs' 12288 = None \<and> perm_at rs' 16384 = Some (7, 3)"
  using ar_split_correct [OF range_sample_ok geometry_ok page_span_sample, of "\<lambda>_. True" None]
  by (auto simp: split_perm_def range_sample_def ar_contains_def ar_end_def saturating_add_def USIZE_def)

theorem ar_narrow_correct_witness:
  "\<exists>rs'. ar_narrow (geometry Sv39) (\<lambda>_. True) [range_sample] 12288 16383 1 = Some (Inr rs')
     \<and> perm_at rs' 12288 = Some (1, 1) \<and> perm_at rs' 16384 = Some (7, 3)"
  using ar_narrow_correct [OF range_sample_ok geometry_ok page_span_sample, of "\<lambda>_. True" 1]
  by (auto simp: narrow_perm_def narrow_allowed_def range_sample_def ar_contains_def ar_end_def
      saturating_add_def USIZE_def flags_contains_def is_leaf_set_def flag_defs)

theorem leaf_flags_roundtrip_witness:
  "access_from_pte (leaf_flags \<lparr>v_start = 0, v_size = 4096, v_id = 1, v_attrs = 0xD0,
      v_active = [], v_published = []\<rparr> 3) = 3"
  using leaf_flags_roundtrip [of "\<lparr>v_start = 0, v_size = 4096, v_id = 1, v_attrs = 0xD0,
      v_active = [], v_published = []\<rparr>" 3]
  by (simp add: attrs_are_architectural_def flags_intersects_def flags_contains_def flag_defs)

end
