(* ===== verification/Index.thy ===== *)
theory Index
  imports View
begin

text \<open>
  The interval index over the views of an address space
  (\<open>kernel/src/core/memory/nest/index/\<close>): an AVL tree keyed by the least start of a
  view's active ranges, each node caching its key, its height and the greatest end
  address below it.

  The tree shares its views with the rest of the kernel (\<open>Arc<View>\<close>): a node holds
  a view's identity, and \<open>update\<close> reads the active ranges of that view from the store
  \<open>st\<close> at the moment it runs. The \<open>expect\<close> and \<open>unwrap\<close> calls of the rotations are
  the result \<open>None\<close>. Heights are natural numbers; that they fit the code's \<open>u8\<close> is a
  theorem.
\<close>

type_synonym store = "nat \<Rightarrow> active_range list"

datatype index_node =
    Tip
  | Nd (nd_view: nat) (nd_left: index_node) (nd_right: index_node) (nd_start: nat) (nd_height: nat)
      (nd_max_end: nat)

record index =
  ix_root :: index_node
  ix_len :: nat

section \<open>Nodes\<close>

fun list_min :: "nat list \<Rightarrow> nat option" where
  "list_min [] = None"
| "list_min (x # xs) = Some (fold min xs x)"

fun list_max :: "nat list \<Rightarrow> nat option" where
  "list_max [] = None"
| "list_max (x # xs) = Some (fold max xs x)"

definition node_span :: "active_range list \<Rightarrow> nest_error + nat \<times> nat" where
  "node_span active =
     rbind (ok_or (list_min (map ar_start active)) NoRegion) (\<lambda>start.
     rbind (ok_or (list_max (map ar_end active)) NoRegion) (\<lambda>max_end.
     Inr (start, max_end)))"

definition node_with_ranges :: "nat \<Rightarrow> active_range list \<Rightarrow> nest_error + index_node" where
  "node_with_ranges v active =
     rbind (node_span active) (\<lambda>(start, max_end). Inr (Nd v Tip Tip start 1 max_end))"

definition node_new :: "store \<Rightarrow> nat \<Rightarrow> nest_error + index_node" where
  "node_new st v = node_with_ranges v (st v)"

fun node_height :: "index_node \<Rightarrow> nat" where
  "node_height Tip = 0"
| "node_height (Nd v l r s h m) = h"

fun node_update :: "store \<Rightarrow> index_node \<Rightarrow> index_node" where
  "node_update st Tip = Tip"
| "node_update st (Nd v l r s h m) =
     (let h' = 1 + max (node_height l) (node_height r);
          s' = (case list_min (map ar_start (st v)) of Some start \<Rightarrow> start | None \<Rightarrow> s);
          m0 = (case list_max (map ar_end (st v)) of Some e \<Rightarrow> e | None \<Rightarrow> 0);
          m1 = (if l \<noteq> Tip then max m0 (nd_max_end l) else m0);
          m2 = (if r \<noteq> Tip then max m1 (nd_max_end r) else m1)
      in Nd v l r s' h' m2)"

fun rotate_left :: "store \<Rightarrow> index_node \<Rightarrow> index_node option" where
  "rotate_left st (Nd v l (Nd rv rl rr rs rh rm) s h m) =
     Some (node_update st (Nd rv (node_update st (Nd v l rl s h m)) rr rs rh rm))"
| "rotate_left st _ = None"

fun rotate_right :: "store \<Rightarrow> index_node \<Rightarrow> index_node option" where
  "rotate_right st (Nd v (Nd lv ll lr ls lh lm) r s h m) =
     Some (node_update st (Nd lv ll (node_update st (Nd v lr r s h m)) ls lh lm))"
| "rotate_right st _ = None"

fun node_balance :: "store \<Rightarrow> index_node \<Rightarrow> index_node option" where
  "node_balance st Tip = None"
| "node_balance st (Nd v0 l0 r0 s0 h0 m0) =
     (case node_update st (Nd v0 l0 r0 s0 h0 m0) of
        Tip \<Rightarrow> None
      | Nd v l r s h m \<Rightarrow>
          if node_height l > node_height r + 1 then
            (case l of
               Tip \<Rightarrow> None
             | Nd lv ll lr ls lh lm \<Rightarrow> do {
                 l' \<leftarrow> (if node_height lr > node_height ll then rotate_left st l else Some l);
                 rotate_right st (Nd v l' r s h m) })
          else if node_height r > node_height l + 1 then
            (case r of
               Tip \<Rightarrow> None
             | Nd rv rl rr rs rh rm \<Rightarrow> do {
                 r' \<leftarrow> (if node_height rl > node_height rr then rotate_right st r else Some r);
                 rotate_left st (Nd v l r' s h m) })
          else Some (Nd v l r s h m))"

fun take_min :: "store \<Rightarrow> index_node \<Rightarrow> (index_node \<times> index_node) option" where
  "take_min st Tip = None"
| "take_min st (Nd v Tip r s h m) = Some (r, Nd v Tip Tip s h m)"
| "take_min st (Nd v l r s h m) = do {
     (l', mn) \<leftarrow> take_min st l;
     t \<leftarrow> node_balance st (Nd v l' r s h m);
     Some (t, mn) }"

fun node_detach :: "store \<Rightarrow> index_node \<Rightarrow> index_node option" where
  "node_detach st Tip = None"
| "node_detach st (Nd v Tip r s h m) = Some r"
| "node_detach st (Nd v l Tip s h m) = Some l"
| "node_detach st (Nd v l r s h m) = do {
     (r', nxt) \<leftarrow> take_min st r;
     (case nxt of
        Tip \<Rightarrow> None
      | Nd nv _ _ ns nh nm \<Rightarrow> node_balance st (Nd nv l r' ns nh nm)) }"

section \<open>The index\<close>

definition index_new :: index where
  "index_new = \<lparr>ix_root = Tip, ix_len = 0\<rparr>"

fun node_insert :: "store \<Rightarrow> index_node \<Rightarrow> index_node \<Rightarrow> index_node option" where
  "node_insert st Tip n = Some n"
| "node_insert st (Nd v l r s h m) n =
     (if nd_start n < s
      then do { l' \<leftarrow> node_insert st l n; node_balance st (Nd v l' r s h m) }
      else do { r' \<leftarrow> node_insert st r n; node_balance st (Nd v l r' s h m) })"

fun remove_view :: "store \<Rightarrow> index_node \<Rightarrow> nat \<Rightarrow> (index_node \<times> bool) option" where
  "remove_view st Tip x = Some (Tip, False)"
| "remove_view st (Nd v l r s h m) x =
     (if v = x then do { t \<leftarrow> node_detach st (Nd v l r s h m); Some (t, True) }
      else do {
        (l', found) \<leftarrow> remove_view st l x;
        if found then do { t \<leftarrow> node_balance st (Nd v l' r s h m); Some (t, True) }
        else do {
          (r', found) \<leftarrow> remove_view st r x;
          if found then do { t \<leftarrow> node_balance st (Nd v l' r' s h m); Some (t, True) }
          else Some (Nd v l' r' s h m, False) } })"

definition hits :: "store \<Rightarrow> nat \<Rightarrow> nat \<Rightarrow> nat \<Rightarrow> bool" where
  "hits st v lo hi \<longleftrightarrow> (\<exists>r \<in> set (st v). ar_overlaps r lo hi)"

fun find_view :: "store \<Rightarrow> index_node \<Rightarrow> nat \<Rightarrow> nat option" where
  "find_view st Tip address = None"
| "find_view st (Nd v l r s h m) address =
     (case (if l \<noteq> Tip \<and> nd_max_end l \<ge> address then find_view st l address else None) of
        Some x \<Rightarrow> Some x
      | None \<Rightarrow>
          if hits st v address address then Some v
          else if s \<le> address then find_view st r address else None)"

fun node_first_overlap :: "store \<Rightarrow> index_node \<Rightarrow> nat \<Rightarrow> nat \<Rightarrow> nat option" where
  "node_first_overlap st Tip lo hi = None"
| "node_first_overlap st (Nd v l r s h m) lo hi =
     (if m < lo then None
      else case (if l \<noteq> Tip \<and> nd_max_end l \<ge> lo then node_first_overlap st l lo hi else None) of
        Some x \<Rightarrow> Some x
      | None \<Rightarrow>
          if hits st v lo hi then Some v
          else if s \<le> hi then node_first_overlap st r lo hi else None)"

fun collect_views :: "index_node \<Rightarrow> nat list" where
  "collect_views Tip = []"
| "collect_views (Nd v l r s h m) = collect_views l @ v # collect_views r"

fun node_refresh :: "store \<Rightarrow> index_node \<Rightarrow> nat \<Rightarrow> index_node \<times> bool" where
  "node_refresh st Tip x = (Tip, False)"
| "node_refresh st (Nd v l r s h m) x =
     (if v = x then (node_update st (Nd v l r s h m), True)
      else case node_refresh st l x of
        (l', True) \<Rightarrow> (node_update st (Nd v l' r s h m), True)
      | (l', False) \<Rightarrow>
          (case node_refresh st r x of
             (r', True) \<Rightarrow> (node_update st (Nd v l' r' s h m), True)
           | (r', False) \<Rightarrow> (Nd v l' r' s h m, False)))"

definition index_insert :: "store \<Rightarrow> index_node \<Rightarrow> index \<Rightarrow> index option" where
  "index_insert st n ix = do {
     root \<leftarrow> node_insert st (ix_root ix) n;
     Some \<lparr>ix_root = root, ix_len = ix_len ix + 1\<rparr> }"

definition index_remove :: "store \<Rightarrow> nat \<Rightarrow> index \<Rightarrow> (bool \<times> index) option" where
  "index_remove st v ix = do {
     (root, removed) \<leftarrow> remove_view st (ix_root ix) v;
     Some (removed, \<lparr>ix_root = root, ix_len = (if removed then ix_len ix - 1 else ix_len ix)\<rparr>) }"

definition index_find :: "store \<Rightarrow> index \<Rightarrow> nat \<Rightarrow> nat option" where
  "index_find st ix address = find_view st (ix_root ix) address"

definition index_first_overlap :: "store \<Rightarrow> index \<Rightarrow> nat \<Rightarrow> nat \<Rightarrow> nat option" where
  "index_first_overlap st ix lo hi = node_first_overlap st (ix_root ix) lo hi"

definition index_collect :: "index \<Rightarrow> nat list" where
  "index_collect ix = collect_views (ix_root ix)"

definition index_refresh :: "store \<Rightarrow> nat \<Rightarrow> index \<Rightarrow> bool \<times> index" where
  "index_refresh st v ix =
     (case node_refresh st (ix_root ix) v of (root, found) \<Rightarrow> (found, ix\<lparr>ix_root := root\<rparr>))"

definition index_clear :: "index \<Rightarrow> index" where
  "index_clear ix = \<lparr>ix_root = Tip, ix_len = 0\<rparr>"

section \<open>Keys, ends and the invariant\<close>

definition view_key :: "store \<Rightarrow> nat \<Rightarrow> nat" where
  "view_key st v = (case list_min (map ar_start (st v)) of Some s \<Rightarrow> s | None \<Rightarrow> 0)"

definition view_tail :: "store \<Rightarrow> nat \<Rightarrow> nat" where
  "view_tail st v = (case list_max (map ar_end (st v)) of Some e \<Rightarrow> e | None \<Rightarrow> 0)"

fun max_end_of :: "index_node \<Rightarrow> nat" where
  "max_end_of Tip = 0"
| "max_end_of (Nd v l r s h m) = m"

fun caches :: "store \<Rightarrow> index_node \<Rightarrow> bool" where
  "caches st Tip = True"
| "caches st (Nd v l r s h m) \<longleftrightarrow> caches st l \<and> caches st r \<and> st v \<noteq> [] \<and> s = view_key st v
     \<and> h = 1 + max (node_height l) (node_height r)
     \<and> m = max (view_tail st v) (max (max_end_of l) (max_end_of r))"

fun avl :: "index_node \<Rightarrow> bool" where
  "avl Tip = True"
| "avl (Nd v l r s h m) \<longleftrightarrow> avl l \<and> avl r
     \<and> node_height l \<le> node_height r + 1 \<and> node_height r \<le> node_height l + 1"

definition tree_ok :: "store \<Rightarrow> index_node \<Rightarrow> bool" where
  "tree_ok st t \<longleftrightarrow> caches st t \<and> avl t"

definition by_key :: "store \<Rightarrow> nat list \<Rightarrow> bool" where
  "by_key st vs \<longleftrightarrow> sorted_wrt (\<lambda>a b. view_key st a \<le> view_key st b) vs"

definition index_inv :: "store \<Rightarrow> index \<Rightarrow> bool" where
  "index_inv st ix \<longleftrightarrow> tree_ok st (ix_root ix) \<and> by_key st (index_collect ix)
     \<and> distinct (index_collect ix) \<and> ix_len ix = length (index_collect ix)"

lemma fold_min_Min: "fold min xs x = Min (set (x # xs))"
  by (rule Min.set_eq_fold [symmetric])

lemma fold_max_Max: "fold max xs x = Max (set (x # xs))"
  by (rule Max.set_eq_fold [symmetric])

lemma view_key_le: "r \<in> set (st v) \<Longrightarrow> view_key st v \<le> ar_start r"
  by (cases "st v") (auto simp: view_key_def fold_min_Min)

lemma view_tail_ge: "r \<in> set (st v) \<Longrightarrow> ar_end r \<le> view_tail st v"
  by (cases "st v") (auto simp: view_tail_def fold_max_Max)

lemma hits_bounds:
  assumes "hits st v lo hi"
  shows "view_key st v \<le> hi" and "lo \<le> view_tail st v"
  using assms view_key_le [of _ st v] view_tail_ge [of _ st v]
  by (fastforce simp: hits_def ar_overlaps_def)+

text \<open>A node with the caches it should have.\<close>

definition mk :: "store \<Rightarrow> nat \<Rightarrow> index_node \<Rightarrow> index_node \<Rightarrow> index_node" where
  "mk st v l r = Nd v l r (view_key st v) (1 + max (node_height l) (node_height r))
       (max (view_tail st v) (max (max_end_of l) (max_end_of r)))"

lemma mk_simps [simp]:
  "node_height (mk st v l r) = 1 + max (node_height l) (node_height r)"
  "max_end_of (mk st v l r) = max (view_tail st v) (max (max_end_of l) (max_end_of r))"
  "caches st (mk st v l r) \<longleftrightarrow> caches st l \<and> caches st r \<and> st v \<noteq> []"
  "avl (mk st v l r) \<longleftrightarrow> avl l \<and> avl r \<and> node_height l \<le> node_height r + 1 \<and> node_height r \<le> node_height l + 1"
  "collect_views (mk st v l r) = collect_views l @ v # collect_views r"
  "mk st v l r \<noteq> Tip"
  by (auto simp: mk_def)

lemma caches_mk: "caches st (Nd v l r s h m) \<Longrightarrow> Nd v l r s h m = mk st v l r"
  by (simp add: mk_def)

lemma node_update_eq: "st v \<noteq> [] \<Longrightarrow> node_update st (Nd v l r s h m) = mk st v l r"
  by (cases "st v"; cases l; cases r) (auto simp: mk_def view_key_def view_tail_def Let_def)

lemma rotate_right_mk:
  "st v \<noteq> [] \<Longrightarrow> st lv \<noteq> [] \<Longrightarrow>
     rotate_right st (Nd v (mk st lv ll lr) r s h m) = Some (mk st lv ll (mk st v lr r))"
  by (simp add: mk_def [of st lv ll lr] node_update_eq del: node_update.simps)

lemma rotate_left_mk:
  "st v \<noteq> [] \<Longrightarrow> st rv \<noteq> [] \<Longrightarrow>
     rotate_left st (Nd v l (mk st rv rl rr) s h m) = Some (mk st rv (mk st v l rl) rr)"
  by (simp add: mk_def [of st rv rl rr] node_update_eq del: node_update.simps)

lemma balance_mk:
  assumes "st v \<noteq> []"
  shows "node_height l \<le> node_height r + 1 \<Longrightarrow> node_height r \<le> node_height l + 1
      \<Longrightarrow> node_balance st (Nd v l r s h m) = Some (mk st v l r)"
    and "l = mk st lv ll lr \<Longrightarrow> node_height l > node_height r + 1 \<Longrightarrow>
      node_balance st (Nd v l r s h m) =
        Option.bind (if node_height lr > node_height ll then rotate_left st l else Some l)
          (\<lambda>l'. rotate_right st (Nd v l' r (view_key st v) (1 + max (node_height l) (node_height r))
             (max (view_tail st v) (max (max_end_of l) (max_end_of r)))))"
    and "r = mk st rv rl rr \<Longrightarrow> node_height r > node_height l + 1 \<Longrightarrow>
      node_balance st (Nd v l r s h m) =
        Option.bind (if node_height rl > node_height rr then rotate_right st r else Some r)
          (\<lambda>r'. rotate_left st (Nd v l r' (view_key st v) (1 + max (node_height l) (node_height r))
             (max (view_tail st v) (max (max_end_of l) (max_end_of r)))))"
  using assms
  by (auto simp: node_update_eq mk_def simp del: node_update.simps rotate_left.simps rotate_right.simps)

lemma node_with_ranges_eq:
  "st v \<noteq> [] \<Longrightarrow> node_with_ranges v (st v) = Inr (Nd v Tip Tip (view_key st v) 1 (view_tail st v))"
  by (cases "st v") (auto simp: node_with_ranges_def node_span_def view_key_def view_tail_def)

lemma node_with_ranges_empty: "node_with_ranges v [] = Inl NoRegion"
  by (simp add: node_with_ranges_def node_span_def)

lemma caches_cases:
  assumes "caches st t"
  obtains "t = Tip" | v l r where "t = mk st v l r" and "caches st l" and "caches st r" and "st v \<noteq> []"
  using assms by (cases t) (auto simp: mk_def)

lemma height_pos: "caches st t \<Longrightarrow> node_height t = 0 \<longleftrightarrow> t = Tip"
  by (cases t) auto

section \<open>Rebalancing\<close>

text \<open>
  Rebalancing a node whose subtrees are well formed and differ by at most two levels
  returns a well-formed tree over the same views in the same order.
\<close>

definition rebuilt :: "store \<Rightarrow> nat \<Rightarrow> index_node \<Rightarrow> index_node \<Rightarrow> index_node option \<Rightarrow> bool" where
  "rebuilt st v l r res \<longleftrightarrow>
     (\<exists>t. res = Some t \<and> tree_ok st t \<and> collect_views t = collect_views l @ v # collect_views r
        \<and> max (node_height l) (node_height r) \<le> node_height t
        \<and> node_height t \<le> 1 + max (node_height l) (node_height r)
        \<and> (node_height l \<le> node_height r + 1 \<and> node_height r \<le> node_height l + 1
            \<longrightarrow> node_height t = 1 + max (node_height l) (node_height r)))"

lemma balance_left_heavy:
  assumes "tree_ok st l" and r: "tree_ok st r" and v: "st v \<noteq> []"
    and h: "node_height l = node_height r + 2"
  shows "rebuilt st v l r (node_balance st (Nd v l r s k m))"
proof -
  from assms(1) h obtain lv ll lr where l: "l = mk st lv ll lr" "caches st ll" "caches st lr" "st lv \<noteq> []"
    and al: "avl l" by (auto simp: tree_ok_def elim: caches_cases)
  note b = balance_mk(2) [where st = st and v = v, OF v l(1), of r s k m]
  show ?thesis
  proof (cases "node_height lr > node_height ll")
    case False
    with b h v l al r show ?thesis
      by (auto simp: rotate_right_mk rebuilt_def tree_ok_def max_def)
  next
    case True
    with l(3) obtain mv ml mr where lr: "lr = mk st mv ml mr" "caches st ml" "caches st mr" "st mv \<noteq> []"
      by (auto elim: caches_cases)
    have "rotate_left st l = Some (mk st mv (mk st lv ll ml) mr)"
      using rotate_left_mk [of st lv mv ll ml mr] l(4) lr(4) unfolding l(1) lr(1) mk_def [of st lv] by blast
    with b h v l lr al r True show ?thesis
      by (auto simp: rotate_right_mk rebuilt_def tree_ok_def max_def)
  qed
qed

lemma balance_right_heavy:
  assumes l: "tree_ok st l" and "tree_ok st r" and v: "st v \<noteq> []"
    and h: "node_height r = node_height l + 2"
  shows "rebuilt st v l r (node_balance st (Nd v l r s k m))"
proof -
  from assms(2) h obtain rv rl rr where r: "r = mk st rv rl rr" "caches st rl" "caches st rr" "st rv \<noteq> []"
    and ar: "avl r" by (auto simp: tree_ok_def elim: caches_cases)
  note b = balance_mk(3) [where st = st and v = v, OF v r(1), of l s k m]
  show ?thesis
  proof (cases "node_height rl > node_height rr")
    case False
    with b h v r ar l show ?thesis
      by (auto simp: rotate_left_mk rebuilt_def tree_ok_def max_def)
  next
    case True
    with r(2) obtain mv ml mr where rl: "rl = mk st mv ml mr" "caches st ml" "caches st mr" "st mv \<noteq> []"
      by (auto elim: caches_cases)
    have "rotate_right st r = Some (mk st mv ml (mk st rv mr rr))"
      using rotate_right_mk [of st rv mv ml mr rr] r(4) rl(4) unfolding r(1) rl(1) mk_def [of st rv] by blast
    with b h v r rl ar l True show ?thesis
      by (auto simp: rotate_left_mk rebuilt_def tree_ok_def max_def)
  qed
qed

lemma balance_rebuilt:
  assumes "tree_ok st l" and "tree_ok st r" and "st v \<noteq> []"
    and "node_height l \<le> node_height r + 2" and "node_height r \<le> node_height l + 2"
  shows "rebuilt st v l r (node_balance st (Nd v l r s k m))"
proof -
  consider "node_height l = node_height r + 2" | "node_height r = node_height l + 2"
    | "node_height l \<le> node_height r + 1" "node_height r \<le> node_height l + 1"
    using assms(4,5) by linarith
  then show ?thesis
  proof cases
    case 3
    with balance_mk(1) [where st = st and v = v, OF assms(3)] assms show ?thesis
      by (auto simp: rebuilt_def tree_ok_def)
  qed (use assms balance_left_heavy balance_right_heavy in auto)
qed

section \<open>Insertion\<close>

definition inserted :: "store \<Rightarrow> nat \<Rightarrow> nat list \<Rightarrow> nat list \<Rightarrow> bool" where
  "inserted st v vs vs' \<longleftrightarrow>
     (\<exists>xs ys. vs = xs @ ys \<and> vs' = xs @ v # ys
        \<and> (\<forall>x \<in> set xs. view_key st x \<le> view_key st v) \<and> (\<forall>y \<in> set ys. view_key st v < view_key st y))"

lemma by_key_simps [simp]:
  "by_key st []"
  "by_key st (v # vs) \<longleftrightarrow> (\<forall>w \<in> set vs. view_key st v \<le> view_key st w) \<and> by_key st vs"
  "by_key st (xs @ ys) \<longleftrightarrow> by_key st xs \<and> by_key st ys
     \<and> (\<forall>x \<in> set xs. \<forall>y \<in> set ys. view_key st x \<le> view_key st y)"
  by (auto simp: by_key_def sorted_wrt_append)

lemma inserted_left:
  assumes "inserted st v vs vs'" and "\<forall>y \<in> set ws. view_key st v < view_key st y"
  shows "inserted st v (vs @ ws) (vs' @ ws)"
proof -
  from assms(1) obtain xs ys where "vs = xs @ ys" "vs' = xs @ v # ys"
    "\<forall>x \<in> set xs. view_key st x \<le> view_key st v" "\<forall>y \<in> set ys. view_key st v < view_key st y"
    by (auto simp: inserted_def)
  then show ?thesis
    using assms(2) unfolding inserted_def by (intro exI [of _ xs] exI [of _ "ys @ ws"]) auto
qed

lemma inserted_right:
  assumes "inserted st v vs vs'" and "\<forall>x \<in> set us. view_key st x \<le> view_key st v"
  shows "inserted st v (us @ vs) (us @ vs')"
proof -
  from assms(1) obtain xs ys where "vs = xs @ ys" "vs' = xs @ v # ys"
    "\<forall>x \<in> set xs. view_key st x \<le> view_key st v" "\<forall>y \<in> set ys. view_key st v < view_key st y"
    by (auto simp: inserted_def)
  then show ?thesis
    using assms(2) unfolding inserted_def by (intro exI [of _ "us @ xs"] exI [of _ ys]) auto
qed

lemma inserted_facts:
  assumes "inserted st v vs vs'"
  shows "set vs' = insert v (set vs)" and "length vs' = length vs + 1"
    and "by_key st vs \<Longrightarrow> by_key st vs'" and "distinct vs \<Longrightarrow> v \<notin> set vs \<Longrightarrow> distinct vs'"
  using assms by (auto simp: inserted_def less_imp_le)

lemma node_insert_ok:
  assumes "tree_ok st t" and "by_key st (collect_views t)" and v: "st v \<noteq> []"
  shows "\<exists>t'. node_insert st t (mk st v Tip Tip) = Some t' \<and> tree_ok st t'
    \<and> inserted st v (collect_views t) (collect_views t')
    \<and> node_height t \<le> node_height t' \<and> node_height t' \<le> node_height t + 1"
  using assms(1,2)
proof (induction t)
  case Tip
  with v show ?case by (auto simp: tree_ok_def inserted_def)
next
  case (Nd x l r s h m)
  let ?n = "mk st v Tip Tip"
  have ok: "tree_ok st l" "tree_ok st r" "st x \<noteq> []" "s = view_key st x"
    "node_height l \<le> node_height r + 1" "node_height r \<le> node_height l + 1"
    "h = 1 + max (node_height l) (node_height r)"
    using Nd.prems by (auto simp: tree_ok_def)
  have key: "nd_start ?n = view_key st v" by (simp add: mk_def)
  have order: "\<forall>y \<in> set (collect_views l). view_key st y \<le> view_key st x"
    "\<forall>y \<in> set (collect_views r). view_key st x \<le> view_key st y"
    using Nd.prems by auto
  show ?case
  proof (cases "view_key st v < s")
    case True
    from Nd ok obtain l' where l': "node_insert st l ?n = Some l'" "tree_ok st l'"
      "inserted st v (collect_views l) (collect_views l')"
      "node_height l \<le> node_height l'" "node_height l' \<le> node_height l + 1" by auto
    from balance_rebuilt [OF l'(2) ok(2,3), of s h m] l'(4,5) ok(5,6)
    have "rebuilt st x l' r (node_balance st (Nd x l' r s h m))" by simp
    moreover have "inserted st v (collect_views l @ x # collect_views r) (collect_views l' @ x # collect_views r)"
      using True ok(4) order(2) by (intro inserted_left [OF l'(3)]) auto
    ultimately show ?thesis
      using True l' ok(5-7) by (auto simp: rebuilt_def key)
  next
    case False
    from Nd ok obtain r' where r': "node_insert st r ?n = Some r'" "tree_ok st r'"
      "inserted st v (collect_views r) (collect_views r')"
      "node_height r \<le> node_height r'" "node_height r' \<le> node_height r + 1" by auto
    from balance_rebuilt [OF ok(1) r'(2) ok(3), of s h m] r'(4,5) ok(5,6)
    have "rebuilt st x l r' (node_balance st (Nd x l r' s h m))" by simp
    moreover have "inserted st v ((collect_views l @ [x]) @ collect_views r) ((collect_views l @ [x]) @ collect_views r')"
      using False ok(4) order(1) by (intro inserted_right [OF r'(3)]) fastforce
    ultimately show ?thesis
      using False r' ok(5-7) by (auto simp: rebuilt_def key)
  qed
qed

section \<open>Removal\<close>

lemma caches_cong:
  "(\<And>v. v \<in> set (collect_views t) \<Longrightarrow> st' v = st v) \<Longrightarrow> caches st' t = caches st t"
  by (induction t) (auto simp: view_key_def view_tail_def)

lemma take_min_ok:
  assumes "tree_ok st t" and "t \<noteq> Tip"
  shows "\<exists>t' v s h m. take_min st t = Some (t', Nd v Tip Tip s h m) \<and> tree_ok st t' \<and> st v \<noteq> []
    \<and> collect_views t = v # collect_views t'
    \<and> node_height t' \<le> node_height t \<and> node_height t \<le> node_height t' + 1"
  using assms
proof (induction st t rule: take_min.induct)
  case (2 st v r s h m)
  then show ?case by (auto simp: tree_ok_def)
next
  case (3 st v lv ll lr ls lh lm r s h m)
  define l where "l = Nd lv ll lr ls lh lm"
  have ok: "tree_ok st l" "tree_ok st r" "st v \<noteq> []" "node_height l \<le> node_height r + 1"
    "node_height r \<le> node_height l + 1" "h = 1 + max (node_height l) (node_height r)"
    using "3.prems" unfolding l_def [symmetric] by (auto simp: tree_ok_def)
  have "l \<noteq> Tip" by (simp add: l_def)
  with "3.IH" [folded l_def] ok(1) obtain l' x xs xh xm where
    l': "take_min st l = Some (l', Nd x Tip Tip xs xh xm)" "tree_ok st l'" "st x \<noteq> []"
      "collect_views l = x # collect_views l'"
      "node_height l' \<le> node_height l" "node_height l \<le> node_height l' + 1" by blast
  from balance_rebuilt [OF l'(2) ok(2,3), of s h m] l'(5,6) ok(4,5)
  have "rebuilt st v l' r (node_balance st (Nd v l' r s h m))" by simp
  then obtain t where t: "node_balance st (Nd v l' r s h m) = Some t" "tree_ok st t"
    "collect_views t = collect_views l' @ v # collect_views r"
    "max (node_height l') (node_height r) \<le> node_height t"
    "node_height t \<le> 1 + max (node_height l') (node_height r)"
    "node_height l' \<le> node_height r + 1 \<and> node_height r \<le> node_height l' + 1
       \<longrightarrow> node_height t = 1 + max (node_height l') (node_height r)"
    unfolding rebuilt_def by blast
  have e: "take_min st (Nd v l r s h m) = Some (t, Nd x Tip Tip xs xh xm)"
    using l'(1) t(1) unfolding l_def by simp
  have "node_height t \<le> h" "h \<le> node_height t + 1"
    using ok(4-6) l'(5,6) t(4-6) by linarith+
  then show ?case unfolding l_def [symmetric] using e t l'(3,4) by simp
qed auto

lemma node_detach_ok:
  assumes "avl l" and "avl r" and "caches st l" and "caches st r"
    and "node_height l \<le> node_height r + 1" and "node_height r \<le> node_height l + 1"
  shows "\<exists>t'. node_detach st (Nd v l r s h m) = Some t' \<and> tree_ok st t'
    \<and> collect_views t' = collect_views l @ collect_views r
    \<and> max (node_height l) (node_height r) \<le> node_height t'
    \<and> node_height t' \<le> 1 + max (node_height l) (node_height r)"
proof (cases "l = Tip \<or> r = Tip")
  case True
  with assms show ?thesis by (cases l; cases r) (auto simp: tree_ok_def)
next
  case False
  have r: "tree_ok st r" "r \<noteq> Tip" and l: "tree_ok st l" using assms False by (auto simp: tree_ok_def)
  from take_min_ok [OF r] obtain r' x xs xh xm where
    r': "take_min st r = Some (r', Nd x Tip Tip xs xh xm)" "tree_ok st r'" "st x \<noteq> []"
      "collect_views r = x # collect_views r'"
      "node_height r' \<le> node_height r" "node_height r \<le> node_height r' + 1" by blast
  from balance_rebuilt [OF l r'(2,3), of xs xh xm] r'(5,6) assms(5,6)
  have "rebuilt st x l r' (node_balance st (Nd x l r' xs xh xm))" by simp
  moreover have "node_detach st (Nd v l r s h m) = node_balance st (Nd x l r' xs xh xm)"
    using False r'(1) by (cases l; cases r) auto
  ultimately show ?thesis
    using r' assms(5,6) by (auto simp: rebuilt_def simp del: node_balance.simps)
qed

text \<open>
  Removal finds the view by identity, so it also works when the ranges of that view
  have just been replaced and the caches on its path are stale: \<open>st\<close> may differ from
  the store the caches were computed from at the removed view.
\<close>

lemma remove_view_ok:
  assumes "caches st0 t" and "avl t" and "distinct (collect_views t)"
    and "\<And>v. v \<noteq> x \<Longrightarrow> st v = st0 v"
  shows "x \<notin> set (collect_views t) \<Longrightarrow> remove_view st t x = Some (t, False)"
    and "x \<in> set (collect_views t) \<Longrightarrow> \<exists>t'. remove_view st t x = Some (t', True) \<and> tree_ok st t'
      \<and> collect_views t' = remove1 x (collect_views t)
      \<and> node_height t' \<le> node_height t \<and> node_height t \<le> node_height t' + 1"
  using assms(1-3)
proof (induction t)
  case (Nd v l r s h m)
  have same: "caches st u" if "caches st0 u" "x \<notin> set (collect_views u)" for u
    using that caches_cong [of u st st0] assms(4) by metis
  { case 1 with Nd show ?case by auto }
  case 2
  have ok: "caches st0 l" "caches st0 r" "avl l" "avl r" "st0 v \<noteq> []"
    "distinct (collect_views l)" "distinct (collect_views r)"
    "node_height l \<le> node_height r + 1" "node_height r \<le> node_height l + 1"
    "h = 1 + max (node_height l) (node_height r)" using "2.prems" by auto
  consider (here) "v = x" | (left) "v \<noteq> x" "x \<in> set (collect_views l)" "x \<notin> set (collect_views r)"
    | (right) "v \<noteq> x" "x \<notin> set (collect_views l)" "x \<in> set (collect_views r)"
    using "2.prems" by auto
  then show ?case
  proof cases
    case here
    then have "x \<notin> set (collect_views l)" "x \<notin> set (collect_views r)" using "2.prems" by auto
    with same ok node_detach_ok [of l r st v s h m] here show ?thesis
      by (fastforce simp: remove1_append simp del: node_detach.simps)
  next
    case left
    with Nd(2) ok obtain l' where l': "remove_view st l x = Some (l', True)" "tree_ok st l'"
      "collect_views l' = remove1 x (collect_views l)"
      "node_height l' \<le> node_height l" "node_height l \<le> node_height l' + 1" by blast
    have "tree_ok st r" "st v \<noteq> []" using same ok left assms(4) by (auto simp: tree_ok_def)
    from balance_rebuilt [OF l'(2) this, of s h m] l'(4,5) ok(8,9)
    have "rebuilt st v l' r (node_balance st (Nd v l' r s h m))" by simp
    with left l' ok(8-10) show ?thesis
      by (auto simp: rebuilt_def remove1_append simp del: node_balance.simps)
  next
    case right
    with Nd(1) ok have l: "remove_view st l x = Some (l, False)" by blast
    from right Nd(4) ok obtain r' where r': "remove_view st r x = Some (r', True)" "tree_ok st r'"
      "collect_views r' = remove1 x (collect_views r)"
      "node_height r' \<le> node_height r" "node_height r \<le> node_height r' + 1" by blast
    have "tree_ok st l" "st v \<noteq> []" using same ok right assms(4) by (auto simp: tree_ok_def)
    from balance_rebuilt [OF this(1) r'(2) this(2), of s h m] r'(4,5) ok(8,9)
    have "rebuilt st v l r' (node_balance st (Nd v l r' s h m))" by simp
    with right l r' ok(8-10) show ?thesis
      by (auto simp: rebuilt_def remove1_append simp del: node_balance.simps)
  qed
qed auto

section \<open>Lookup\<close>

lemma max_end_bound:
  "caches st t \<Longrightarrow> v \<in> set (collect_views t) \<Longrightarrow> view_tail st v \<le> max_end_of t"
  by (induction t) auto

lemma no_hit_below: "caches st t \<Longrightarrow> max_end_of t < lo \<Longrightarrow> v \<in> set (collect_views t) \<Longrightarrow> \<not> hits st v lo hi"
  using max_end_bound hits_bounds(2) by fastforce

lemma find_append: "find P (xs @ ys) = (case find P xs of None \<Rightarrow> find P ys | Some x \<Rightarrow> Some x)"
  by (induction xs) auto

lemma find_none: "(\<And>x. x \<in> set xs \<Longrightarrow> \<not> P x) \<Longrightarrow> find P xs = None"
  by (simp add: find_None_iff)

lemma max_end_nd: "t \<noteq> Tip \<Longrightarrow> nd_max_end t = max_end_of t"
  by (cases t) auto

lemma first_overlap_find:
  assumes "caches st t" and "by_key st (collect_views t)"
  shows "node_first_overlap st t lo hi = find (\<lambda>v. hits st v lo hi) (collect_views t)"
  using assms
proof (induction t)
  case (Nd v l r s h m)
  let ?P = "\<lambda>v. hits st v lo hi"
  have ok: "caches st l" "caches st r" "s = view_key st v" "by_key st (collect_views l)" "by_key st (collect_views r)"
    using Nd.prems by auto
  have left: "(if l \<noteq> Tip \<and> nd_max_end l \<ge> lo then node_first_overlap st l lo hi else None)
      = find ?P (collect_views l)"
  proof (cases "l \<noteq> Tip \<and> nd_max_end l \<ge> lo")
    case False
    then have "find ?P (collect_views l) = None"
      using no_hit_below [OF ok(1), of lo] by (intro find_none) (cases l; auto)
    with False show ?thesis by auto
  qed (use Nd.IH(1) ok in simp)
  have right: "find ?P (collect_views r) = None" if "\<not> s \<le> hi"
    using that Nd.prems(2) hits_bounds(1) by (intro find_none) (fastforce simp: ok(3))
  show ?case
  proof (cases "m < lo")
    case True
    then have "find ?P (collect_views (Nd v l r s h m)) = None"
      using no_hit_below [OF Nd.prems(1)] by (intro find_none) simp
    with True show ?thesis by simp
  next
    case False
    with left right Nd.IH(2) ok show ?thesis by (auto simp: find_append split: option.splits)
  qed
qed simp

lemma find_view_find:
  assumes "caches st t" and "by_key st (collect_views t)"
  shows "find_view st t a = find (\<lambda>v. hits st v a a) (collect_views t)"
  using assms
proof (induction t)
  case (Nd v l r s h m)
  let ?P = "\<lambda>v. hits st v a a"
  have ok: "caches st l" "caches st r" "s = view_key st v" "by_key st (collect_views l)" "by_key st (collect_views r)"
    using Nd.prems by auto
  have left: "(if l \<noteq> Tip \<and> nd_max_end l \<ge> a then find_view st l a else None) = find ?P (collect_views l)"
  proof (cases "l \<noteq> Tip \<and> nd_max_end l \<ge> a")
    case False
    then have "find ?P (collect_views l) = None"
      using no_hit_below [OF ok(1), of a] by (intro find_none) (cases l; auto)
    with False show ?thesis by auto
  qed (use Nd.IH(1) ok in simp)
  have right: "find ?P (collect_views r) = None" if "\<not> s \<le> a"
    using that Nd.prems(2) hits_bounds(1) by (intro find_none) (fastforce simp: ok(3))
  from left right Nd.IH(2) ok show ?case by (auto simp: find_append split: option.splits)
qed simp

text \<open>
  C14: with the index invariant, the pruned searches of the tree give the same answer as
  looking through all views in key order: \<open>first_overlap\<close> returns the first view that
  meets the interval and \<open>find\<close> the first that holds the address, and each returns
  nothing exactly when no view does.
\<close>

theorem index_lookup_correct:
  assumes "index_inv st ix"
  shows "index_first_overlap st ix lo hi = find (\<lambda>v. hits st v lo hi) (index_collect ix)
    \<and> index_find st ix a = find (\<lambda>v. hits st v a a) (index_collect ix)
    \<and> (index_first_overlap st ix lo hi = None \<longleftrightarrow> (\<forall>v \<in> set (index_collect ix). \<not> hits st v lo hi))"
  using assms first_overlap_find find_view_find
  by (auto simp: index_inv_def tree_ok_def index_first_overlap_def index_find_def index_collect_def
      find_None_iff)

section \<open>Balance\<close>

lemma avl_size_bound:
  assumes "caches st t" and "avl t"
  shows "2 ^ (node_height t div 2) \<le> length (collect_views t) + 1"
  using assms
proof (induction t)
  case (Nd v l r s h m)
  show ?case
  proof (cases "h < 2")
    case False
    then have hl: "h - 2 \<le> node_height l" and hr: "h - 2 \<le> node_height r"
      using Nd.prems by auto
    have pw: "(2::nat) ^ ((h - 2) div 2) \<le> 2 ^ (k div 2)" if "h - 2 \<le> k" for k
      using that by (intro power_increasing div_le_mono) auto
    have "h div 2 = Suc ((h - 2) div 2)" using False by (simp add: le_div_geq)
    then have "(2::nat) ^ (h div 2) = 2 * 2 ^ ((h - 2) div 2)" by simp
    also have "\<dots> \<le> 2 ^ (node_height l div 2) + 2 ^ (node_height r div 2)"
      using pw [OF hl] pw [OF hr] by linarith
    also have "\<dots> \<le> (length (collect_views l) + 1) + (length (collect_views r) + 1)"
      using Nd by (intro add_mono) auto
    finally show ?thesis by simp
  next
    case True
    then have "h = 0 \<or> h = 1" by auto
    then show ?thesis by auto
  qed
qed simp


section \<open>Operations keep the invariant\<close>

lemma index_new_inv: "index_inv st index_new"
  by (simp add: index_inv_def index_new_def tree_ok_def index_collect_def)

lemma node_new_Inr: "node_new st v = Inr n \<Longrightarrow> st v \<noteq> [] \<and> n = mk st v Tip Tip"
  by (cases "st v = []")
    (auto simp: node_new_def node_with_ranges_empty node_with_ranges_eq mk_def)

lemma index_insert_ok:
  assumes "index_inv st ix" and "node_new st v = Inr n" and "v \<notin> set (index_collect ix)"
  shows "\<exists>ix'. index_insert st n ix = Some ix' \<and> index_inv st ix'
    \<and> inserted st v (index_collect ix) (index_collect ix')"
proof -
  from node_new_Inr [OF assms(2)] have v: "st v \<noteq> []" and n: "n = mk st v Tip Tip" by auto
  have "tree_ok st (ix_root ix)" "by_key st (collect_views (ix_root ix))"
    using assms(1) by (auto simp: index_inv_def index_collect_def)
  from node_insert_ok [OF this v] obtain t' where t': "node_insert st (ix_root ix) n = Some t'"
    "tree_ok st t'" "inserted st v (collect_views (ix_root ix)) (collect_views t')" by (auto simp: n)
  with inserted_facts [OF t'(3)] assms(1,3) show ?thesis
    by (auto simp: index_insert_def index_inv_def index_collect_def)
qed

lemma by_key_remove1:
  assumes "by_key st0 vs" and "distinct vs" and "\<And>v. v \<noteq> x \<Longrightarrow> st v = st0 v"
  shows "by_key st (remove1 x vs)"
proof -
  have "view_key st v = view_key st0 v" if "v \<noteq> x" for v
    using assms(3) [OF that] by (simp add: view_key_def)
  with assms(1,2) show ?thesis by (induction vs) (auto simp: distinct_remove1_removeAll)
qed

text \<open>
  C16: inserting the node of a new view adds exactly that view to the index, after the
  views with a smaller or equal key and before those with a larger one, and keeps the
  tree balanced with correct caches; the \<open>expect\<close> calls of the rotations never fire.
\<close>

theorem index_insert_correct:
  assumes "index_inv st ix" and "node_new st v = Inr n" and "v \<notin> set (index_collect ix)"
  shows "\<exists>ix'. index_insert st n ix = Some ix' \<and> index_inv st ix'
    \<and> (\<exists>xs ys. index_collect ix = xs @ ys \<and> index_collect ix' = xs @ v # ys
         \<and> (\<forall>x \<in> set xs. view_key st x \<le> view_key st v)
         \<and> (\<forall>y \<in> set ys. view_key st v < view_key st y))"
  using index_insert_ok [OF assms] by (auto simp: inserted_def)

text \<open>
  C17: removing a view by identity takes exactly that view out and repairs order, balance
  and caches, even when the view's ranges have just been replaced in the store and the
  caches above it are stale, as withdrawal leaves them; a view that is not in the index
  changes nothing.
\<close>

theorem index_remove_correct:
  assumes "index_inv st0 ix" and "\<And>v. v \<noteq> x \<Longrightarrow> st v = st0 v"
  shows "\<exists>ix'. index_remove st x ix = Some (x \<in> set (index_collect ix), ix')
    \<and> index_collect ix' = remove1 x (index_collect ix) \<and> index_inv st ix'"
proof -
  have ok: "caches st0 (ix_root ix)" "avl (ix_root ix)" "distinct (collect_views (ix_root ix))"
    "by_key st0 (collect_views (ix_root ix))" "ix_len ix = length (collect_views (ix_root ix))"
    using assms(1) by (auto simp: index_inv_def tree_ok_def index_collect_def)
  note rm = remove_view_ok [where x = x, OF ok(1-3) assms(2)]
    and key = by_key_remove1 [where x = x, OF ok(4,3) assms(2)]
  show ?thesis
  proof (cases "x \<in> set (collect_views (ix_root ix))")
    case True
    with rm(2) obtain t' where "remove_view st (ix_root ix) x = Some (t', True)" "tree_ok st t'"
      "collect_views t' = remove1 x (collect_views (ix_root ix))" by blast
    with True key ok(3,5) show ?thesis
      by (auto simp: index_remove_def index_inv_def index_collect_def length_remove1 distinct_remove1)
  next
    case False
    then have "caches st (ix_root ix)" using caches_cong [of "ix_root ix" st st0] ok(1) assms(2) by metis
    with rm(1) False ok key show ?thesis
      by (auto simp: index_remove_def index_inv_def index_collect_def tree_ok_def remove1_idem)
  qed
qed

text \<open>
  A refresh after a change of permissions, which moves neither the least start nor the
  greatest end of the view, finds the view and leaves the tree as it is.
\<close>

lemma node_refresh_same: "caches st t \<Longrightarrow> node_refresh st t x = (t, x \<in> set (collect_views t))"
proof (induction t)
  case (Nd v l r s h m)
  have "st v \<noteq> []" using Nd.prems by simp
  then have "node_update st (Nd v l r s h m) = mk st v l r" by (rule node_update_eq)
  then have "node_update st (Nd v l r s h m) = Nd v l r s h m"
    by (simp only: caches_mk [OF Nd.prems])
  with Nd show ?case by (auto simp del: node_update.simps split: prod.splits bool.splits)
qed simp

lemma index_refresh_same:
  assumes "index_inv st0 ix" and "\<And>v. v \<noteq> x \<Longrightarrow> st v = st0 v" and "st x \<noteq> []"
    and "view_key st x = view_key st0 x" and "view_tail st x = view_tail st0 x"
  shows "index_inv st ix \<and> index_refresh st x ix = (x \<in> set (index_collect ix), ix)"
proof -
  have same: "view_key st v = view_key st0 v \<and> view_tail st v = view_tail st0 v
      \<and> (st0 v \<noteq> [] \<longrightarrow> st v \<noteq> [])" for v
    using assms(2-5) by (cases "v = x") (auto simp: view_key_def view_tail_def)
  have "caches st0 t \<Longrightarrow> caches st t" for t by (induction t) (use same in auto)
  moreover have "by_key st0 vs \<Longrightarrow> by_key st vs" for vs
    by (induction vs) (use same in auto)
  ultimately have "index_inv st ix" using assms(1) by (auto simp: index_inv_def tree_ok_def)
  then show ?thesis
    by (auto simp: index_refresh_def index_inv_def tree_ok_def node_refresh_same index_collect_def)
qed

section \<open>The interface of an interval index\<close>

text \<open>
  What the address space relies on: an overlap query that is exact and an insertion
  that adds one view. From these alone, inserting a view only after the query over its
  whole extent came back empty keeps the views free of shared addresses.
\<close>

locale interval_index =
  fixes good :: "'i \<Rightarrow> bool" and members :: "'i \<Rightarrow> 'v set"
    and meets :: "'v \<Rightarrow> nat \<Rightarrow> nat \<Rightarrow> bool"
    and query :: "'i \<Rightarrow> nat \<Rightarrow> nat \<Rightarrow> 'v option"
    and add :: "'v \<Rightarrow> 'i \<Rightarrow> 'i option"
  assumes query_None: "good i \<Longrightarrow> query i lo hi = None \<longleftrightarrow> (\<forall>v \<in> members i. \<not> meets v lo hi)"
    and add_some: "add v i = Some i' \<Longrightarrow> good i \<Longrightarrow> v \<notin> members i \<Longrightarrow>
      good i' \<and> members i' = insert v (members i)"
    and meets_mono: "meets v a b \<Longrightarrow> lo \<le> a \<Longrightarrow> b \<le> hi \<Longrightarrow> meets v lo hi"
begin

definition exclusive :: "'i \<Rightarrow> bool" where
  "exclusive i \<longleftrightarrow> (\<forall>a. \<forall>v \<in> members i. \<forall>w \<in> members i. meets v a a \<longrightarrow> meets w a a \<longrightarrow> v = w)"

lemma guarded_add:
  assumes "good i" and "exclusive i" and "v \<notin> members i"
    and "query i lo hi = None" and "\<And>a. meets v a a \<Longrightarrow> lo \<le> a \<and> a \<le> hi"
    and "add v i = Some i'"
  shows "good i' \<and> exclusive i'"
proof -
  from add_some [OF assms(6,1,3)] have i': "good i'" "members i' = insert v (members i)" by auto
  have "\<not> meets w a a" if "w \<in> members i" "meets v a a" for w a
    using that assms(4,5) query_None [OF assms(1)] meets_mono by blast
  with i' assms(2) show ?thesis unfolding exclusive_def by auto
qed

end

lemma hits_mono: "hits st v a b \<Longrightarrow> lo \<le> a \<Longrightarrow> b \<le> hi \<Longrightarrow> hits st v lo hi"
  unfolding hits_def ar_overlaps_def by (meson order_trans)

text \<open>Inserting a view by way of its node, as \<open>commit\<close> does.\<close>

definition index_add :: "store \<Rightarrow> nat \<Rightarrow> index \<Rightarrow> index option" where
  "index_add st v ix = (case node_new st v of Inl _ \<Rightarrow> None | Inr n \<Rightarrow> index_insert st n ix)"

interpretation view_index: interval_index
  "index_inv st" "\<lambda>ix. set (index_collect ix)" "hits st" "index_first_overlap st" "index_add st"
  for st
proof unfold_locales
  fix i lo hi assume "index_inv st i"
  then show "index_first_overlap st i lo hi = None \<longleftrightarrow> (\<forall>v \<in> set (index_collect i). \<not> hits st v lo hi)"
    using first_overlap_find
    by (auto simp: index_inv_def tree_ok_def index_first_overlap_def index_collect_def find_None_iff)
next
  fix v i i' assume "index_add st v i = Some i'" "index_inv st i" "v \<notin> set (index_collect i)"
  then show "index_inv st i' \<and> set (index_collect i') = insert v (set (index_collect i))"
    using index_insert_ok inserted_facts(1) by (fastforce simp: index_add_def split: sum.splits)
qed (rule hits_mono)

text \<open>
  C18: a view that is inserted only after \<open>first_overlap\<close> over an interval containing
  all its ranges returned nothing never shares an address with another view: at every
  address at most one view of the index is active afterwards.
\<close>

theorem index_guarded_insert:
  assumes "index_inv st ix" and "v \<notin> set (index_collect ix)"
    and "\<forall>a. \<forall>x \<in> set (index_collect ix). \<forall>y \<in> set (index_collect ix).
           hits st x a a \<longrightarrow> hits st y a a \<longrightarrow> x = y"
    and "index_first_overlap st ix lo hi = None"
    and "\<And>r. r \<in> set (st v) \<Longrightarrow> lo \<le> ar_start r \<and> ar_end r \<le> hi"
    and "node_new st v = Inr n"
  shows "\<exists>ix'. index_insert st n ix = Some ix' \<and> index_inv st ix'
    \<and> (\<forall>a. \<forall>x \<in> set (index_collect ix'). \<forall>y \<in> set (index_collect ix').
           hits st x a a \<longrightarrow> hits st y a a \<longrightarrow> x = y)"
proof -
  from index_insert_ok [OF assms(1,6,2)] obtain ix' where ix': "index_insert st n ix = Some ix'"
    by blast
  then have add: "index_add st v ix = Some ix'" by (simp add: index_add_def assms(6))
  have "lo \<le> a \<and> a \<le> hi" if "hits st v a a" for a
    using that assms(5) by (fastforce simp: hits_def ar_overlaps_def)
  from view_index.guarded_add [OF assms(1) _ assms(2,4) this add] assms(3) ix' show ?thesis
    by (auto simp: view_index.exclusive_def)
qed

section \<open>The audit\<close>

fun overlaps_other :: "store \<Rightarrow> index_node \<Rightarrow> nat \<Rightarrow> nat \<Rightarrow> nat \<Rightarrow> bool" where
  "overlaps_other st Tip x lo hi = False"
| "overlaps_other st (Nd v l r s h m) x lo hi =
     (if m < lo then False
      else if l \<noteq> Tip \<and> nd_max_end l \<ge> lo \<and> overlaps_other st l x lo hi then True
      else if v \<noteq> x \<and> hits st v lo hi then True
      else s \<le> hi \<and> r \<noteq> Tip \<and> overlaps_other st r x lo hi)"

text \<open>An assertion that fails is \<open>None\<close>; otherwise height, greatest end and count.\<close>

fun audit_index :: "store \<Rightarrow> index_node \<Rightarrow> nat option \<Rightarrow> nat option \<Rightarrow> (nat \<times> nat \<times> nat) option" where
  "audit_index st Tip lower upper = Some (0, 0, 0)"
| "audit_index st (Nd v l r s h m) lower upper =
     (if (case lower of None \<Rightarrow> False | Some lo \<Rightarrow> \<not> lo < s) then None
      else if (case upper of None \<Rightarrow> False | Some hi \<Rightarrow> \<not> s < hi) then None
      else do {
        (left_height, left_end, left_count) \<leftarrow> audit_index st l lower (Some s);
        (right_height, right_end, right_count) \<leftarrow> audit_index st r (Some s) upper;
        let local = map (\<lambda>r. (ar_start r, ar_end r)) (st v);
        if local = [] then None
        else if \<not> successively (\<lambda>a b. snd a < fst b) local then None
        else if \<exists>p \<in> set local. overlaps_other st (Nd v l r s h m) v (fst p) (snd p) then None
        else do {
          key \<leftarrow> list_min (map fst local);
          local_end \<leftarrow> list_max (map snd local);
          let expected_height = 1 + max left_height right_height;
          let expected_end = max (max local_end left_end) right_end;
          if s \<noteq> key \<or> h \<noteq> expected_height \<or> left_height > right_height + 1
             \<or> right_height > left_height + 1 \<or> m \<noteq> expected_end then None
          else Some (expected_height, expected_end, left_count + right_count + 1) } })"

definition index_audit :: "store \<Rightarrow> index \<Rightarrow> bool" where
  "index_audit st ix = (case audit_index st (ix_root ix) None None of
     None \<Rightarrow> False | Some (_, _, count) \<Rightarrow> count = ix_len ix)"

lemma overlaps_other_hits: "overlaps_other st t x lo hi \<Longrightarrow> \<exists>v \<in> set (collect_views t). v \<noteq> x \<and> hits st v lo hi"
  by (induction st t x lo hi rule: overlaps_other.induct) (auto split: if_splits)

text \<open>What the address space guarantees of the views it indexes.\<close>

definition views_disjoint :: "store \<Rightarrow> nat list \<Rightarrow> bool" where
  "views_disjoint st vs \<longleftrightarrow>
     (\<forall>v \<in> set vs. sorted_wrt (\<lambda>a b. ar_end a < ar_start b) (st v)
        \<and> (\<forall>r \<in> set (st v). ar_start r \<le> ar_end r))
   \<and> (\<forall>v \<in> set vs. \<forall>w \<in> set vs. v \<noteq> w \<longrightarrow> (\<forall>r \<in> set (st v). \<not> hits st w (ar_start r) (ar_end r)))"

lemma list_min_key: "st v \<noteq> [] \<Longrightarrow> list_min (map ar_start (st v)) = Some (view_key st v)"
  by (cases "st v") (auto simp: view_key_def)

lemma list_max_tail: "st v \<noteq> [] \<Longrightarrow> list_max (map ar_end (st v)) = Some (view_tail st v)"
  by (cases "st v") (auto simp: view_tail_def)

lemma view_key_mem: "st v \<noteq> [] \<Longrightarrow> \<exists>r \<in> set (st v). ar_start r = view_key st v"
proof -
  assume "st v \<noteq> []"
  then have "view_key st v = Min (ar_start ` set (st v))"
    by (cases "st v") (auto simp: view_key_def fold_min_Min)
  moreover have "Min (ar_start ` set (st v)) \<in> ar_start ` set (st v)"
    using \<open>st v \<noteq> []\<close> by (intro Min_in) auto
  ultimately show ?thesis by auto
qed

lemma disjoint_keys:
  assumes "views_disjoint st vs" and "v \<in> set vs" and "w \<in> set vs" and "v \<noteq> w"
    and "st v \<noteq> []" and "st w \<noteq> []"
  shows "view_key st v \<noteq> view_key st w"
proof
  assume eq: "view_key st v = view_key st w"
  from view_key_mem [of st v] view_key_mem [of st w] assms(5,6) obtain r q
    where r: "r \<in> set (st v)" "ar_start r = view_key st v" and q: "q \<in> set (st w)" "ar_start q = view_key st w"
    by blast
  have "ar_start r \<le> ar_end r" "ar_start q \<le> ar_end q" "\<not> hits st w (ar_start r) (ar_end r)"
    using assms(1-4) r(1) q(1) by (auto simp: views_disjoint_def)
  with q r eq show False by (auto simp: hits_def ar_overlaps_def)
qed

lemma sorted_successively: "sorted_wrt P xs \<Longrightarrow> successively P xs"
  by (induction xs rule: induct_list012) auto

lemma views_disjoint_mono: "views_disjoint st vs \<Longrightarrow> set ws \<subseteq> set vs \<Longrightarrow> views_disjoint st ws"
  unfolding views_disjoint_def by blast

lemma caches_nonempty: "caches st t \<Longrightarrow> v \<in> set (collect_views t) \<Longrightarrow> st v \<noteq> []"
  by (induction t) auto

lemma audit_index_ok:
  assumes "caches st t" and "avl t" and "sorted_wrt (\<lambda>a b. view_key st a < view_key st b) (collect_views t)"
    and "views_disjoint st (collect_views t)"
    and "\<And>v lo. v \<in> set (collect_views t) \<Longrightarrow> lower = Some lo \<Longrightarrow> lo < view_key st v"
    and "\<And>v hi. v \<in> set (collect_views t) \<Longrightarrow> upper = Some hi \<Longrightarrow> view_key st v < hi"
  shows "audit_index st t lower upper = Some (node_height t, max_end_of t, length (collect_views t))"
  using assms
proof (induction t arbitrary: lower upper)
  case (Nd v l r s h m)
  have ok: "caches st l" "caches st r" "avl l" "avl r" "st v \<noteq> []" "s = view_key st v"
    "h = 1 + max (node_height l) (node_height r)" "m = max (view_tail st v) (max (max_end_of l) (max_end_of r))"
    "node_height l \<le> node_height r + 1" "node_height r \<le> node_height l + 1"
    using Nd.prems(1,2) by auto
  have sub: "views_disjoint st (collect_views l)" "views_disjoint st (collect_views r)"
    using Nd.prems(4) by (auto elim!: views_disjoint_mono)
  have l: "audit_index st l lower (Some s) = Some (node_height l, max_end_of l, length (collect_views l))"
    using Nd.prems by (intro Nd.IH(1)) (auto simp: ok sub sorted_wrt_append)
  have r: "audit_index st r (Some s) upper = Some (node_height r, max_end_of r, length (collect_views r))"
    using Nd.prems by (intro Nd.IH(2)) (auto simp: ok sub sorted_wrt_append)
  have none: "\<not> overlaps_other st (Nd v l r s h m) v (ar_start q) (ar_end q)" if "q \<in> set (st v)" for q
    using overlaps_other_hits [of st "Nd v l r s h m" v "ar_start q" "ar_end q"] Nd.prems(4) that
    unfolding views_disjoint_def by (metis collect_views.simps(2) in_set_conv_decomp)
  have succ: "successively (\<lambda>a b. snd a < fst b) (map (\<lambda>r. (ar_start r, ar_end r)) (st v))"
    using Nd.prems(4) by (auto simp: views_disjoint_def successively_map comp_def intro!: sorted_successively)
  have bounds: "\<not> (case lower of None \<Rightarrow> False | Some lo \<Rightarrow> \<not> lo < s)"
    "\<not> (case upper of None \<Rightarrow> False | Some hi \<Rightarrow> \<not> s < hi)"
    using Nd.prems(5,6) by (auto simp: ok(6) split: option.splits)
  have none': "\<not> (\<exists>q \<in> set (st v). overlaps_other st (Nd v l r s h m) v (ar_start q) (ar_end q))"
    using none by blast
  have "audit_index st (Nd v l r s h m) lower upper
      = Some (h, m, length (collect_views l) + length (collect_views r) + 1)"
    unfolding audit_index.simps l r
    using bounds succ none' ok(5-10)
    by (simp add: comp_def Let_def list_min_key list_max_tail ac_simps del: overlaps_other.simps)
  then show ?case by simp
qed simp

text \<open>
  C19: the run-time audit of the index cannot fire: on an index that satisfies the
  invariant, over views with ordered, mutually disjoint ranges, every assertion of the
  audit holds (strictly increasing keys, no overlap with another view, heights, balance,
  greatest ends, and the count of nodes).
\<close>

theorem index_audit_passes:
  assumes "index_inv st ix" and "views_disjoint st (index_collect ix)"
  shows "index_audit st ix"
proof -
  let ?t = "ix_root ix"
  have ok: "caches st ?t" "avl ?t" "by_key st (collect_views ?t)" "distinct (collect_views ?t)"
    "views_disjoint st (collect_views ?t)"
    using assms by (auto simp: index_inv_def tree_ok_def index_collect_def)
  note ne = caches_nonempty [OF ok(1)]
  have "view_key st (collect_views ?t ! i) < view_key st (collect_views ?t ! j)"
    if "i < j" "j < length (collect_views ?t)" for i j
  proof -
    let ?a = "collect_views ?t ! i" and ?b = "collect_views ?t ! j"
    have "?a \<noteq> ?b" using ok(4) that by (simp add: nth_eq_iff_index_eq)
    moreover have "?a \<in> set (collect_views ?t)" "?b \<in> set (collect_views ?t)" using that by auto
    ultimately have "view_key st ?a \<noteq> view_key st ?b"
      using disjoint_keys [OF ok(5)] ne by blast
    moreover have "view_key st ?a \<le> view_key st ?b"
      using ok(3) that by (auto simp: by_key_def sorted_wrt_iff_nth_less)
    ultimately show ?thesis by simp
  qed
  then have "sorted_wrt (\<lambda>a b. view_key st a < view_key st b) (collect_views ?t)"
    by (simp add: sorted_wrt_iff_nth_less)
  from audit_index_ok [OF ok(1,2) this ok(5), of None None] assms(1) show ?thesis
    by (auto simp: index_audit_def index_inv_def index_collect_def)
qed

section \<open>Instances\<close>

definition store_sample :: store where
  "store_sample v =
     (if v = 5 then [\<lparr>ar_start = 4096, ar_size = 4096, ar_ceiling = 7, ar_current = 3\<rparr>]
      else if v = 6 then [\<lparr>ar_start = 12288, ar_size = 4096, ar_ceiling = 7, ar_current = 1\<rparr>]
      else [])"

definition index_sample :: index where
  "index_sample = \<lparr>ix_root = Nd 5 Tip Tip 4096 1 8191, ix_len = 1\<rparr>"

lemmas index_eval = store_sample_def index_sample_def index_collect_def view_key_def view_tail_def
  ar_end_def saturating_add_def USIZE_def hits_def ar_overlaps_def

lemma index_sample_inv: "index_inv store_sample index_sample"
  by (simp add: index_inv_def tree_ok_def index_eval)

lemma node_sample: "node_new store_sample 6 = Inr (Nd 6 Tip Tip 12288 1 16383)"
  by (simp add: node_new_def node_with_ranges_def node_span_def index_eval)

theorem index_lookup_correct_witness:
  "index_find store_sample index_sample 5000 = Some 5
   \<and> index_first_overlap store_sample index_sample 8192 20000 = None"
  using index_lookup_correct [OF index_sample_inv, of 8192 20000 5000]
  by (simp add: index_eval)


theorem index_insert_correct_witness:
  "\<exists>ix'. index_insert store_sample (Nd 6 Tip Tip 12288 1 16383) index_sample = Some ix'
     \<and> index_inv store_sample ix'"
  using index_insert_correct [OF index_sample_inv node_sample] by (auto simp: index_eval)

theorem index_remove_correct_witness:
  "\<exists>ix'. index_remove (store_sample(5 := [])) 5 index_sample = Some (True, ix') \<and> index_collect ix' = []"
  using index_remove_correct [OF index_sample_inv, of 5 "store_sample(5 := [])"]
  by (auto simp: index_sample_def index_collect_def)

theorem index_guarded_insert_witness:
  "\<exists>ix'. index_insert store_sample (Nd 6 Tip Tip 12288 1 16383) index_sample = Some ix'
     \<and> index_inv store_sample ix'"
proof -
  have free: "index_first_overlap store_sample index_sample 12288 16383 = None"
    by (simp add: index_first_overlap_def index_eval)
  have new: "6 \<notin> set (index_collect index_sample)" by (simp add: index_eval)
  have "\<exists>ix'. index_insert store_sample (Nd 6 Tip Tip 12288 1 16383) index_sample = Some ix'
      \<and> index_inv store_sample ix'
      \<and> (\<forall>a. \<forall>x \<in> set (index_collect ix'). \<forall>y \<in> set (index_collect ix').
           hits store_sample x a a \<longrightarrow> hits store_sample y a a \<longrightarrow> x = y)"
    by (rule index_guarded_insert [OF index_sample_inv new _ free _ node_sample])
      (auto simp: index_eval)
  then show ?thesis by blast
qed

theorem index_audit_passes_witness: "index_audit store_sample index_sample"
  using index_audit_passes [OF index_sample_inv] by (simp add: views_disjoint_def index_eval)

end
