(* ===== verification/Page_Table.thy ===== *)
theory Page_Table
  imports View "HOL-Library.AList" "HOL-Library.Multiset"
begin

text \<open>
  The hardware page tables of an address space (\<open>kernel/src/core/memory/nest/table/\<close>).

  An entry is a 64-bit word. A table is a tree node: the number of the frame that holds
  it, its 512 entries and the owned child tables with the slots they hang from. A loop
  that walks from the root is a recursion on the level; the mutable reference it ends
  at is the function that updates the entry there, so \<open>entry_at\<close> returns the entry it
  found and the tree with the update applied.

  The frames for new tables come from a list: each element is the frame number and
  whether the reservation of a place in \<open>children\<close> that follows succeeds; the empty
  list is an exhausted allocator. A failed \<open>expect\<close>, \<open>unreachable!\<close> or assertion is
  \<open>None\<close>. The first part holds the operations; the second gives a tree its meaning
  as a map from page numbers to physical pages and shows what each operation does to it.
\<close>

section \<open>Entries\<close>

type_synonym pte = "64 word"

definition FLAGS_MASK :: pte where "FLAGS_MASK = 0x3FF"

definition entry_flags :: "pte \<Rightarrow> pte_flags" where
  "entry_flags e = e AND FLAGS_MASK AND PTE_ALL"

definition entry_is_valid :: "pte \<Rightarrow> bool" where
  "entry_is_valid e = flags_contains (entry_flags e) PTE_V"

definition entry_is_leaf :: "pte \<Rightarrow> bool" where
  "entry_is_leaf e = flags_intersects (entry_flags e) (PTE_R OR PTE_W OR PTE_X)"

definition entry_is_branch :: "pte \<Rightarrow> bool" where
  "entry_is_branch e \<longleftrightarrow> entry_is_valid e \<and> \<not> entry_is_leaf e"

definition entry_ppn :: "pte \<Rightarrow> 64 word" where
  "entry_ppn e = drop_bit 10 e"

definition entry_paddr :: "pte \<Rightarrow> 64 word" where
  "entry_paddr e = push_bit 12 (entry_ppn e)"

definition entry_set :: "64 word \<Rightarrow> pte_flags \<Rightarrow> pte" where
  "entry_set ppn flags = push_bit 10 ppn OR flags"

definition entry_set_flags :: "pte_flags \<Rightarrow> pte \<Rightarrow> pte" where
  "entry_set_flags flags e = (e AND NOT FLAGS_MASK) OR flags"

definition entry_clear :: pte where
  "entry_clear = 0"

section \<open>Tables\<close>

datatype table = Table (tb_ppn: nat) (tb_entries: "pte list") (tb_children: "(nat \<times> table) list")

type_synonym table_frames = "(nat \<times> bool) list"

definition table_leaf :: "nat \<Rightarrow> table" where
  "table_leaf ppn = Table ppn (replicate 512 0) []"

definition table_root :: "table_frames \<Rightarrow> nest_error + table" where
  "table_root fs = (case fs of [] \<Rightarrow> Inl OutOfMemory | (ppn, _) # _ \<Rightarrow> Inr (table_leaf ppn))"

fun node_count :: "table \<Rightarrow> nat" where
  "node_count (Table p es cs) = 1 + sum_list (map (\<lambda>(_, c). node_count c) cs)"

definition table_span :: "nat \<Rightarrow> nat" where
  "table_span level = 2 ^ (PAGE_SHIFT + 9 * level)"

fun entry_at ::
  "bool \<Rightarrow> nat \<Rightarrow> nat \<Rightarrow> (pte \<Rightarrow> pte) \<Rightarrow> nat \<Rightarrow> table \<Rightarrow> table_frames
     \<Rightarrow> ((nest_error + pte) \<times> table \<times> table_frames) option" where
  "entry_at alloc va target f level (Table p es cs) fs =
     (let idx = vpn va level; entry = es ! idx in
      if level = target then Some (Inr entry, Table p (es[idx := f entry]) cs, fs)
      else case level of 0 \<Rightarrow> None | Suc below \<Rightarrow>
        if entry_is_leaf entry \<and> entry_is_valid entry then Some (Inl AlreadyMapped, Table p es cs, fs)
        else if \<not> entry_is_valid entry \<and> \<not> alloc then Some (Inl NotMapped, Table p es cs, fs)
        else if \<not> entry_is_valid entry then
          (case fs of
             [] \<Rightarrow> Some (Inl OutOfMemory, Table p es cs, fs)
           | (ppn, room) # fs' \<Rightarrow>
               if \<not> room then Some (Inl OutOfMemory, Table p es cs, fs')
               else let cs' = cs @ [(idx, table_leaf ppn)];
                        es' = es[idx := entry_set (word_of_nat ppn) PTE_V] in
               (case map_of cs' idx of
                  None \<Rightarrow> None
                | Some child \<Rightarrow>
                    map_option (\<lambda>(r, child', fs''). (r, Table p es' (AList.update idx child' cs'), fs''))
                      (entry_at alloc va target f below child fs')))
        else (case map_of cs idx of
                None \<Rightarrow> None
              | Some child \<Rightarrow>
                  map_option (\<lambda>(r, child', fs'). (r, Table p es (AList.update idx child' cs), fs'))
                    (entry_at alloc va target f below child fs)))"

fun leaf_ref :: "nat \<Rightarrow> nat \<Rightarrow> table \<Rightarrow> nest_error + pte \<times> nat" where
  "leaf_ref va level (Table p es cs) =
     (let idx = vpn va level; entry = es ! idx in
      if \<not> entry_is_valid entry \<or> entry_is_leaf entry then Inr (entry, level)
      else case map_of cs idx of
             None \<Rightarrow> Inl NotMapped
           | Some child \<Rightarrow> (case level of 0 \<Rightarrow> Inl NotMapped | Suc below \<Rightarrow> leaf_ref va below child))"

definition leaf_ref_geometry :: "geo \<Rightarrow> nat \<Rightarrow> table \<Rightarrow> nest_error + pte \<times> nat" where
  "leaf_ref_geometry g va t = (if levels g = 0 then Inl NotMapped else leaf_ref va (levels g - 1) t)"

text \<open>The loop of \<open>split_at_geometry\<close>: it stops above \<open>target\<close>.\<close>

fun split_at_level ::
  "nat \<Rightarrow> nat \<Rightarrow> nat \<Rightarrow> table \<Rightarrow> table_frames
     \<Rightarrow> ((nest_error + unit) \<times> table \<times> table_frames) option" where
  "split_at_level va target level (Table p es cs) fs =
     (if level \<le> target then Some (Inr (), Table p es cs, fs)
      else case level of 0 \<Rightarrow> None | Suc below \<Rightarrow>
        let idx = vpn va level; entry = es ! idx in
        if \<not> entry_is_valid entry then Some (Inr (), Table p es cs, fs)
        else if entry_is_leaf entry then
          (case fs of
             [] \<Rightarrow> Some (Inl OutOfMemory, Table p es cs, fs)
           | (ppn, room) # fs' \<Rightarrow>
               if \<not> room then Some (Inl OutOfMemory, Table p es cs, fs')
               else
                 let child = Table ppn (map (\<lambda>i. entry_set
                         (word_of_nat ((unat (entry_paddr entry) + i * table_span below) div 2 ^ PAGE_SHIFT))
                         (entry_flags entry)) [0..<512]) [];
                     cs' = cs @ [(idx, child)];
                     es' = es[idx := entry_set (word_of_nat ppn) PTE_V] in
                 (case map_of cs' idx of
                    None \<Rightarrow> None
                  | Some node \<Rightarrow>
                      map_option (\<lambda>(r, node', fs''). (r, Table p es' (AList.update idx node' cs'), fs''))
                        (split_at_level va target below node fs')))
        else (case map_of cs idx of
                None \<Rightarrow> None
              | Some node \<Rightarrow>
                  map_option (\<lambda>(r, node', fs'). (r, Table p es (AList.update idx node' cs), fs'))
                    (split_at_level va target below node fs)))"

definition split_at_geometry ::
  "geo \<Rightarrow> nat \<Rightarrow> nat \<Rightarrow> table \<Rightarrow> table_frames \<Rightarrow> ((nest_error + unit) \<times> table \<times> table_frames) option" where
  "split_at_geometry g va target t fs = split_at_level va target (levels g - 1) t fs"

text \<open>
  The inner loop of \<open>prepare_with\<close> on one boundary. Each split moves the leaf of the
  point one level down, so as many rounds as the table has levels are enough; running
  out of rounds is \<open>None\<close> and is shown not to happen.
\<close>

primrec prepare_point ::
  "nat \<Rightarrow> geo \<Rightarrow> nat \<Rightarrow> nat \<Rightarrow> bool \<Rightarrow> table \<Rightarrow> table_frames
     \<Rightarrow> ((nest_error + unit) \<times> table \<times> table_frames) option" where
  "prepare_point 0 g point remaining at_start t fs = None"
| "prepare_point (Suc fuel) g point remaining at_start t fs =
     (case leaf_ref_geometry g point t of
        Inl e \<Rightarrow> Some (Inl e, t, fs)
      | Inr (entry, level) \<Rightarrow>
          if \<not> entry_is_valid entry \<or> level = 0 then Some (Inr (), t, fs)
          else
            let span = table_span level;
                offset = point mod span;
                covered = (if at_start then offset = 0 \<and> remaining \<ge> span
                           else offset + PAGE_SIZE = span \<and> remaining \<ge> span) in
            if covered then Some (Inr (), t, fs)
            else case split_at_geometry g point (level - 1) t fs of
                   None \<Rightarrow> None
                 | Some (Inl e, t', fs') \<Rightarrow> Some (Inl e, t', fs')
                 | Some (Inr _, t', fs') \<Rightarrow> prepare_point fuel g point remaining at_start t' fs')"

definition prepare_with ::
  "geo \<Rightarrow> nat \<Rightarrow> nat \<Rightarrow> table \<Rightarrow> table_frames \<Rightarrow> ((nest_error + unit) \<times> table \<times> table_frames) option" where
  "prepare_with g va sz t fs =
     (if page_offset va \<noteq> 0 \<or> sz mod PAGE_SIZE \<noteq> 0 then Some (Inl NotAligned, t, fs)
      else if sz = 0 then Some (Inr (), t, fs)
      else case prepare_point (levels g) g va sz True t fs of
             None \<Rightarrow> None
           | Some (Inl e, t', fs') \<Rightarrow> Some (Inl e, t', fs')
           | Some (Inr _, t', fs') \<Rightarrow> prepare_point (levels g) g (va + (sz - PAGE_SIZE)) sz False t' fs')"

definition walk_ref_geometry :: "geo \<Rightarrow> nat \<Rightarrow> table \<Rightarrow> nest_error + nat \<times> pte_flags" where
  "walk_ref_geometry g va t =
     rbind (leaf_ref_geometry g va t) (\<lambda>(entry, level).
       if \<not> entry_is_valid entry \<or> \<not> entry_is_leaf entry then Inl NotMapped
       else let span = table_span level; base = unat (entry_paddr entry) in
         if base mod span \<noteq> 0 then Inl NotMapped
         else let offset = va mod span - va mod span mod PAGE_SIZE in
           Inr (base + offset, entry_flags entry))"

definition leaf_span_geometry :: "geo \<Rightarrow> nat \<Rightarrow> table \<Rightarrow> nat option" where
  "leaf_span_geometry g va t =
     (case leaf_ref_geometry g va t of
        Inl _ \<Rightarrow> None
      | Inr (entry, level) \<Rightarrow>
          if entry_is_valid entry \<and> entry_is_leaf entry then Some (table_span level) else None)"

text \<open>The walk over physical memory; \<open>mem\<close> is the entry stored at a physical address.\<close>

fun walk_raw_loop ::
  "(nat \<Rightarrow> pte) \<Rightarrow> (nat \<Rightarrow> bool) \<Rightarrow> nat \<Rightarrow> nat \<Rightarrow> nat \<Rightarrow> (nat \<times> pte_flags) option" where
  "walk_raw_loop mem ok va 0 tbl = None"
| "walk_raw_loop mem ok va (Suc level) tbl =
     (let entry = mem (tbl + vpn va level * 8) in
      if \<not> entry_is_valid entry then None
      else if entry_is_leaf entry then
        let span = table_span level; base = unat (entry_paddr entry) in
        if base mod span \<noteq> 0 then None
        else let pa = base + (va mod span - va mod span mod PAGE_SIZE) in
          if ok pa then Some (pa, entry_flags entry) else None
      else let tbl' = unat (entry_paddr entry) in
        if \<not> ok tbl' then None else walk_raw_loop mem ok va level tbl')"

definition walk_raw :: "geo \<Rightarrow> (nat \<Rightarrow> pte) \<Rightarrow> (nat \<Rightarrow> bool) \<Rightarrow> nat \<Rightarrow> nat \<Rightarrow> (nat \<times> pte_flags) option" where
  "walk_raw g mem ok root va = (if \<not> ok root then None else walk_raw_loop mem ok va (levels g) root)"

section \<open>Mapping a range\<close>

text \<open>The level a chunk is mapped at: the largest one its size and alignment allow.\<close>

fun pick_target :: "nat \<Rightarrow> nat \<Rightarrow> nat \<Rightarrow> nat \<Rightarrow> nat" where
  "pick_target left v p 0 = 0"
| "pick_target left v p (Suc target) =
     (if left < table_span (Suc target) \<or> v mod table_span (Suc target) \<noteq> 0
         \<or> p mod table_span (Suc target) \<noteq> 0
      then pick_target left v p target else Suc target)"

text \<open>The inner loop of \<open>prepare_range_geometry\<close>; the result is the level it stopped at.\<close>

fun prepare_slot ::
  "geo \<Rightarrow> nat \<Rightarrow> nat \<Rightarrow> table \<Rightarrow> table_frames \<Rightarrow> ((nest_error + nat) \<times> table \<times> table_frames) option" where
  "prepare_slot g v target t fs =
     (case entry_at True v target (\<lambda>e. e) (levels g - 1) t fs of
        None \<Rightarrow> None
      | Some (Inl e, t', fs') \<Rightarrow> Some (Inl e, t', fs')
      | Some (Inr entry, t', fs') \<Rightarrow>
          if \<not> entry_is_valid entry then Some (Inr target, t', fs')
          else if entry_is_leaf entry then Some (Inl AlreadyMapped, t', fs')
          else case target of
                 0 \<Rightarrow> Some (Inl AlreadyMapped, t', fs')
               | Suc below \<Rightarrow> prepare_slot g v below t' fs')"

lemma table_span_pos [simp]: "0 < table_span l"
  by (simp add: table_span_def)

function prepare_range_loop ::
  "geo \<Rightarrow> nat \<Rightarrow> nat \<Rightarrow> nat \<Rightarrow> nat \<Rightarrow> table \<Rightarrow> table_frames
     \<Rightarrow> ((nest_error + unit) \<times> table \<times> table_frames) option" where
  "prepare_range_loop g va pa sz offset t fs =
     (if \<not> offset < sz then Some (Inr (), t, fs)
      else case prepare_slot g (va + offset)
                  (pick_target (sz - offset) (va + offset) (pa + offset) (min 2 (levels g - 1))) t fs of
             None \<Rightarrow> None
           | Some (Inl e, t', fs') \<Rightarrow> Some (Inl e, t', fs')
           | Some (Inr level, t', fs') \<Rightarrow>
               prepare_range_loop g va pa sz (offset + table_span level) t' fs')"
  by pat_completeness auto
termination
  by (relation "measure (\<lambda>(g, va, pa, sz, offset, t, fs). sz - offset)") (auto simp: diff_less_mono2)

declare prepare_range_loop.simps [simp del]

definition prepare_range_geometry ::
  "geo \<Rightarrow> nat \<Rightarrow> nat \<Rightarrow> nat \<Rightarrow> table \<Rightarrow> table_frames
     \<Rightarrow> ((nest_error + unit) \<times> table \<times> table_frames) option" where
  "prepare_range_geometry g va pa sz t fs =
     (if page_offset va \<noteq> 0 \<or> \<not> phys_is_aligned pa \<or> sz = 0 \<or> sz mod PAGE_SIZE \<noteq> 0
      then Some (Inl NotAligned, t, fs)
      else prepare_range_loop g va pa sz 0 t fs)"

function map_range_loop ::
  "geo \<Rightarrow> nat \<Rightarrow> nat \<Rightarrow> nat \<Rightarrow> pte_flags \<Rightarrow> nat \<Rightarrow> table \<Rightarrow> table option" where
  "map_range_loop g va pa sz flags offset t =
     (if \<not> offset < sz then Some t
      else
        let target = pick_target (sz - offset) (va + offset) (pa + offset) (min 2 (levels g - 1)) in
        case entry_at False (va + offset) target
               (\<lambda>_. entry_set (word_of_nat ((pa + offset) div 2 ^ PAGE_SHIFT)) (flags OR PTE_V))
               (levels g - 1) t [] of
          None \<Rightarrow> None
        | Some (Inl e, _, _) \<Rightarrow> None
        | Some (Inr entry, t', _) \<Rightarrow>
            if entry_is_valid entry then None
            else map_range_loop g va pa sz flags (offset + table_span target) t')"
  by pat_completeness auto
termination
  by (relation "measure (\<lambda>(g, va, pa, sz, flags, offset, t). sz - offset)") (auto simp: diff_less_mono2)

declare map_range_loop.simps [simp del]

definition map_range_prepared_geometry ::
  "geo \<Rightarrow> nat \<Rightarrow> nat \<Rightarrow> nat \<Rightarrow> pte_flags \<Rightarrow> table \<Rightarrow> table option" where
  "map_range_prepared_geometry g va pa sz flags t =
     (if page_offset va \<noteq> 0 \<or> \<not> phys_is_aligned pa then None
      else map_range_loop g va pa sz flags 0 t)"

definition with_permissions :: "pte_flags \<Rightarrow> pte \<Rightarrow> pte" where
  "with_permissions flags e =
     entry_set_flags ((entry_flags e AND NOT (PTE_R OR PTE_W OR PTE_X)) OR flags) e"

definition set_permissions_prepared_geometry :: "geo \<Rightarrow> nat \<Rightarrow> pte_flags \<Rightarrow> table \<Rightarrow> table option" where
  "set_permissions_prepared_geometry g va flags t =
     (case entry_at False va 0 (with_permissions flags) (levels g - 1) t [] of
        Some (Inr entry, t', _) \<Rightarrow>
          if entry_is_valid entry \<and> entry_is_leaf entry then Some t' else None
      | _ \<Rightarrow> None)"

section \<open>Unmapping a range\<close>

text \<open>The loop over the slots of one node; \<open>sub\<close> handles the child below.\<close>

fun clear_slots ::
  "nat \<Rightarrow> (nat \<Rightarrow> table \<Rightarrow> table option) \<Rightarrow> nat \<Rightarrow> nat \<Rightarrow> nat \<Rightarrow> nat list \<Rightarrow> table \<Rightarrow> table option" where
  "clear_slots level sub node_va start end [] t = Some t"
| "clear_slots level sub node_va start end (slot # ss) (Table p es cs) =
     (let entry = es ! slot; base = node_va + slot * table_span level in
      if \<not> entry_is_valid entry then clear_slots level sub node_va start end ss (Table p es cs)
      else if entry_is_leaf entry then
        if start \<le> base \<and> base + table_span level \<le> end
        then clear_slots level sub node_va start end ss (Table p (es[slot := entry_clear]) cs)
        else None
      else case map_of cs slot of
             None \<Rightarrow> clear_slots level sub node_va start end ss (Table p es cs)
           | Some child \<Rightarrow>
               (case sub base child of
                  None \<Rightarrow> None
                | Some child' \<Rightarrow>
                    clear_slots level sub node_va start end ss (Table p es (AList.update slot child' cs))))"

definition clear_node ::
  "nat \<Rightarrow> (nat \<Rightarrow> table \<Rightarrow> table option) \<Rightarrow> nat \<Rightarrow> nat \<Rightarrow> nat \<Rightarrow> table \<Rightarrow> table option" where
  "clear_node level sub start end node_va t =
     (let span = table_span level; node_end = node_va + span * 512 in
      if end \<le> node_va \<or> start \<ge> node_end then Some t
      else
        let first = (max start node_va - node_va) div span;
            lst = (min end node_end - node_va - 1) div span in
        clear_slots level sub node_va start end [first ..< lst + 1] t)"

primrec clear_leaf_range :: "nat \<Rightarrow> nat \<Rightarrow> nat \<Rightarrow> nat \<Rightarrow> table \<Rightarrow> table option" where
  "clear_leaf_range 0 = (\<lambda>start end. clear_node 0 (\<lambda>_ _. None) start end)"
| "clear_leaf_range (Suc level) = (\<lambda>start end.
     clear_node (Suc level) (clear_leaf_range level start end) start end)"

definition unmap_prepared_geometry :: "geo \<Rightarrow> nat \<Rightarrow> nat \<Rightarrow> table \<Rightarrow> table option" where
  "unmap_prepared_geometry g va sz t =
     (let start = va mod 2 ^ va_bits g in clear_leaf_range (levels g - 1) start (start + sz) 0 t)"

definition unmap_keep_tables_geometry ::
  "geo \<Rightarrow> nat \<Rightarrow> nat \<Rightarrow> table \<Rightarrow> table_frames \<Rightarrow> ((nest_error + unit) \<times> table \<times> table_frames) option" where
  "unmap_keep_tables_geometry g va sz t fs =
     (case prepare_with g va sz t fs of
        None \<Rightarrow> None
      | Some (Inl e, t', fs') \<Rightarrow> Some (Inl e, t', fs')
      | Some (Inr _, t', fs') \<Rightarrow>
          map_option (\<lambda>t''. (Inr (), t'', fs')) (unmap_prepared_geometry g va sz t'))"

text \<open>
  Pruning handles every child exactly once, in the state it had; \<open>prune_loop\<close> runs
  over the slots with the outcome for the child there (is it empty, the pruned child,
  the tables retired below it).
\<close>

function prune_loop ::
  "pte list \<Rightarrow> nat \<Rightarrow> (nat \<times> bool \<times> table \<times> table list) list \<Rightarrow> table list
     \<Rightarrow> pte list \<times> (nat \<times> table) list \<times> table list" where
  "prune_loop es index rs retired =
     (if index < length rs then
        (case rs ! index of
           (slot, vacant, child, below) \<Rightarrow>
             if vacant then prune_loop (es[slot := entry_clear]) index (vec_swap_remove index rs)
                             (retired @ below @ [child])
             else prune_loop es (index + 1) rs (retired @ below))
      else (es, map (\<lambda>(slot, _, child, _). (slot, child)) rs, retired))"
  by pat_completeness auto
termination
  by (relation "measure (\<lambda>(es, index, rs, retired). length rs - index)")
     (auto simp: vec_swap_remove_def)

declare prune_loop.simps [simp del]

fun prune_empty :: "table \<Rightarrow> bool \<times> table \<times> table list" where
  "prune_empty (Table p es cs) =
     (case prune_loop es 0 (map (\<lambda>(slot, c). (slot, prune_empty c)) cs) [] of
        (es', cs', retired) \<Rightarrow> (\<forall>e \<in> set es'. \<not> entry_is_valid e, Table p es' cs', retired))"

definition reclaim_empty_tables :: "table \<Rightarrow> table list \<Rightarrow> table \<times> table list" where
  "reclaim_empty_tables t retired = (case prune_empty t of (_, t', below) \<Rightarrow> (t', retired @ below))"

section \<open>Bits of an entry\<close>

lemma PTE_ALL_mask: "PTE_ALL = mask 8"
  by (simp add: flag_defs mask_eq_exp_minus_1)

lemma FLAGS_MASK_mask: "FLAGS_MASK = mask 10"
  by (simp add: FLAGS_MASK_def mask_eq_exp_minus_1)

lemma entry_flags_take: "entry_flags e = take_bit 8 e"
  by (rule bit_word_eqI)
     (auto simp: entry_flags_def PTE_ALL_mask FLAGS_MASK_mask bit_simps)

lemma flags_contains_1: "flags_contains w 1 \<longleftrightarrow> bit w 0"
  by (simp add: flags_contains_def and_one_eq odd_iff_mod_2_eq_one bit_0)

lemma entry_valid_bit: "entry_is_valid e \<longleftrightarrow> bit e 0"
  by (simp add: entry_is_valid_def PTE_V_def flags_contains_1 entry_flags_take bit_take_bit_iff)

lemma rwx_bits: "PTE_R OR PTE_W OR PTE_X = 0xE"
  by (simp add: flag_defs)

lemma bit_14: "bit (0xE :: 64 word) n \<longleftrightarrow> n = 1 \<or> n = 2 \<or> n = 3"
proof -
  have eq: "(0xE :: 64 word) = 2 ^ 1 OR 2 ^ 2 OR 2 ^ 3" by simp
  show ?thesis unfolding eq bit_or_iff bit_exp_iff by auto
qed

lemma entry_leaf_bit: "entry_is_leaf e \<longleftrightarrow> bit e 1 \<or> bit e 2 \<or> bit e 3"
  unfolding entry_is_leaf_def flags_intersects_def rwx_bits entry_flags_take
    bit_eq_iff [of "take_bit 8 e AND 0xE" 0] bit_and_iff bit_take_bit_iff bit_14
  by (auto intro: exI [of _ "Suc 0"] exI [of _ "2 :: nat"] exI [of _ "3 :: nat"])

lemma low_flags: "take_bit 8 fl = fl \<Longrightarrow> bit fl n \<Longrightarrow> n < 8" for fl :: "64 word"
  by (metis bit_take_bit_iff)

lemma low_ppn: "unat p < 2 ^ 52 \<Longrightarrow> bit p n \<Longrightarrow> n < 52" for p :: "64 word"
proof (rule ccontr)
  assume p: "unat p < 2 ^ 52" "bit p n" "\<not> n < 52"
  then have "odd (unat p div 2 ^ n)"     using bit_unsigned_iff [of p n, where ?'a = nat] by (simp add: bit_iff_odd)
  then have "2 ^ n \<le> unat p" by (metis div_less even_zero not_le)
  moreover have "(2::nat) ^ 52 \<le> 2 ^ n" using p(3) by (intro power_increasing) auto
  ultimately show False using p(1) by linarith
qed

lemma bit_entry_set:
  "bit (entry_set p fl) n \<longleftrightarrow> n < 64 \<and> 10 \<le> n \<and> bit p (n - 10) \<or> bit fl n"
  by (auto simp: entry_set_def bit_or_iff bit_push_bit_iff)

lemma entry_set_bit0: "n < 10 \<Longrightarrow> bit (entry_set p fl) n \<longleftrightarrow> bit fl n"
  by (auto simp: bit_entry_set)

lemma bit_entry_set_flags:
  "take_bit 8 fl = fl \<Longrightarrow>
     bit (entry_set_flags fl e) n \<longleftrightarrow> (if n < 10 then bit fl n else bit e n)"
  by (auto simp: entry_set_flags_def FLAGS_MASK_mask bit_or_iff bit_and_iff bit_not_iff_eq bit_mask_iff
      dest: low_flags bit_imp_le_length)

lemma entry_set_flags_of: "take_bit 8 fl = fl \<Longrightarrow> entry_flags (entry_set p fl) = fl"
  unfolding entry_flags_take
  by (rule bit_word_eqI) (auto simp: bit_take_bit_iff entry_set_bit0 dest: low_flags)

lemma entry_ppn_set:
  "take_bit 8 fl = fl \<Longrightarrow> unat p < 2 ^ 52 \<Longrightarrow> entry_ppn (entry_set p fl) = p"
proof (rule bit_word_eqI)
  fix n
  assume fl: "take_bit 8 fl = fl" and "unat p < 2 ^ 52" and n: "n < LENGTH(64)"
  then have "bit p n \<Longrightarrow> n < 52" by (blast dest: low_ppn)
  moreover have "\<not> bit fl (10 + n)" using low_flags [OF fl, of "10 + n"] by auto
  ultimately show "bit (entry_ppn (entry_set p fl)) n \<longleftrightarrow> bit p n"
    using n by (auto simp: entry_ppn_def bit_drop_bit_eq bit_entry_set)
qed

lemma entry_paddr_nat: "unat (entry_ppn e) < 2 ^ 52 \<Longrightarrow> unat (entry_paddr e) = unat (entry_ppn e) * PAGE_SIZE"
  by (simp add: entry_paddr_def PAGE_SIZE_def PAGE_SHIFT_def push_bit_eq_mult unat_word_ariths)

lemma entry_set_flags_flags: "take_bit 8 fl = fl \<Longrightarrow> entry_flags (entry_set_flags fl e) = fl"
  unfolding entry_flags_take
  by (rule bit_word_eqI) (auto simp: bit_take_bit_iff bit_entry_set_flags dest: low_flags)

lemma entry_set_flags_ppn: "take_bit 8 fl = fl \<Longrightarrow> entry_ppn (entry_set_flags fl e) = entry_ppn e"
  unfolding entry_ppn_def
  by (rule bit_word_eqI) (simp add: bit_drop_bit_eq bit_entry_set_flags)

lemma entry_zero [simp]: "\<not> entry_is_valid 0" "\<not> entry_is_leaf 0" "\<not> entry_is_branch 0"
  by (simp_all add: entry_valid_bit entry_leaf_bit entry_is_branch_def)

lemma branch_entry [simp]: "entry_is_branch (entry_set p PTE_V)"
  by (simp add: entry_is_branch_def entry_valid_bit entry_leaf_bit entry_set_bit0 PTE_V_def bit_1_iff)

section \<open>The meaning of a table\<close>

text \<open>
  Pages are numbered inside the address space; the slot of page \<open>x\<close> in a table of
  level \<open>l\<close> is digit \<open>l\<close> of \<open>x\<close> in base 512. \<open>mp\<close> is the valid leaf that covers
  a page and its level, \<open>page_map\<close> the physical page and the flags it gives.
\<close>

definition digit :: "nat \<Rightarrow> nat \<Rightarrow> nat" where
  "digit l x = x div 512 ^ l mod 512"

definition page_of :: "geo \<Rightarrow> nat \<Rightarrow> nat" where
  "page_of g va = va mod 2 ^ va_bits g div PAGE_SIZE"

fun cell :: "nat \<Rightarrow> nat \<Rightarrow> table \<Rightarrow> pte \<times> nat" where
  "cell x level (Table p es cs) =
     (let entry = es ! digit level x in
      if \<not> entry_is_branch entry then (entry, level)
      else case level of
             0 \<Rightarrow> (0, 0)
           | Suc below \<Rightarrow> (case map_of cs (digit level x) of
                            None \<Rightarrow> (0, 0)
                          | Some child \<Rightarrow> cell x below child))"

definition mp :: "nat \<Rightarrow> nat \<Rightarrow> table \<Rightarrow> (pte \<times> nat) option" where
  "mp x level t = (case cell x level t of (e, l) \<Rightarrow> if entry_is_valid e then Some (e, l) else None)"

definition page_map :: "nat \<Rightarrow> table \<Rightarrow> nat \<Rightarrow> (nat \<times> pte_flags) option" where
  "page_map level t x = map_option (\<lambda>(e, l). (unat (entry_ppn e) + x mod 512 ^ l, entry_flags e)) (mp x level t)"

definition leaf_ok :: "nat \<Rightarrow> pte \<Rightarrow> bool" where
  "leaf_ok level e \<longleftrightarrow> (entry_is_valid e \<and> entry_is_leaf e \<longrightarrow>
     unat (entry_ppn e) mod 512 ^ level = 0 \<and> unat (entry_ppn e) + 512 ^ level \<le> 2 ^ 52)"

fun wf_table :: "nat \<Rightarrow> table \<Rightarrow> bool" where
  "wf_table level (Table p es cs) \<longleftrightarrow>
     length es = 512 \<and> p < 2 ^ 52 \<and> distinct (map fst cs)
   \<and> fst ` set cs = {i. i < 512 \<and> entry_is_branch (es ! i)}
   \<and> (\<forall>i < 512. leaf_ok level (es ! i))
   \<and> (case level of
        0 \<Rightarrow> cs = []
      | Suc below \<Rightarrow> \<forall>(i, c) \<in> set cs. wf_table below c \<and> unat (entry_ppn (es ! i)) = tb_ppn c)"

declare cell.simps [simp del] wf_table.simps [simp del]

lemma digit_less [simp]: "digit l x < 512"
  by (simp add: digit_def)

lemma geo_bits: "geo_ok g \<Longrightarrow> (2::nat) ^ va_bits g = PAGE_SIZE * 512 ^ levels g"
  by (simp add: geo_ok_def PAGE_SIZE_def PAGE_SHIFT_def power_add power_mult)

lemma page_of_less: "geo_ok g \<Longrightarrow> page_of g va < 512 ^ levels g"
  by (simp add: page_of_def geo_bits less_mult_imp_div_less mult.commute PAGE_SIZE_def)

lemma digit_mod: "l < n \<Longrightarrow> digit l (x mod 512 ^ n) = digit l x"
proof -
  assume "l < n"
  then have "(512::nat) ^ n = 512 ^ l * (512 * 512 ^ (n - Suc l))"
    by (metis Suc_diff_Suc le_add_diff_inverse less_imp_le_nat power_Suc power_add)
  then have "x mod 512 ^ n div 512 ^ l = x div 512 ^ l mod (512 * 512 ^ (n - Suc l))"
    by (simp add: mod_mult2_eq)
  then show ?thesis by (simp add: digit_def mod_mod_cancel)
qed

lemma vpn_digit: "geo_ok g \<Longrightarrow> l < levels g \<Longrightarrow> vpn va l = digit l (page_of g va)"
proof -
  assume g: "geo_ok g" "l < levels g"
  have "page_of g va = va div PAGE_SIZE mod 512 ^ levels g"
    by (simp add: page_of_def geo_bits [OF g(1)] mod_mult2_eq PAGE_SIZE_def)
  moreover have "vpn va l = digit l (va div PAGE_SIZE)"
    by (simp add: vpn_def digit_def PAGE_SIZE_def PAGE_SHIFT_def power_add div_mult2_eq
        power_mult mult.commute [of l 9])
  ultimately show ?thesis using digit_mod [OF g(2)] by simp
qed

lemma wf_child:
  assumes "wf_table level (Table p es cs)" and "i < 512" and "entry_is_branch (es ! i)"
  obtains below c where "level = Suc below" and "map_of cs i = Some c" and "wf_table below c"
    and "tb_ppn c = unat (entry_ppn (es ! i))"
proof -
  have "i \<in> fst ` set cs" using assms by (auto simp: wf_table.simps)
  then obtain c where c: "(i, c) \<in> set cs" by auto
  moreover have "distinct (map fst cs)" using assms(1) by (simp add: wf_table.simps)
  ultimately have m: "map_of cs i = Some c" by simp
  then obtain below where "level = Suc below"
    using assms(1) by (cases level) (auto simp: wf_table.simps)
  with c m assms(1) show thesis by (intro that [of below c]) (auto simp: wf_table.simps)
qed

lemma wf_no_child:
  "wf_table level (Table p es cs) \<Longrightarrow> i < 512 \<Longrightarrow> \<not> entry_is_branch (es ! i) \<Longrightarrow> map_of cs i = None"
  by (auto simp: wf_table.simps map_of_eq_None_iff)

lemma mp_here: "\<not> entry_is_branch (es ! digit level x) \<Longrightarrow>
    mp x level (Table p es cs) = (if entry_is_valid (es ! digit level x) then Some (es ! digit level x, level) else None)"
  by (simp add: mp_def cell.simps)

lemma mp_below: "entry_is_branch (es ! digit (Suc l) x) \<Longrightarrow> map_of cs (digit (Suc l) x) = Some c \<Longrightarrow>
    mp x (Suc l) (Table p es cs) = mp x l c"
  by (simp add: mp_def cell.simps)

lemma mp_leaf: "mp x level t = Some (e, l) \<Longrightarrow> wf_table level t \<Longrightarrow>
    entry_is_valid e \<and> entry_is_leaf e \<and> leaf_ok l e \<and> l \<le> level"
proof (induction level arbitrary: t)
  case 0
  then obtain p es cs where t: "t = Table p es cs" by (cases t)
  show ?case
  proof (cases "entry_is_branch (es ! digit 0 x)")
    case True
    from wf_child [OF _ digit_less True] 0(2) t show ?thesis by blast
  next
    case False
    with 0 t show ?thesis by (auto simp: mp_here entry_is_branch_def wf_table.simps split: if_splits)
  qed
next
  case (Suc n)
  then obtain p es cs where t: "t = Table p es cs" by (cases t)
  show ?case
  proof (cases "entry_is_branch (es ! digit (Suc n) x)")
    case True
    from wf_child [OF Suc.prems(2) [unfolded t] digit_less True]
    obtain c where "map_of cs (digit (Suc n) x) = Some c" "wf_table n c" by auto
    with True Suc.prems t Suc.IH [of c] show ?thesis by (simp add: mp_below)
  next
    case False
    with Suc.prems t show ?thesis by (auto simp: mp_here entry_is_branch_def wf_table.simps split: if_splits)
  qed
qed

lemma span_pages: "table_span l = PAGE_SIZE * 512 ^ l"
  by (simp add: table_span_def PAGE_SIZE_def PAGE_SHIFT_def power_add power_mult)

lemma page_of_mod: "geo_ok g \<Longrightarrow> l \<le> levels g \<Longrightarrow> page_of g va mod 512 ^ l = va div PAGE_SIZE mod 512 ^ l"
proof -
  assume g: "geo_ok g" "l \<le> levels g"
  have "page_of g va = va div PAGE_SIZE mod 512 ^ levels g"
    by (simp add: page_of_def geo_bits [OF g(1)] mod_mult2_eq PAGE_SIZE_def)
  then show ?thesis using g(2) by (simp add: mod_mod_cancel le_imp_power_dvd)
qed

lemma span_offset: "va mod table_span l - va mod table_span l mod PAGE_SIZE = va div PAGE_SIZE mod 512 ^ l * PAGE_SIZE"
  by (simp add: span_pages mod_mult2_eq)

lemma leaf_ref_cell:
  "geo_ok g \<Longrightarrow> level < levels g \<Longrightarrow> wf_table level t \<Longrightarrow> leaf_ref va level t = Inr (cell (page_of g va) level t)"
proof (induction level arbitrary: t)
  case 0
  obtain p es cs where t: "t = Table p es cs" by (cases t)
  have "\<not> entry_is_branch (es ! digit 0 (page_of g va))"
    using wf_child [of 0 p es cs "digit 0 (page_of g va)"] 0 t by auto
  with 0 t show ?case by (auto simp: cell.simps vpn_digit entry_is_branch_def)
next
  case (Suc n)
  obtain p es cs where t: "t = Table p es cs" by (cases t)
  let ?i = "digit (Suc n) (page_of g va)"
  show ?case
  proof (cases "entry_is_branch (es ! ?i)")
    case True
    from wf_child [OF Suc.prems(3) [unfolded t] digit_less True]
    obtain c where "map_of cs ?i = Some c" "wf_table n c" by auto
    with True Suc t show ?thesis by (auto simp: cell.simps vpn_digit entry_is_branch_def)
  next
    case False
    with Suc t show ?thesis by (auto simp: cell.simps vpn_digit entry_is_branch_def)
  qed
qed

lemma wf_cell_leaf: "wf_table level t \<Longrightarrow> \<not> entry_is_branch (fst (cell x level t)) \<and> snd (cell x level t) \<le> level"
proof (induction level arbitrary: t)
  case 0
  obtain p es cs where t: "t = Table p es cs" by (cases t)
  then show ?case by (simp add: cell.simps Let_def)
next
  case (Suc n)
  obtain p es cs where t: "t = Table p es cs" by (cases t)
  show ?case
  proof (cases "entry_is_branch (es ! digit (Suc n) x)")
    case True
    from wf_child [OF Suc.prems [unfolded t] digit_less True]
    obtain c where "map_of cs (digit (Suc n) x) = Some c" "wf_table n c" by auto
    with True Suc.IH [of c] t show ?thesis by (simp add: cell.simps)
  next
    case False
    with t show ?thesis by (simp add: cell.simps)
  qed
qed

lemma leaf_ref_geometry_cell:
  "geo_ok g \<Longrightarrow> levels g = Suc n \<Longrightarrow> wf_table n t \<Longrightarrow>
     leaf_ref_geometry g va t = Inr (cell (page_of g va) n t)"
  using leaf_ref_cell [of g n] by (simp add: leaf_ref_geometry_def)

lemma leaf_ok_aligned:
  assumes "leaf_ok l e" and "entry_is_valid e" and "entry_is_leaf e"
  shows "unat (entry_paddr e) = unat (entry_ppn e) * PAGE_SIZE" and "unat (entry_paddr e) mod table_span l = 0"
proof -
  have "0 < (512 :: nat) ^ l" by simp
  then have *: "unat (entry_ppn e) mod 512 ^ l = 0" "unat (entry_ppn e) < 2 ^ 52"
    using assms unfolding leaf_ok_def by linarith+
  from *(2) show pa: "unat (entry_paddr e) = unat (entry_ppn e) * PAGE_SIZE" by (rule entry_paddr_nat)
  show "unat (entry_paddr e) mod table_span l = 0"
    using *(1) by (simp add: pa span_pages mult.commute)
qed

text \<open>What a walk returns, in terms of the page map.\<close>

lemma walk_ref_page_map:
  assumes g: "geo_ok g" and n: "levels g = Suc n" and wf: "wf_table n t"
  shows "walk_ref_geometry g va t =
    (case page_map n t (page_of g va) of
       None \<Rightarrow> Inl NotMapped | Some (pp, fl) \<Rightarrow> Inr (pp * PAGE_SIZE, fl))"
proof -
  obtain e l where c: "cell (page_of g va) n t = (e, l)" by fastforce
  have nb: "\<not> entry_is_branch e" "l \<le> n" using wf_cell_leaf [OF wf] c by (metis fst_conv, metis snd_conv)
  show ?thesis
  proof (cases "entry_is_valid e")
    case True
    then have m: "mp (page_of g va) n t = Some (e, l)" by (simp add: mp_def c)
    note ok = mp_leaf [OF m wf]
    have pa: "unat (entry_paddr e) = unat (entry_ppn e) * PAGE_SIZE" "unat (entry_paddr e) mod table_span l = 0"
      using leaf_ok_aligned ok by blast+
    have "unat (entry_paddr e) + (va mod table_span l - va mod table_span l mod PAGE_SIZE)
        = (unat (entry_ppn e) + page_of g va mod 512 ^ l) * PAGE_SIZE"
      using page_of_mod [OF g, of l va] nb(2) n by (simp add: span_offset pa(1) algebra_simps)
    with ok pa m show ?thesis
      by (simp add: walk_ref_geometry_def leaf_ref_geometry_cell [OF g n wf] c page_map_def)
  next
    case False
    then show ?thesis
      by (simp add: walk_ref_geometry_def leaf_ref_geometry_cell [OF g n wf] c page_map_def mp_def)
  qed
qed

section \<open>Changing one slot of a node\<close>

lemma wf_TableI:
  assumes "length es = 512" and "p < 2 ^ 52" and "distinct (map fst cs)"
    and "fst ` set cs = {i. i < 512 \<and> entry_is_branch (es ! i)}"
    and "\<And>i. i < 512 \<Longrightarrow> leaf_ok level (es ! i)" and "level = 0 \<Longrightarrow> cs = []"
    and "\<And>below i c. level = Suc below \<Longrightarrow> (i, c) \<in> set cs \<Longrightarrow>
           wf_table below c \<and> unat (entry_ppn (es ! i)) = tb_ppn c"
  shows "wf_table level (Table p es cs)"
  unfolding wf_table.simps using assms by (simp split: nat.splits prod.splits) blast

lemma wf_TableD:
  assumes "wf_table level (Table p es cs)"
  shows "length es = 512" and "p < 2 ^ 52" and "distinct (map fst cs)"
    and "fst ` set cs = {i. i < 512 \<and> entry_is_branch (es ! i)}"
    and "i < 512 \<Longrightarrow> leaf_ok level (es ! i)" and "level = 0 \<Longrightarrow> cs = []"
    and "level = Suc below \<Longrightarrow> (i, c) \<in> set cs \<Longrightarrow> wf_table below c \<and> unat (entry_ppn (es ! i)) = tb_ppn c"
  using assms unfolding wf_table.simps by auto

lemma map_fst_update: "map_of cs i = Some c \<Longrightarrow> map fst (AList.update i c' cs) = map fst cs"
  by (induction cs) auto

lemma set_update:
  "distinct (map fst cs) \<Longrightarrow> map_of cs i = Some c \<Longrightarrow>
     set (AList.update i c' cs) = insert (i, c') (set cs - {(i, c)})"
  by (induction cs) (auto split: if_splits dest: map_of_SomeD)

lemma put_child:
  assumes wf: "wf_table (Suc l) (Table p es cs)" and i: "map_of cs i = Some c"
    and c': "wf_table l c'" "tb_ppn c' = tb_ppn c"
  shows "wf_table (Suc l) (Table p es (AList.update i c' cs))"
    and "mp x (Suc l) (Table p es (AList.update i c' cs))
       = (if digit (Suc l) x = i then mp x l c' else mp x (Suc l) (Table p es cs))"
proof -
  note w = wf_TableD [OF wf]
  have mem: "(i, c) \<in> set cs" using i by (rule map_of_SomeD)
  then have "i \<in> fst ` set cs" by force
  then have br: "i < 512" "entry_is_branch (es ! i)" unfolding w(4) by auto
  have keys: "fst ` set (AList.update i c' cs) = fst ` set cs"
    using map_fst_update [OF i] by (metis list.set_map)
  show "wf_table (Suc l) (Table p es (AList.update i c' cs))"
  proof (rule wf_TableI)
    show "fst ` set (AList.update i c' cs) = {i. i < 512 \<and> entry_is_branch (es ! i)}"
      unfolding keys by (rule w(4))
    show "wf_table below d \<and> unat (entry_ppn (es ! j)) = tb_ppn d"
      if "Suc l = Suc below" "(j, d) \<in> set (AList.update i c' cs)" for below j d
      using that w(7) [of l i c] w(7) [of l j d] mem c' by (auto simp: set_update [OF w(3) i])
  qed (use w map_fst_update [OF i] in auto)
  show "mp x (Suc l) (Table p es (AList.update i c' cs))
       = (if digit (Suc l) x = i then mp x l c' else mp x (Suc l) (Table p es cs))"
    using br by (simp add: mp_def cell.simps Let_def update_conv')
qed

lemma nth_update_other: "\<forall>(j, d) \<in> set cs. j \<noteq> i \<Longrightarrow> (j, d) \<in> set cs \<Longrightarrow> es[i := e] ! j = es ! j" for es :: "pte list"
  by (metis (mono_tags, lifting) case_prodD nth_list_update_neq)

lemma grow_child:
  assumes wf: "wf_table (Suc l) (Table p es cs)" and i: "i < 512" "\<not> entry_is_branch (es ! i)"
    and c: "wf_table l c" "tb_ppn c = q"
  shows "wf_table (Suc l) (Table p (es[i := entry_set (word_of_nat q) PTE_V]) (cs @ [(i, c)]))"
    and "map_of (cs @ [(i, c)]) i = Some c"
    and "mp x (Suc l) (Table p (es[i := entry_set (word_of_nat q) PTE_V]) (cs @ [(i, c)]))
       = (if digit (Suc l) x = i then mp x l c else mp x (Suc l) (Table p es cs))"
proof -
  let ?e = "entry_set (word_of_nat q) PTE_V"
  note w = wf_TableD [OF wf]
  have q: "q < 2 ^ 52" using c by (cases c) (auto simp: wf_table.simps)
  have no: "i \<notin> fst ` set cs" unfolding w(4) using i by simp
  then have ne: "\<forall>(j, d) \<in> set cs. j \<noteq> i" by force
  have un: "unat (word_of_nat q :: 64 word) = q" using q by (simp add: unsigned_of_nat take_bit_nat_eq_self)
  have "take_bit 8 PTE_V = PTE_V" by (simp add: PTE_V_def)
  then have ppn: "unat (entry_ppn ?e) = q" using q un by (simp add: entry_ppn_set)
  show "wf_table (Suc l) (Table p (es[i := ?e]) (cs @ [(i, c)]))"
  proof (rule wf_TableI)
    have "{j. j < 512 \<and> entry_is_branch (es[i := ?e] ! j)} = insert i {j. j < 512 \<and> entry_is_branch (es ! j)}"
      using i w(1) by (auto simp: nth_list_update)
    then show "fst ` set (cs @ [(i, c)]) = {j. j < 512 \<and> entry_is_branch (es[i := ?e] ! j)}"
      by (simp add: w(4))
    show "leaf_ok (Suc l) (es[i := ?e] ! j)" if "j < 512" for j
      using w(5) [OF that] i(1) w(1) branch_entry [of "word_of_nat q"]
      by (cases "j = i") (simp_all add: leaf_ok_def entry_is_branch_def)
    show "wf_table below d \<and> unat (entry_ppn (es[i := ?e] ! j)) = tb_ppn d"
      if "Suc l = Suc below" "(j, d) \<in> set (cs @ [(i, c)])" for below j d
      using that w(7) [of l j d] c ppn i w(1) nth_update_other [OF ne, of j d]
      by (auto simp: nth_list_update_eq)
  qed (use w no in auto)
  have none: "map_of cs i = None" using no by (simp add: map_of_eq_None_iff)
  then show m: "map_of (cs @ [(i, c)]) i = Some c" by (simp add: map_add_def)
  show "mp x (Suc l) (Table p (es[i := ?e]) (cs @ [(i, c)]))
       = (if digit (Suc l) x = i then mp x l c else mp x (Suc l) (Table p es cs))"
    using w(1) i none by (cases "map_of cs (digit (Suc l) x)")
      (simp_all add: mp_def cell.simps Let_def nth_list_update map_add_def)
qed

lemma put_entry:
  assumes wf: "wf_table level (Table p es cs)" and i: "i < 512" "\<not> entry_is_branch (es ! i)"
    and e: "\<not> entry_is_branch e" "leaf_ok level e"
  shows "wf_table level (Table p (es[i := e]) cs)"
    and "mp x level (Table p (es[i := e]) cs)
       = (if digit level x = i then (if entry_is_valid e then Some (e, level) else None)
          else mp x level (Table p es cs))"
proof -
  note w = wf_TableD [OF wf]
  have "i \<notin> fst ` set cs" unfolding w(4) using i by simp
  then have ne: "\<forall>(j, d) \<in> set cs. j \<noteq> i" by force
  show "wf_table level (Table p (es[i := e]) cs)"
  proof (rule wf_TableI)
    have "{j. j < 512 \<and> entry_is_branch (es[i := e] ! j)} = {j. j < 512 \<and> entry_is_branch (es ! j)}"
      using i e w(1) by (auto simp: nth_list_update)
    then show "fst ` set cs = {j. j < 512 \<and> entry_is_branch (es[i := e] ! j)}" by (simp add: w(4))
    show "leaf_ok level (es[i := e] ! j)" if "j < 512" for j
      using w(5) [OF that] i(1) w(1) e(2) by (cases "j = i") simp_all
    show "wf_table below d \<and> unat (entry_ppn (es[i := e] ! j)) = tb_ppn d"
      if "level = Suc below" "(j, d) \<in> set cs" for below j d
      using that w(7) [of below j d] nth_update_other [OF ne, of j d] by simp
  qed (use w in auto)
  show "mp x level (Table p (es[i := e]) cs)
       = (if digit level x = i then (if entry_is_valid e then Some (e, level) else None)
          else mp x level (Table p es cs))"
    using w(1) i e by (simp add: mp_def cell.simps Let_def nth_list_update)
qed

lemma wf_fresh: "q < 2 ^ 52 \<Longrightarrow> wf_table l (table_leaf q)"
  unfolding table_leaf_def by (rule wf_TableI) (auto simp: leaf_ok_def)

lemma mp_fresh: "mp x l (table_leaf q) = None"
  by (simp add: table_leaf_def mp_here)

section \<open>Reaching an entry\<close>

definition agree :: "nat \<Rightarrow> nat \<Rightarrow> nat \<Rightarrow> nat \<Rightarrow> bool" where
  "agree level target x y \<longleftrightarrow> (\<forall>k. target \<le> k \<and> k \<le> level \<longrightarrow> digit k x = digit k y)"

lemma agree_Suc: "target \<le> l \<Longrightarrow> agree (Suc l) target x y \<longleftrightarrow> digit (Suc l) y = digit (Suc l) x \<and> agree l target x y"
  unfolding agree_def by (metis le_Suc_eq)

lemma agree_here: "agree l l x y \<longleftrightarrow> digit l y = digit l x"
  unfolding agree_def by (metis le_antisym order_refl)

definition as_mp :: "pte \<Rightarrow> nat \<Rightarrow> (pte \<times> nat) option" where
  "as_mp e l = (if entry_is_valid e then Some (e, l) else None)"

text \<open>
  What reaching the slot of page \<open>x\<close> at level \<open>target\<close> does to the tree: an error
  changes no mapping; otherwise exactly the pages of that slot get the new entry.
\<close>

definition entry_result ::
  "bool \<Rightarrow> nat \<Rightarrow> nat \<Rightarrow> nat \<Rightarrow> table \<Rightarrow> (pte \<Rightarrow> pte) \<Rightarrow> nest_error + pte \<Rightarrow> table \<Rightarrow> bool" where
  "entry_result alloc level target x t f r t' \<longleftrightarrow>
     (\<forall>err. r = Inl err \<longrightarrow> wf_table level t' \<and> (\<forall>y. mp y level t' = mp y level t)
        \<and> (err = AlreadyMapped \<and> mp x level t \<noteq> None \<or> err = NotMapped \<and> \<not> alloc \<and> mp x level t = None
           \<or> err = OutOfMemory \<and> alloc))
   \<and> (\<forall>e. r = Inr e \<longrightarrow> leaf_ok target e
        \<and> (entry_is_branch e \<and> f e = e \<longrightarrow> wf_table level t' \<and> (\<forall>y. mp y level t' = mp y level t))
        \<and> (\<not> entry_is_branch e \<longrightarrow> (\<forall>y. agree level target x y \<longrightarrow> mp y level t = as_mp e target))
        \<and> (\<not> entry_is_branch e \<and> \<not> entry_is_branch (f e) \<and> leaf_ok target (f e) \<longrightarrow> wf_table level t'
            \<and> (\<forall>y. mp y level t' = (if agree level target x y then as_mp (f e) target else mp y level t))))"

lemma entry_result_lift:
  assumes r: "entry_result alloc l target x c f r c'" and tl: "target \<le> l"
    and base: "\<And>y. digit (Suc l) y = digit (Suc l) x \<Longrightarrow> mp y (Suc l) t = mp y l c"
    and up: "wf_table l c' \<Longrightarrow> wf_table (Suc l) t'"
      "\<And>y. wf_table l c' \<Longrightarrow> mp y (Suc l) t' = (if digit (Suc l) y = digit (Suc l) x then mp y l c' else mp y (Suc l) t)"
  shows "entry_result alloc (Suc l) target x t f r t'"
proof (cases r)
  case (Inl err)
  then have "wf_table l c'" "\<And>y. mp y l c' = mp y l c" using r by (auto simp: entry_result_def)
  then show ?thesis using r Inl up base by (simp add: entry_result_def)
next
  case (Inr e)
  note r' = r [unfolded entry_result_def Inr, simplified]
  show ?thesis
    unfolding entry_result_def Inr sum.inject agree_Suc [OF tl]
  proof (intro conjI allI impI; clarsimp)
    show "leaf_ok target e" using r' by blast
  next
    assume "entry_is_branch e" "f e = e"
    then show "wf_table (Suc l) t'" using r' up(1) by blast
  next
    fix y assume "entry_is_branch e" "f e = e"
    then have "wf_table l c'" "mp y l c' = mp y l c" using r' by blast+
    then show "mp y (Suc l) t' = mp y (Suc l) t" using up(2) base by simp
  next
    fix y assume "\<not> entry_is_branch e" "digit (Suc l) y = digit (Suc l) x" "agree l target x y"
    then show "mp y (Suc l) t = as_mp e target" using r' base by metis
  next
    assume "\<not> entry_is_branch e" "\<not> entry_is_branch (f e)" "leaf_ok target (f e)"
    then show "wf_table (Suc l) t'" using r' up(1) by blast
  next
    fix y assume f: "\<not> entry_is_branch e" "\<not> entry_is_branch (f e)" "leaf_ok target (f e)"
    then have "wf_table l c'" "mp y l c' = (if agree l target x y then as_mp (f e) target else mp y l c)"
      using r' by blast+
    then show "(digit (Suc l) y = digit (Suc l) x \<and> agree l target x y \<longrightarrow> mp y (Suc l) t' = as_mp (f e) target)
      \<and> ((digit (Suc l) y = digit (Suc l) x \<longrightarrow> \<not> agree l target x y) \<longrightarrow> mp y (Suc l) t' = mp y (Suc l) t)"
      using up(2) base by simp
  qed
qed

definition frames_ok :: "table_frames \<Rightarrow> bool" where
  "frames_ok fs \<longleftrightarrow> (\<forall>q \<in> fst ` set fs. q < 2 ^ 52)"

lemma entry_here:
  assumes "wf_table level (Table p es cs)"
  shows "entry_result alloc level level x (Table p es cs) f (Inr (es ! digit level x))
    (Table p (es[digit level x := f (es ! digit level x)]) cs)"
proof -
  let ?e = "es ! digit level x"
  note w = wf_TableD [OF assms]
  have "leaf_ok level ?e" using w(5) by simp
  moreover have "es[digit level x := ?e] = es" by simp
  moreover have "mp y level (Table p es cs) = as_mp ?e level" if "\<not> entry_is_branch ?e" "digit level y = digit level x" for y
    using that by (simp add: as_mp_def mp_here)
  moreover note put_entry [OF assms digit_less, where e = "f ?e"]
  ultimately show ?thesis
    using assms by (auto simp: entry_result_def agree_here as_mp_def)
qed

lemma entry_at_spec:
  assumes "geo_ok g" and "wf_table level t" and "target \<le> level" and "level < levels g" and "frames_ok fs"
  shows "\<exists>r t' fs'. entry_at alloc va target f level t fs = Some (r, t', fs') \<and> tb_ppn t' = tb_ppn t
    \<and> set fs' \<subseteq> set fs \<and> entry_result alloc level target (page_of g va) t f r t'"
  using assms
proof (induction level arbitrary: t fs)
  case 0
  obtain p es cs where t: "t = Table p es cs" by (cases t)
  show ?case using entry_here [of 0 p es cs alloc "page_of g va" f] 0 t
    by (simp add: vpn_digit [OF 0(1)] Let_def)
next
  case (Suc l)
  obtain p es cs where t: "t = Table p es cs" by (cases t)
  let ?x = "page_of g va" and ?i = "digit (Suc l) (page_of g va)"
  note wf = Suc.prems(2) [unfolded t]
  have idx: "vpn va (Suc l) = ?i" using vpn_digit Suc.prems by blast
  show ?case
  proof (cases "Suc l = target")
    case True
    with entry_here [OF wf, of alloc ?x f] t idx show ?thesis by (simp add: Let_def)
  next
    case False
    then have tl: "target \<le> l" using Suc.prems(3) by simp
    note IH = Suc.IH [OF Suc.prems(1) _ tl Suc_lessD [OF Suc.prems(4)]]
    show ?thesis
    proof (cases "entry_is_branch (es ! ?i)")
      case True
      from wf_child [OF wf digit_less True] obtain c where c: "map_of cs ?i = Some c" "wf_table l c" by auto
      from IH [OF c(2) Suc.prems(5)] obtain r c' fs' where d:
        "entry_at alloc va target f l c fs = Some (r, c', fs')" "tb_ppn c' = tb_ppn c" "set fs' \<subseteq> set fs"
        "entry_result alloc l target ?x c f r c'" by blast
      have "entry_result alloc (Suc l) target ?x t f r (Table p es (AList.update ?i c' cs))"
        using entry_result_lift [OF d(4) tl] put_child [OF wf c(1) _ d(2)] mp_below True c(1) t by auto
      then show ?thesis using d True False c(1) idx t by (auto simp: entry_is_branch_def Let_def)
    next
      case nb: False
      show ?thesis
      proof (cases "entry_is_valid (es ! ?i)")
        case True
        with nb have "entry_result alloc (Suc l) target ?x t f (Inl AlreadyMapped) t"
          using Suc.prems(2) t by (simp add: entry_result_def mp_here)
        then show ?thesis using True nb False idx t by (auto simp: entry_is_branch_def Let_def)
      next
        case inv: False
        have none: "mp y (Suc l) t = None" if "digit (Suc l) y = ?i" for y
          using that nb inv t by (simp add: mp_here)
        show ?thesis
        proof (cases "\<not> alloc \<or> fs = [] \<or> \<not> snd (hd fs)")
          case True
          have "entry_result alloc (Suc l) target ?x t f (Inl (if alloc then OutOfMemory else NotMapped)) t"
            using Suc.prems(2) none by (simp add: entry_result_def)
          then show ?thesis using True inv False idx t by (cases fs) (auto simp: Let_def)
        next
          case al: False
          then obtain q fs1 where fs: "fs = (q, True) # fs1" by (cases fs) auto
          have q: "q < 2 ^ 52" and f1: "frames_ok fs1" using Suc.prems(5) by (auto simp: frames_ok_def fs)
          from IH [OF wf_fresh [OF q] f1] obtain r c' fs' where d:
            "entry_at alloc va target f l (table_leaf q) fs1 = Some (r, c', fs')" "tb_ppn c' = q" "set fs' \<subseteq> set fs1"
            "entry_result alloc l target ?x (table_leaf q) f r c'" by (auto simp: table_leaf_def)
          have lp: "tb_ppn (table_leaf q) = q" by (simp add: table_leaf_def)
          note gr = grow_child [OF wf digit_less nb wf_fresh [OF q] lp]
          let ?t1 = "Table p (es[?i := entry_set (word_of_nat q) PTE_V]) (cs @ [(?i, table_leaf q)])"
          have g1: "wf_table (Suc l) ?t1" "map_of (cs @ [(?i, table_leaf q)]) ?i = Some (table_leaf q)"
            "mp y (Suc l) ?t1 = mp y (Suc l) t" for y
            using gr none [of y] t by (auto simp: mp_fresh)
          let ?t2 = "Table p (es[?i := entry_set (word_of_nat q) PTE_V]) (AList.update ?i c' (cs @ [(?i, table_leaf q)]))"
          have "entry_result alloc (Suc l) target ?x t f r ?t2"
            using entry_result_lift [OF d(4) tl, of t ?t2] put_child [OF g1(1,2), of c'] none d(2) g1(3) lp
            by (simp add: mp_fresh)
          then show ?thesis using d False inv al fs idx t g1(2) by (auto simp: Let_def)
        qed
      qed
    qed
  qed
qed

section \<open>Splitting a large leaf\<close>

text \<open>\<open>t'\<close> maps every page as \<open>t\<close> does, by leaves that are at most as large.\<close>

definition refined :: "nat \<Rightarrow> table \<Rightarrow> table \<Rightarrow> bool" where
  "refined level t t' \<longleftrightarrow> (\<forall>y. page_map level t' y = page_map level t y
     \<and> (\<forall>e l. mp y level t = Some (e, l) \<longrightarrow> (\<exists>e' l'. mp y level t' = Some (e', l') \<and> l' \<le> l)))"

lemma refined_refl [simp]: "refined level t t"
  by (simp add: refined_def)

lemma refined_trans: "refined level t u \<Longrightarrow> refined level u v \<Longrightarrow> refined level t v"
proof -
  assume a: "refined level t u" "refined level u v"
  show ?thesis
    unfolding refined_def
  proof (intro allI conjI impI)
    fix y
    show "page_map level v y = page_map level t y" using a by (simp add: refined_def)
    fix e l
    assume "mp y level t = Some (e, l)"
    then obtain e' l' where "mp y level u = Some (e', l')" "l' \<le> l" using a(1) unfolding refined_def by blast
    moreover from this(1) obtain e'' l'' where "mp y level v = Some (e'', l'')" "l'' \<le> l'"
      using a(2) unfolding refined_def by blast
    ultimately show "\<exists>e' l'. mp y level v = Some (e', l') \<and> l' \<le> l" by auto
  qed
qed

definition split_child :: "nat \<Rightarrow> nat \<Rightarrow> pte \<Rightarrow> table" where
  "split_child q below e = Table q (map (\<lambda>i. entry_set
     (word_of_nat ((unat (entry_paddr e) + i * table_span below) div 2 ^ PAGE_SHIFT))
     (entry_flags e)) [0..<512]) []"

lemma mod_digit: "x mod 512 ^ Suc l = digit l x * 512 ^ l + x mod 512 ^ l"
  using mod_mult2_eq [of x "512 ^ l" 512] by (simp add: digit_def mult.commute)

lemma unat_word_of_nat: "n < 2 ^ 52 \<Longrightarrow> unat (word_of_nat n :: 64 word) = n"
  by (simp add: unsigned_of_nat take_bit_nat_eq_self)

lemma split_entry:
  assumes e: "entry_is_valid e" "entry_is_leaf e" "leaf_ok (Suc l) e" and i: "i < 512"
  defines "c \<equiv> entry_set (word_of_nat ((unat (entry_paddr e) + i * table_span l) div 2 ^ PAGE_SHIFT)) (entry_flags e)"
  shows "unat (entry_ppn c) = unat (entry_ppn e) + i * 512 ^ l" and "entry_flags c = entry_flags e"
    and "entry_is_valid c" and "entry_is_leaf c" and "leaf_ok l c"
proof -
  have al: "unat (entry_ppn e) mod 512 ^ Suc l = 0" "unat (entry_ppn e) + 512 ^ Suc l \<le> 2 ^ 52"
    using e by (auto simp: leaf_ok_def)
  have "i * 512 ^ l + 512 ^ l \<le> 512 * (512::nat) ^ l"
    using mult_le_mono1 [of "i + 1" 512 "512 ^ l"] i by (simp add: add_mult_distrib)
  then have le: "unat (entry_ppn e) + i * 512 ^ l + 512 ^ l \<le> 2 ^ 52"
    using al(2) unfolding power_Suc by linarith
  have "0 < (512::nat) ^ l" by simp
  with le have lt: "unat (entry_ppn e) + i * 512 ^ l < 2 ^ 52" by linarith
  have "(unat (entry_paddr e) + i * table_span l) div 2 ^ PAGE_SHIFT
      = (unat (entry_ppn e) + i * 512 ^ l) * PAGE_SIZE div PAGE_SIZE"
    using leaf_ok_aligned(1) [OF e(3,1,2)]
    by (simp add: span_pages algebra_simps PAGE_SIZE_def PAGE_SHIFT_def)
  then have q: "(unat (entry_paddr e) + i * table_span l) div 2 ^ PAGE_SHIFT = unat (entry_ppn e) + i * 512 ^ l"
    by (simp add: PAGE_SIZE_def)
  note un = unat_word_of_nat [OF lt]
  have fl: "take_bit 8 (entry_flags e) = entry_flags e" by (simp add: entry_flags_take)
  show ppn: "unat (entry_ppn c) = unat (entry_ppn e) + i * 512 ^ l"
    unfolding c_def q by (subst entry_ppn_set [OF fl]) (simp_all only: un lt)
  show f: "entry_flags c = entry_flags e" unfolding c_def by (rule entry_set_flags_of [OF fl])
  show "entry_is_valid c" "entry_is_leaf c"
    using e f by (simp_all add: entry_is_valid_def entry_is_leaf_def)
  have "unat (entry_ppn e) mod 512 ^ l = 0"
    using al(1) by (metis dvd_imp_mod_0 dvd_trans le_imp_power_dvd le_SucI mod_0_imp_dvd order_refl)
  then show "leaf_ok l c" using le by (simp add: leaf_ok_def ppn mod_add_eq)
qed

lemma split_child_ok:
  assumes e: "entry_is_valid e" "entry_is_leaf e" "leaf_ok (Suc l) e" and q: "q < 2 ^ 52"
  shows "wf_table l (split_child q l e)" and "tb_ppn (split_child q l e) = q"
    and "\<exists>c. mp x l (split_child q l e) = Some (c, l)
           \<and> unat (entry_ppn c) + x mod 512 ^ l = unat (entry_ppn e) + x mod 512 ^ Suc l \<and> entry_flags c = entry_flags e"
proof -
  note se = split_entry [OF e]
  show "wf_table l (split_child q l e)"
    unfolding split_child_def
  proof (rule wf_TableI)
    show "fst ` set [] = {i. i < 512 \<and> entry_is_branch (map (\<lambda>i. entry_set (word_of_nat
        ((unat (entry_paddr e) + i * table_span l) div 2 ^ PAGE_SHIFT)) (entry_flags e)) [0..<512] ! i)}"
      using se(4) by (simp add: entry_is_branch_def)
    show "leaf_ok l (map (\<lambda>i. entry_set (word_of_nat ((unat (entry_paddr e) + i * table_span l) div 2 ^ PAGE_SHIFT))
        (entry_flags e)) [0..<512] ! i)" if "i < 512" for i
      using se(5) [OF that] that by simp
  qed (use q in simp_all)
  show "tb_ppn (split_child q l e) = q" by (simp add: split_child_def)
  show "\<exists>c. mp x l (split_child q l e) = Some (c, l)
           \<and> unat (entry_ppn c) + x mod 512 ^ l = unat (entry_ppn e) + x mod 512 ^ Suc l \<and> entry_flags c = entry_flags e"
    using se [of "digit l x"] unfolding split_child_def mod_digit
    by (simp add: mp_here entry_is_branch_def del: power_Suc)
qed

definition split_result :: "nat \<Rightarrow> nat \<Rightarrow> nat \<Rightarrow> table \<Rightarrow> nest_error + unit \<Rightarrow> table \<Rightarrow> bool" where
  "split_result level target x t r t' \<longleftrightarrow> wf_table level t' \<and> refined level t t'
     \<and> (\<forall>err. r = Inl err \<longrightarrow> err = OutOfMemory)
     \<and> (r = Inr () \<longrightarrow> (\<forall>e l. mp x level t = Some (e, l) \<longrightarrow> (\<exists>e' l'. mp x level t' = Some (e', l') \<and> l' = min l target)))"

lemma split_result_lift:
  assumes r: "split_result l target x c r c'" and tl: "target \<le> l"
    and base: "\<And>y. digit (Suc l) y = digit (Suc l) x \<Longrightarrow> mp y (Suc l) t = mp y l c"
    and up: "wf_table (Suc l) t'"
      "\<And>y. mp y (Suc l) t' = (if digit (Suc l) y = digit (Suc l) x then mp y l c' else mp y (Suc l) t)"
  shows "split_result (Suc l) target x t r t'"
proof -
  have "refined (Suc l) t t'"
    unfolding refined_def
  proof (intro allI conjI impI)
    fix y
    have rc: "page_map l c' y = page_map l c y"
      "\<And>e k. mp y l c = Some (e, k) \<Longrightarrow> \<exists>e' l'. mp y l c' = Some (e', l') \<and> l' \<le> k"
      using r by (auto simp: split_result_def refined_def)
    show "page_map (Suc l) t' y = page_map (Suc l) t y"
      using rc(1) up(2) [of y] base [of y] by (simp add: page_map_def)
    show "\<exists>e' l'. mp y (Suc l) t' = Some (e', l') \<and> l' \<le> k" if "mp y (Suc l) t = Some (e, k)" for e k
    proof (cases "digit (Suc l) y = digit (Suc l) x")
      case True
      then show ?thesis using rc(2) [of e k] that up(2) [of y] base [of y] by simp
    next
      case False
      then show ?thesis using that up(2) [of y] by simp
    qed
  qed
  then show ?thesis using r up base by (simp add: split_result_def)
qed

lemma split_at_spec:
  assumes "geo_ok g" and "wf_table level t" and "level < levels g" and "frames_ok fs"
  shows "\<exists>r t' fs'. split_at_level va target level t fs = Some (r, t', fs') \<and> tb_ppn t' = tb_ppn t
    \<and> set fs' \<subseteq> set fs \<and> split_result level target (page_of g va) t r t'"
  using assms
proof (induction level arbitrary: t fs)
  case 0
  then show ?case by (cases t) (auto simp: split_result_def dest: mp_leaf)
next
  case (Suc l)
  obtain p es cs where t: "t = Table p es cs" by (cases t)
  let ?x = "page_of g va" and ?i = "digit (Suc l) (page_of g va)"
  note wf = Suc.prems(2) [unfolded t]
  have idx: "vpn va (Suc l) = ?i" using vpn_digit Suc.prems by blast
  have stay: "split_result (Suc l) target ?x t (Inl OutOfMemory) t"
    using Suc.prems(2) by (simp add: split_result_def)
  show ?case
  proof (cases "Suc l \<le> target")
    case True
    have "split_result (Suc l) target ?x t (Inr ()) t"
      using Suc.prems(2) True by (auto simp: split_result_def dest: mp_leaf)
    with True show ?thesis by (auto simp: t)
  next
    case False
    then have tl: "target \<le> l" by simp
    note IH = Suc.IH [OF Suc.prems(1) _ Suc_lessD [OF Suc.prems(3)]]
    show ?thesis
    proof (cases "entry_is_branch (es ! ?i)")
      case True
      from wf_child [OF wf digit_less True] obtain c where c: "map_of cs ?i = Some c" "wf_table l c" by auto
      from IH [OF c(2) Suc.prems(4)] obtain r c' fs' where d:
        "split_at_level va target l c fs = Some (r, c', fs')" "tb_ppn c' = tb_ppn c" "set fs' \<subseteq> set fs"
        "split_result l target ?x c r c'" by blast
      have w': "wf_table l c'" using d(4) by (simp add: split_result_def)
      have "split_result (Suc l) target ?x t r (Table p es (AList.update ?i c' cs))"
        using split_result_lift [OF d(4) tl] put_child [OF wf c(1) w' d(2)] mp_below True c(1) t by auto
      then show ?thesis using d True False c(1) idx t by (auto simp: entry_is_branch_def Let_def)
    next
      case nb: False
      show ?thesis
      proof (cases "entry_is_valid (es ! ?i)")
        case False
        have "split_result (Suc l) target ?x t (Inr ()) t"
          using Suc.prems(2) False nb by (simp add: split_result_def t mp_here)
        then show ?thesis using False \<open>\<not> Suc l \<le> target\<close> idx t by (auto simp: Let_def)
      next
        case True
        then have lf: "entry_is_leaf (es ! ?i)" using nb by (simp add: entry_is_branch_def)
        have ok: "leaf_ok (Suc l) (es ! ?i)" using wf_TableD(5) [OF wf] by simp
        show ?thesis
        proof (cases "fs = [] \<or> \<not> snd (hd fs)")
          case out: True
          show ?thesis using out stay True lf False idx t by (cases fs) (auto simp: Let_def)
        next
          case al: False
          then obtain q fs1 where fs: "fs = (q, True) # fs1" by (cases fs) auto
          have q: "q < 2 ^ 52" and f1: "frames_ok fs1" using Suc.prems(4) by (auto simp: frames_ok_def fs)
          let ?c = "split_child q l (es ! ?i)"
          note sc = split_child_ok [OF True lf ok q]
          from IH [OF sc(1) f1] obtain r c' fs' where d:
            "split_at_level va target l ?c fs1 = Some (r, c', fs')" "tb_ppn c' = tb_ppn ?c" "set fs' \<subseteq> set fs1"
            "split_result l target ?x ?c r c'" by blast
          have w': "wf_table l c'" using d(4) by (simp add: split_result_def)
          note gr = grow_child [OF wf digit_less nb sc(1,2)]
          let ?t1 = "Table p (es[?i := entry_set (word_of_nat q) PTE_V]) (cs @ [(?i, ?c)])"
          let ?t2 = "Table p (es[?i := entry_set (word_of_nat q) PTE_V]) (AList.update ?i c' (cs @ [(?i, ?c)]))"
          note pc = put_child [OF gr(1,2) w' d(2)]
          have m1: "mp y (Suc l) ?t2 = (if digit (Suc l) y = ?i then mp y l c' else mp y (Suc l) ?t1)" for y
            by (rule pc(2))
          have "split_result (Suc l) target ?x ?t1 r ?t2"
            using split_result_lift [OF d(4) tl, of ?t1 ?t2] pc(1) m1 gr(3) by simp
          moreover have "refined (Suc l) t ?t1"
            unfolding refined_def
          proof (intro allI conjI impI)
            fix y
            obtain c where c: "mp y l ?c = Some (c, l)" "entry_flags c = entry_flags (es ! ?i)"
              "unat (entry_ppn c) + y mod 512 ^ l = unat (entry_ppn (es ! ?i)) + y mod 512 ^ Suc l"
              using sc(3) [of y] by blast
            have old: "mp y (Suc l) t = Some (es ! ?i, Suc l)" if "digit (Suc l) y = ?i"
              using that True nb by (simp add: t mp_here)
            show "page_map (Suc l) ?t1 y = page_map (Suc l) t y"
              using gr(3) [of y] c old t by (simp add: page_map_def)
            show "\<exists>e' l'. mp y (Suc l) ?t1 = Some (e', l') \<and> l' \<le> k" if "mp y (Suc l) t = Some (e, k)" for e k
              using that gr(3) [of y] c(1) old t by (auto split: if_splits)
          qed
          moreover have "mp ?x (Suc l) t = Some (es ! ?i, Suc l)" using True nb by (simp add: t mp_here)
          moreover obtain c where "mp ?x (Suc l) ?t1 = Some (c, l)" using sc(3) [of ?x] gr(3) [of ?x] by auto
          ultimately have "split_result (Suc l) target ?x t r ?t2"
            using tl by (auto simp: split_result_def intro: refined_trans)
          then show ?thesis
            using d True lf False al fs idx t gr(2) by (auto simp: Let_def split_child_def)
        qed
      qed
    qed
  qed
qed

section \<open>Preparing the boundaries of a range\<close>

lemma div_power_mono: "x div 512 ^ l = y div 512 ^ l \<Longrightarrow> l \<le> k \<Longrightarrow> x div 512 ^ k = y div 512 ^ k" for x y :: nat
  by (metis div_mult2_eq le_add_diff_inverse power_add)

lemma mp_same: "mp x n t = Some (e, l) \<Longrightarrow> wf_table n t \<Longrightarrow> x div 512 ^ l = y div 512 ^ l \<Longrightarrow> mp y n t = Some (e, l)"
proof (induction n arbitrary: t)
  case 0
  obtain p es cs where t: "t = Table p es cs" by (cases t)
  have "l = 0" using mp_leaf [OF 0(1,2)] by simp
  with 0(3) have "x = y" by simp
  with 0(1) show ?case by simp
next
  case (Suc n)
  obtain p es cs where t: "t = Table p es cs" by (cases t)
  have "l \<le> Suc n" using mp_leaf [OF Suc.prems(1,2)] by simp
  then have d: "digit (Suc n) y = digit (Suc n) x"
    using div_power_mono [OF Suc.prems(3)] by (simp add: digit_def del: power_Suc)
  show ?case
  proof (cases "entry_is_branch (es ! digit (Suc n) x)")
    case True
    from wf_child [OF Suc.prems(2) [unfolded t] digit_less True]
    obtain c where c: "map_of cs (digit (Suc n) x) = Some c" "wf_table n c" by auto
    with True Suc.prems(1) t have "mp x n c = Some (e, l)" by (simp add: mp_below)
    with Suc.IH c Suc.prems(3) have "mp y n c = Some (e, l)" by blast
    with True c(1) d t show ?thesis by (simp add: mp_below)
  next
    case False
    with Suc.prems(1) d t show ?thesis by (auto simp: mp_here split: if_splits)
  qed
qed

definition clean_start :: "nat \<Rightarrow> table \<Rightarrow> nat \<Rightarrow> bool" where
  "clean_start n t x \<longleftrightarrow> (\<forall>e l. mp x n t = Some (e, l) \<longrightarrow> x mod 512 ^ l = 0)"

definition clean_end :: "nat \<Rightarrow> table \<Rightarrow> nat \<Rightarrow> bool" where
  "clean_end n t x \<longleftrightarrow> (\<forall>e l. mp x n t = Some (e, l) \<longrightarrow> x mod 512 ^ l + 1 = 512 ^ l)"

text \<open>Every leaf that meets the pages from \<open>s\<close> on, \<open>m\<close> of them, lies within them.\<close>

definition prepared :: "nat \<Rightarrow> table \<Rightarrow> nat \<Rightarrow> nat \<Rightarrow> bool" where
  "prepared n t s m \<longleftrightarrow> (\<forall>x e l. s \<le> x \<and> x < s + m \<and> mp x n t = Some (e, l) \<longrightarrow>
     s \<le> x div 512 ^ l * 512 ^ l \<and> x div 512 ^ l * 512 ^ l + 512 ^ l \<le> s + m)"

lemma leaf_bounds:
  fixes x :: nat
  shows "x div 512 ^ l * 512 ^ l \<le> x" and "x < x div 512 ^ l * 512 ^ l + 512 ^ l"
proof -
  have "x mod 512 ^ l < 512 ^ l" by simp
  then show "x div 512 ^ l * 512 ^ l \<le> x" "x < x div 512 ^ l * 512 ^ l + 512 ^ l"
    using div_mult_mod_eq [of x "512 ^ l"] by linarith+
qed

lemma same_leaf:
  fixes x y :: nat
  assumes "x div 512 ^ l * 512 ^ l \<le> y" and "y < x div 512 ^ l * 512 ^ l + 512 ^ l"
  shows "x div 512 ^ l = y div 512 ^ l"
proof -
  have "y div 512 ^ l = x div 512 ^ l"
    by (rule div_nat_eqI) (use assms in \<open>simp_all add: algebra_simps\<close>)
  then show ?thesis by simp
qed

lemma clean_prepared:
  assumes wf: "wf_table n t" and s: "clean_start n t s" and e: "clean_end n t (s + m - 1)"
  shows "prepared n t s m"
  unfolding prepared_def
proof (intro allI impI, elim conjE)
  fix x ent l
  assume x: "s \<le> x" "x < s + m" and m: "mp x n t = Some (ent, l)"
  let ?b = "x div 512 ^ l * 512 ^ l"
  note lb = leaf_bounds [of x l]
  have "s \<le> ?b"
  proof (rule ccontr)
    assume "\<not> s \<le> ?b"
    then have eq: "x div 512 ^ l = s div 512 ^ l" by (intro same_leaf) (use x lb in linarith)+
    with m wf have "mp s n t = Some (ent, l)" by (rule mp_same)
    then have "s mod 512 ^ l = 0" using s by (simp add: clean_start_def)
    then have "s = ?b" using div_mult_mod_eq [of s "512 ^ l"] eq by simp
    with \<open>\<not> s \<le> ?b\<close> show False by simp
  qed
  moreover have "?b + 512 ^ l \<le> s + m"
  proof (rule ccontr)
    assume b: "\<not> ?b + 512 ^ l \<le> s + m"
    have eq: "x div 512 ^ l = (s + m - 1) div 512 ^ l" by (intro same_leaf) (use x lb b in linarith)+
    with m wf have "mp (s + m - 1) n t = Some (ent, l)" by (rule mp_same)
    then have "(s + m - 1) mod 512 ^ l + 1 = 512 ^ l" using e by (simp add: clean_end_def)
    then have "s + m - 1 + 1 = ?b + 512 ^ l"
      using div_mult_mod_eq [of "s + m - 1" "512 ^ l"] unfolding eq by linarith
    with b x show False by linarith
  qed
  ultimately show "s \<le> ?b \<and> ?b + 512 ^ l \<le> s + m" ..
qed

lemma clean_start_refined:
  assumes "refined n t t'" and "clean_start n t x"
  shows "clean_start n t' x"
  unfolding clean_start_def
proof (intro allI impI)
  fix e' l'
  assume m': "mp x n t' = Some (e', l')"
  have "page_map n t' x = page_map n t x" using assms(1) by (simp add: refined_def)
  then obtain e l where m: "mp x n t = Some (e, l)" using m' by (cases "mp x n t") (auto simp: page_map_def)
  then have "l' \<le> l" using assms(1) m' unfolding refined_def by fastforce
  moreover have "x mod 512 ^ l = 0" using assms(2) m by (simp add: clean_start_def)
  ultimately show "x mod 512 ^ l' = 0"
    by (metis dvd_imp_mod_0 dvd_trans le_imp_power_dvd mod_0_imp_dvd)
qed

lemma point_offset:
  assumes "geo_ok g" and "l \<le> levels g" and "point mod PAGE_SIZE = 0"
  shows "point mod table_span l = page_of g point mod 512 ^ l * PAGE_SIZE"
proof -
  have "point mod table_span l mod PAGE_SIZE = 0"
    using assms(3) by (simp add: span_pages mod_mod_cancel)
  with span_offset [of point l] page_of_mod [OF assms(1,2), of point] show ?thesis by simp
qed

lemma prepare_point_spec:
  assumes g: "geo_ok g" and n: "levels g = Suc n" and al: "point mod PAGE_SIZE = 0"
    and "wf_table n t" and "frames_ok fs"
    and "\<And>e l. mp (page_of g point) n t = Some (e, l) \<Longrightarrow> l < fuel" and "0 < fuel"
  shows "\<exists>r t' fs'. prepare_point fuel g point rem at_start t fs = Some (r, t', fs')
    \<and> set fs' \<subseteq> set fs \<and> tb_ppn t' = tb_ppn t \<and> wf_table n t' \<and> refined n t t' \<and> (\<forall>err. r = Inl err \<longrightarrow> err = OutOfMemory)
    \<and> (r = Inr () \<longrightarrow> (if at_start then clean_start n t' (page_of g point) else clean_end n t' (page_of g point)))"
  using assms(4-)
proof (induction fuel arbitrary: t fs)
  case (Suc fuel)
  let ?x = "page_of g point"
  obtain e l where c: "cell ?x n t = (e, l)" by fastforce
  have nb: "\<not> entry_is_branch e" "l \<le> n" using wf_cell_leaf [OF Suc.prems(1), of ?x] by (simp_all add: c)
  have lr: "leaf_ref_geometry g point t = Inr (e, l)" using leaf_ref_geometry_cell [OF g n Suc.prems(1)] c by simp
  define covered where "covered = (if at_start then point mod table_span l = 0 \<and> rem \<ge> table_span l
      else point mod table_span l + PAGE_SIZE = table_span l \<and> rem \<ge> table_span l)"
  have off: "point mod table_span l = ?x mod 512 ^ l * PAGE_SIZE" using point_offset [OF g _ al] nb(2) n by simp
  have mpx: "mp ?x n t = (if entry_is_valid e then Some (e, l) else None)" by (simp add: mp_def c)
  show ?case
  proof (cases "\<not> entry_is_valid e \<or> l = 0 \<or> covered")
    case True
    have "?x mod 512 ^ l * PAGE_SIZE + PAGE_SIZE = PAGE_SIZE * 512 ^ l \<longleftrightarrow> (?x mod 512 ^ l + 1) * PAGE_SIZE = 512 ^ l * PAGE_SIZE"
      by (simp add: algebra_simps)
    also have "\<dots> \<longleftrightarrow> ?x mod 512 ^ l + 1 = 512 ^ l" unfolding mult_cancel2 by (simp add: PAGE_SIZE_def)
    finally have full: "?x mod 512 ^ l * PAGE_SIZE + PAGE_SIZE = PAGE_SIZE * 512 ^ l \<longleftrightarrow> ?x mod 512 ^ l + 1 = 512 ^ l" .
    have "if at_start then clean_start n t ?x else clean_end n t ?x"
      using True mpx unfolding clean_start_def clean_end_def covered_def off unfolding span_pages full
      by (auto simp: PAGE_SIZE_def split: if_splits)
    moreover have "prepare_point (Suc fuel) g point rem at_start t fs = Some (Inr (), t, fs)"
      using True lr by (auto simp: covered_def split: if_splits)
    ultimately show ?thesis using Suc.prems by simp
  next
    case False
    then have m: "mp ?x n t = Some (e, l)" using mpx by simp
    from split_at_spec [OF g Suc.prems(1) _ Suc.prems(2), of point "l - 1"] n
    obtain r t1 fs1 where d: "split_at_geometry g point (l - 1) t fs = Some (r, t1, fs1)" "tb_ppn t1 = tb_ppn t"
      "set fs1 \<subseteq> set fs" "split_result n (l - 1) ?x t r t1"
      by (auto simp: split_at_geometry_def)
    have f1: "frames_ok fs1" using Suc.prems(2) d(3) by (auto simp: frames_ok_def)
    show ?thesis
    proof (cases r)
      case (Inl err)
      then show ?thesis using False lr d by (simp add: covered_def [symmetric] split_result_def)
    next
      case (Inr u)
      obtain e1 where m1: "mp ?x n t1 = Some (e1, l - 1)" using d(4) m Inr by (auto simp: split_result_def)
      have "l < Suc fuel" using Suc.prems(3) [OF m] .
      then have "l' < fuel" if "mp ?x n t1 = Some (e', l')" for e' l' using that m1 False by auto
      moreover have "wf_table n t1" "refined n t t1" using d(4) by (auto simp: split_result_def)
      moreover have "0 < fuel" using \<open>l < Suc fuel\<close> False by simp
      ultimately obtain r' t' fs' where "prepare_point fuel g point rem at_start t1 fs1 = Some (r', t', fs')"
        "set fs' \<subseteq> set fs1" "tb_ppn t' = tb_ppn t1" "wf_table n t'" "refined n t1 t'" "\<forall>err. r' = Inl err \<longrightarrow> err = OutOfMemory"
        "r' = Inr () \<longrightarrow> (if at_start then clean_start n t' ?x else clean_end n t' ?x)"
        using Suc.IH [of t1 fs1] f1 by blast
      then show ?thesis
        using False lr d Inr \<open>refined n t t1\<close> refined_trans [of n t t1 t']
        by (simp add: covered_def [symmetric])
    qed
  qed
qed simp

lemma page_of_plus:
  assumes g: "geo_ok g" and a: "va mod PAGE_SIZE = 0" and off: "va mod 2 ^ va_bits g + off < 2 ^ va_bits g"
  shows "page_of g (va + off) = page_of g va + off div PAGE_SIZE"
proof -
  have "PAGE_SIZE dvd 2 ^ va_bits g" by (simp add: geo_bits [OF g])
  then have "PAGE_SIZE dvd va mod 2 ^ va_bits g" using a by (simp add: dvd_mod mod_0_imp_dvd)
  moreover have "(va + off) mod 2 ^ va_bits g = va mod 2 ^ va_bits g + off"
    using off by (metis mod_add_left_eq mod_less)
  ultimately show ?thesis by (simp add: page_of_def div_plus_div_distrib_dvd_left)
qed

definition in_space :: "geo \<Rightarrow> nat \<Rightarrow> nat \<Rightarrow> bool" where
  "in_space g va sz \<longleftrightarrow> va mod PAGE_SIZE = 0 \<and> sz mod PAGE_SIZE = 0 \<and> 0 < sz \<and> va mod 2 ^ va_bits g + sz \<le> 2 ^ va_bits g"

lemma in_space_pages:
  assumes "geo_ok g" and "in_space g va sz"
  obtains m where "sz = m * PAGE_SIZE" and "0 < m" and "page_of g va + m \<le> 512 ^ levels g"
    and "va mod 2 ^ va_bits g = page_of g va * PAGE_SIZE"
proof -
  have s: "va mod PAGE_SIZE = 0" "0 < sz" "va mod 2 ^ va_bits g + sz \<le> 2 ^ va_bits g"
    using assms(2) by (auto simp: in_space_def)
  obtain m where m: "sz = m * PAGE_SIZE"
    using assms(2) unfolding in_space_def by (metis mod_0_imp_dvd dvd_def mult.commute)
  have "PAGE_SIZE dvd 2 ^ va_bits g" by (simp add: geo_bits [OF assms(1)])
  then have "PAGE_SIZE dvd va mod 2 ^ va_bits g" using s by (simp add: dvd_mod mod_0_imp_dvd)
  then have p: "va mod 2 ^ va_bits g = page_of g va * PAGE_SIZE" by (simp add: page_of_def)
  have "(page_of g va + m) * PAGE_SIZE \<le> 512 ^ levels g * PAGE_SIZE"
    using s(3) p m geo_bits [OF assms(1)] by (simp add: algebra_simps)
  then have "page_of g va + m \<le> 512 ^ levels g" by (simp add: PAGE_SIZE_def)
  with p m s(2) show thesis by (intro that [of m]) auto
qed

lemma prepare_with_spec:
  assumes g: "geo_ok g" and n: "levels g = Suc n" and wf: "wf_table n t" and fs: "frames_ok fs"
    and sp: "in_space g va sz"
  shows "\<exists>r t' fs'. prepare_with g va sz t fs = Some (r, t', fs') \<and> set fs' \<subseteq> set fs \<and> tb_ppn t' = tb_ppn t
    \<and> wf_table n t' \<and> refined n t t' \<and> (\<forall>err. r = Inl err \<longrightarrow> err = OutOfMemory)
    \<and> (r = Inr () \<longrightarrow> prepared n t' (page_of g va) (sz div PAGE_SIZE))"
proof -
  obtain m where m: "sz = m * PAGE_SIZE" "0 < m" using in_space_pages [OF g sp] by metis
  let ?x = "page_of g va" and ?v = "va + (sz - PAGE_SIZE)"
  have al: "va mod PAGE_SIZE = 0" "?v mod PAGE_SIZE = 0"
    using sp m by (auto simp: in_space_def mod_add_eq diff_mult_distrib [symmetric] simp flip: mod_mult_self2)
  have y: "page_of g ?v = ?x + m - 1"
  proof -
    have "va mod 2 ^ va_bits g + (sz - PAGE_SIZE) < 2 ^ va_bits g"
      using sp m by (auto simp: in_space_def PAGE_SIZE_def)
    from page_of_plus [OF g al(1) this] have "page_of g ?v = ?x + (m - 1)"
      using m by (simp add: diff_mult_distrib [symmetric, of m 1, simplified] PAGE_SIZE_def)
    then show ?thesis using m(2) by simp
  qed
  have fuel: "l < levels g" if "mp x n u = Some (e, l)" "wf_table n u" for x u e l
    using mp_leaf [OF that] n by simp
  from prepare_point_spec [OF g n al(1) wf fs, of "levels g" sz True] fuel [OF _ wf] n
  obtain r t1 fs1 where d: "prepare_point (levels g) g va sz True t fs = Some (r, t1, fs1)" "set fs1 \<subseteq> set fs"
    "tb_ppn t1 = tb_ppn t" "wf_table n t1" "refined n t t1" "\<forall>err. r = Inl err \<longrightarrow> err = OutOfMemory"
    "r = Inr () \<longrightarrow> clean_start n t1 ?x" by auto
  have f1: "frames_ok fs1" using fs d(2) by (auto simp: frames_ok_def)
  from prepare_point_spec [OF g n al(2) d(4) f1, of "levels g" sz False] fuel [OF _ d(4)] n
  obtain r2 t2 fs2 where d2: "prepare_point (levels g) g ?v sz False t1 fs1 = Some (r2, t2, fs2)" "set fs2 \<subseteq> set fs1"
    "tb_ppn t2 = tb_ppn t1" "wf_table n t2" "refined n t1 t2" "\<forall>err. r2 = Inl err \<longrightarrow> err = OutOfMemory"
    "r2 = Inr () \<longrightarrow> clean_end n t2 (?x + m - 1)" by (auto simp: y)
  have pre: "page_offset va = 0" "sz mod PAGE_SIZE = 0" "sz \<noteq> 0"
    using sp by (auto simp: in_space_def page_offset_def)
  show ?thesis
  proof (cases r)
    case (Inl err)
    then show ?thesis using d pre by (simp add: prepare_with_def)
  next
    case (Inr u)
    have "prepared n t2 ?x m" if "r2 = Inr ()"
      using clean_prepared [OF d2(4)] clean_start_refined [OF d2(5)] d(7) d2(7) Inr that by simp
    moreover have "prepare_with g va sz t fs = Some (r2, t2, fs2)"
      using d d2 pre Inr by (simp add: prepare_with_def)
    moreover have "sz div PAGE_SIZE = m" using m by (simp add: PAGE_SIZE_def)
    ultimately show ?thesis using d d2 refined_trans [OF d(5) d2(5)] by auto
  qed
qed

section \<open>Clearing a range\<close>

definition fits :: "nat \<Rightarrow> table \<Rightarrow> nat \<Rightarrow> nat \<Rightarrow> nat \<Rightarrow> bool" where
  "fits l t b s e \<longleftrightarrow> (\<forall>x ent k. b \<le> x \<and> x < b + 512 ^ Suc l \<and> s \<le> x \<and> x < e \<and> mp x l t = Some (ent, k) \<longrightarrow>
     s \<le> x div 512 ^ k * 512 ^ k \<and> x div 512 ^ k * 512 ^ k + 512 ^ k \<le> e)"

definition cleared :: "nat \<Rightarrow> table \<Rightarrow> table \<Rightarrow> nat \<Rightarrow> nat set \<Rightarrow> nat \<Rightarrow> nat \<Rightarrow> bool" where
  "cleared l t t' b S s e \<longleftrightarrow> wf_table l t' \<and> tb_ppn t' = tb_ppn t \<and> (\<forall>x. b \<le> x \<and> x < b + 512 ^ Suc l \<longrightarrow>
     mp x l t' = (if digit l x \<in> S \<and> s \<le> x \<and> x < e then None else mp x l t))"

lemma slot_pages:
  assumes "b mod 512 ^ Suc l = 0" and "b \<le> x" and "x < b + 512 ^ Suc l"
  shows "b + digit l x * 512 ^ l \<le> x" and "x < b + digit l x * 512 ^ l + 512 ^ l"
    and "x div 512 ^ l * 512 ^ l = b + digit l x * 512 ^ l"
proof -
  have "x div 512 ^ Suc l = b div 512 ^ Suc l"
    by (rule div_nat_eqI) (use assms div_mult_mod_eq [of b "512 ^ Suc l"] in \<open>simp_all add: algebra_simps\<close>)
  then have x: "x = b + (digit l x * 512 ^ l + x mod 512 ^ l)"
    using mod_digit [of x l] div_mult_mod_eq [of x "512 ^ Suc l"] div_mult_mod_eq [of b "512 ^ Suc l"] assms(1) by simp
  moreover have "x mod 512 ^ l < 512 ^ l" by simp
  ultimately show "b + digit l x * 512 ^ l \<le> x" "x < b + digit l x * 512 ^ l + 512 ^ l"
    by linarith+
  show "x div 512 ^ l * 512 ^ l = b + digit l x * 512 ^ l"
    using x div_mult_mod_eq [of x "512 ^ l"] by linarith
qed

lemma slot_inside:
  assumes "i < 512" and "b + i * 512 ^ l \<le> x" and "x < b + i * 512 ^ l + 512 ^ l" and "b mod 512 ^ Suc l = 0"
  shows "b \<le> x" and "x < b + 512 ^ Suc l" and "digit l x = i"
proof -
  show lo: "b \<le> x" using assms(2) by simp
  have "i * 512 ^ l + 512 ^ l \<le> 512 * (512::nat) ^ l"
    using mult_le_mono1 [of "i + 1" 512 "512 ^ l"] assms(1) by (simp add: add_mult_distrib)
  then show hi: "x < b + 512 ^ Suc l" using assms(3) unfolding power_Suc by linarith
  have "x div 512 ^ l = b div 512 ^ l + i"
    using assms(2-4)
    by (intro div_nat_eqI) (auto simp: algebra_simps elim!: mod_0_imp_dvd [THEN dvdE])
  moreover have "b div 512 ^ l mod 512 = 0"
    using assms(4) by (auto elim!: mod_0_imp_dvd [THEN dvdE])
  ultimately show "digit l x = i" using assms(1) by (simp add: digit_def mod_add_eq [symmetric])
qed

lemma clear_slots_ok:
  assumes "wf_table l t" and b: "b mod 512 ^ Suc l = 0" and "distinct ss"
    and "\<forall>i \<in> set ss. i < 512 \<and> s < b + i * 512 ^ l + 512 ^ l \<and> b + i * 512 ^ l < e" and se: "s < e"
    and "fits l t b s e"
    and sub: "\<And>l' c b'. l = Suc l' \<Longrightarrow> wf_table l' c \<Longrightarrow> b' mod 512 ^ Suc l' = 0 \<Longrightarrow> fits l' c b' s e \<Longrightarrow>
           \<exists>c'. sub (b' * PAGE_SIZE) c = Some c' \<and> cleared l' c c' b' UNIV s e"
  shows "\<exists>t'. clear_slots l sub (b * PAGE_SIZE) (s * PAGE_SIZE) (e * PAGE_SIZE) ss t = Some t'
    \<and> cleared l t t' b (set ss) s e"
  using assms(1,3,4,6)
proof (induction ss arbitrary: t)
  case Nil
  then show ?case by (simp add: cleared_def)
next
  case (Cons i ss)
  obtain p es cs where t: "t = Table p es cs" by (cases t)
  note wf = Cons.prems(1) [unfolded t]
  have i: "i < 512" "s < b + i * 512 ^ l + 512 ^ l" "b + i * 512 ^ l < e" using Cons.prems(3) by auto
  have inside: "b \<le> x" "x < b + 512 ^ Suc l" "digit l x = i"
    if "b + i * 512 ^ l \<le> x" "x < b + i * 512 ^ l + 512 ^ l" for x
    using slot_inside [OF i(1) that b] by auto
  define y where "y = max s (b + i * 512 ^ l)"
  have y: "b + i * 512 ^ l \<le> y" "y < b + i * 512 ^ l + 512 ^ l" "s \<le> y" "y < e" using i se by (auto simp: y_def)
  have base: "b * PAGE_SIZE + i * table_span l = (b + i * 512 ^ l) * PAGE_SIZE"
    by (simp add: span_pages algebra_simps)
  \<comment> \<open>One slot is handled by going to a tree \<open>t1\<close>; the rest follows by the hypothesis.\<close>
  have step: ?case
    if t1: "cleared l t t1 b {i} s e" and eq: "clear_slots l sub (b * PAGE_SIZE) (s * PAGE_SIZE) (e * PAGE_SIZE) (i # ss) t
        = clear_slots l sub (b * PAGE_SIZE) (s * PAGE_SIZE) (e * PAGE_SIZE) ss t1" for t1
  proof -
    have "fits l t1 b s e" using Cons.prems(4) t1 unfolding fits_def cleared_def by (metis option.distinct(1))
    moreover have "wf_table l t1" using t1 by (simp add: cleared_def)
    ultimately obtain t' where "clear_slots l sub (b * PAGE_SIZE) (s * PAGE_SIZE) (e * PAGE_SIZE) ss t1 = Some t'"
      "cleared l t1 t' b (set ss) s e" using Cons.IH [of t1] Cons.prems(2,3) by auto
    then show ?thesis using t1 eq by (auto simp: cleared_def)
  qed
  show ?case
  proof (cases "entry_is_branch (es ! i)")
    case True
    from wf_child [OF wf i(1) True] obtain l' c where l: "l = Suc l'" and c: "map_of cs i = Some c" "wf_table l' c" by metis
    let ?b = "b + i * 512 ^ l"
    have bm: "?b mod 512 ^ Suc l' = 0" using b by (auto simp: l elim!: mod_0_imp_dvd [THEN dvdE])
    have mpc: "mp x l t = mp x l' c" if "?b \<le> x" "x < ?b + 512 ^ Suc l'" for x
      using inside(3) [of x] that True c by (simp add: t l mp_below)
    have fit: "fits l' c ?b s e"
      unfolding fits_def
    proof (intro allI impI)
      fix x ent k
      assume a: "?b \<le> x \<and> x < ?b + 512 ^ Suc l' \<and> s \<le> x \<and> x < e \<and> mp x l' c = Some (ent, k)"
      then have "b \<le> x \<and> x < b + 512 ^ Suc l \<and> s \<le> x \<and> x < e \<and> mp x l t = Some (ent, k)"
        using inside [of x] mpc [of x] l by auto
      then show "s \<le> x div 512 ^ k * 512 ^ k \<and> x div 512 ^ k * 512 ^ k + 512 ^ k \<le> e"
        using Cons.prems(4) unfolding fits_def by blast
    qed
    from sub [OF l c(2) bm fit] obtain c'
      where c': "sub (?b * PAGE_SIZE) c = Some c'" "cleared l' c c' ?b UNIV s e" by blast
    have w': "wf_table l' c'" "tb_ppn c' = tb_ppn c" using c'(2) by (auto simp: cleared_def)
    let ?t1 = "Table p es (AList.update i c' cs)"
    note pc = put_child [OF wf [unfolded l] c(1) w']
    have "mp x l ?t1 = (if digit l x \<in> {i} \<and> s \<le> x \<and> x < e then None else mp x l t)"
      if x: "b \<le> x" "x < b + 512 ^ Suc l" for x
    proof (cases "digit l x = i")
      case True
      then have "?b \<le> x" "x < ?b + 512 ^ Suc l'" using slot_pages [OF b x] l by auto
      then show ?thesis using True c'(2) mpc [of x] pc(2) [of x] l by (simp add: cleared_def)
    next
      case False
      then show ?thesis using pc(2) [of x] l t by simp
    qed
    then have "cleared l t ?t1 b {i} s e" using pc(1) by (simp add: cleared_def t l)
    moreover have "clear_slots l sub (b * PAGE_SIZE) (s * PAGE_SIZE) (e * PAGE_SIZE) (i # ss) t
        = clear_slots l sub (b * PAGE_SIZE) (s * PAGE_SIZE) (e * PAGE_SIZE) ss ?t1"
      using True c(1) c'(1) by (simp add: t base Let_def entry_is_branch_def)
    ultimately show ?thesis by (rule step)
  next
    case nb: False
    show ?thesis
    proof (cases "entry_is_valid (es ! i)")
      case False
      have "mp x l t = None" if "digit l x = i" for x using that nb False by (simp add: t mp_here)
      then have "cleared l t t b {i} s e" using Cons.prems(1) by (simp add: cleared_def)
      moreover have "clear_slots l sub (b * PAGE_SIZE) (s * PAGE_SIZE) (e * PAGE_SIZE) (i # ss) t
          = clear_slots l sub (b * PAGE_SIZE) (s * PAGE_SIZE) (e * PAGE_SIZE) ss t" using False by (simp add: t Let_def)
      ultimately show ?thesis by (rule step)
    next
      case True
      then have lf: "entry_is_leaf (es ! i)" using nb by (simp add: entry_is_branch_def)
      have "mp y l t = Some (es ! i, l)" using inside(3) [OF y(1,2)] nb True by (simp add: t mp_here)
      then have "s \<le> y div 512 ^ l * 512 ^ l \<and> y div 512 ^ l * 512 ^ l + 512 ^ l \<le> e"
        using Cons.prems(4) inside [OF y(1,2)] y(3,4) unfolding fits_def by blast
      then have in_range: "s \<le> b + i * 512 ^ l" "b + i * 512 ^ l + 512 ^ l \<le> e"
        using slot_pages(3) [OF b inside(1,2) [OF y(1,2)]] inside(3) [OF y(1,2)] by auto
      let ?t1 = "Table p (es[i := entry_clear]) cs"
      have zero: "\<not> entry_is_branch entry_clear" "leaf_ok l entry_clear" "\<not> entry_is_valid entry_clear"
        by (simp_all add: entry_clear_def leaf_ok_def)
      note pe = put_entry [OF wf i(1) nb zero(1,2)]
      have "mp x l ?t1 = (if digit l x \<in> {i} \<and> s \<le> x \<and> x < e then None else mp x l t)"
        if x: "b \<le> x" "x < b + 512 ^ Suc l" for x
        using slot_pages [OF b x] in_range pe(2) [of x] zero(3) by (auto simp: t)
      then have "cleared l t ?t1 b {i} s e" using pe(1) by (simp add: cleared_def t)
      moreover have "s * PAGE_SIZE \<le> (b + i * 512 ^ l) * PAGE_SIZE" using in_range(1) by (rule mult_le_mono1)
      moreover have "(b + i * 512 ^ l) * PAGE_SIZE + table_span l \<le> e * PAGE_SIZE"
        using mult_le_mono1 [OF in_range(2), of PAGE_SIZE] by (simp add: span_pages algebra_simps)
      ultimately show ?thesis
        using True lf by (intro step [of ?t1]) (simp_all add: t base Let_def)
    qed
  qed
qed

lemma clear_node_ok:
  assumes wf: "wf_table l t" and b: "b mod 512 ^ Suc l = 0" and se: "s < e" and f: "fits l t b s e"
    and sub: "\<And>l' c b'. l = Suc l' \<Longrightarrow> wf_table l' c \<Longrightarrow> b' mod 512 ^ Suc l' = 0 \<Longrightarrow> fits l' c b' s e \<Longrightarrow>
           \<exists>c'. sub (b' * PAGE_SIZE) c = Some c' \<and> cleared l' c c' b' UNIV s e"
  shows "\<exists>t'. clear_node l sub (s * PAGE_SIZE) (e * PAGE_SIZE) (b * PAGE_SIZE) t = Some t'
    \<and> cleared l t t' b UNIV s e"
proof -
  have ne: "b * PAGE_SIZE + table_span l * 512 = (b + 512 ^ Suc l) * PAGE_SIZE"
    by (simp add: span_pages algebra_simps)
  have le: "x * PAGE_SIZE \<le> y * PAGE_SIZE \<longleftrightarrow> x \<le> y" for x y by (simp add: PAGE_SIZE_def)
  show ?thesis
  proof (cases "e \<le> b \<or> b + 512 ^ Suc l \<le> s")
    case True
    then have "cleared l t t b UNIV s e" using wf by (auto simp: cleared_def)
    then show ?thesis using True by (simp add: clear_node_def Let_def ne le del: power_Suc)
  next
    case False
    define first where "first = (max s b - b) div 512 ^ l"
    define lst where "lst = (min e (b + 512 ^ Suc l) - b - 1) div 512 ^ l"
    have spn: "(k * PAGE_SIZE) div table_span l = k div 512 ^ l" for k
      by (simp add: span_pages div_mult2_eq PAGE_SIZE_def)
    have "max (s * PAGE_SIZE) (b * PAGE_SIZE) - b * PAGE_SIZE = (max s b - b) * PAGE_SIZE"
      by (cases "s \<le> b") (simp_all add: max_def diff_mult_distrib PAGE_SIZE_def)
    then have fst_eq: "(max (s * PAGE_SIZE) (b * PAGE_SIZE) - b * PAGE_SIZE) div table_span l = first"
      by (simp add: first_def spn)
    have mn: "min (e * PAGE_SIZE) ((b + 512 ^ Suc l) * PAGE_SIZE) = min e (b + 512 ^ Suc l) * PAGE_SIZE"
      by (cases "e \<le> b + 512 ^ Suc l") (simp_all add: min_def PAGE_SIZE_def del: power_Suc)
    define k where "k = min e (b + 512 ^ Suc l) - b"
    have k: "0 < k" "k \<le> 512 ^ Suc l" using False by (auto simp: k_def)
    have "(k * PAGE_SIZE - 1) div table_span l = (k - 1) div 512 ^ l"
    proof -
      obtain j where j: "k = Suc j" using k(1) by (cases k) auto
      have "(4095 + j * 4096) div 4096 = j" by simp
      then show ?thesis using div_mult2_eq [of "4095 + j * 4096" 4096 "512 ^ l"]
        by (simp add: j span_pages PAGE_SIZE_def)
    qed
    then have lst_eq: "(min (e * PAGE_SIZE) ((b + 512 ^ Suc l) * PAGE_SIZE) - b * PAGE_SIZE - 1) div table_span l = lst"
      unfolding mn lst_def k_def diff_mult_distrib .
    have lst_less: "lst < 512"
      using k unfolding lst_def k_def [symmetric] power_Suc by (intro less_mult_imp_div_less) linarith
    have meets: "i < 512 \<and> s < b + i * 512 ^ l + 512 ^ l \<and> b + i * 512 ^ l < e" if "i \<in> set [first ..< lst + 1]" for i
    proof -
      have i: "first \<le> i" "i \<le> lst" using that by auto
      have "max s b - b < first * 512 ^ l + 512 ^ l" using leaf_bounds(2) [of "max s b - b" l] by (simp add: first_def)
      moreover have "first * 512 ^ l \<le> i * 512 ^ l" using i(1) by (rule mult_le_mono1)
      moreover have "s \<le> b + (max s b - b)" by simp
      ultimately have "s < b + i * 512 ^ l + 512 ^ l" by linarith
      moreover have "lst * 512 ^ l \<le> k - 1"
        using leaf_bounds(1) [of "k - 1" l] by (simp add: lst_def k_def del: power_Suc)
      moreover have "i * 512 ^ l \<le> lst * 512 ^ l" using i(2) by (rule mult_le_mono1)
      moreover have "b + k \<le> e" using False by (simp add: k_def del: power_Suc)
      ultimately show ?thesis using i(2) lst_less k(1) by linarith
    qed
    have all: "digit l x \<in> set [first ..< lst + 1]"
      if x: "b \<le> x" "x < b + 512 ^ Suc l" "s \<le> x" "x < e" for x
    proof -
      note sl = slot_pages [OF b x(1,2)]
      have "digit l x = (x - b) div 512 ^ l"
        using sl by (intro div_nat_eqI [symmetric]) (auto simp: algebra_simps)
      moreover have "first \<le> (x - b) div 512 ^ l" unfolding first_def by (rule div_le_mono) (use x in auto)
      moreover have "(x - b) div 512 ^ l \<le> lst" unfolding lst_def by (rule div_le_mono) (use x in auto)
      ultimately show ?thesis by auto
    qed
    obtain t' where t': "clear_slots l sub (b * PAGE_SIZE) (s * PAGE_SIZE) (e * PAGE_SIZE) [first ..< lst + 1] t = Some t'"
      "cleared l t t' b (set [first ..< lst + 1]) s e"
      using clear_slots_ok [OF wf b distinct_upt _ se f sub] meets by blast
    have "cleared l t t' b UNIV s e"
      unfolding cleared_def
    proof (intro conjI allI impI)
      fix x
      assume x: "b \<le> x \<and> x < b + 512 ^ Suc l"
      have "mp x l t' = (if digit l x \<in> set [first ..< lst + 1] \<and> s \<le> x \<and> x < e then None else mp x l t)"
        using t'(2) x unfolding cleared_def by blast
      then show "mp x l t' = (if digit l x \<in> UNIV \<and> s \<le> x \<and> x < e then None else mp x l t)"
        using all [of x] x by auto
    qed (use t'(2) in \<open>simp_all add: cleared_def\<close>)
    moreover have "clear_node l sub (s * PAGE_SIZE) (e * PAGE_SIZE) (b * PAGE_SIZE) t = Some t'"
      using False t'(1) unfolding clear_node_def Let_def ne le fst_eq lst_eq by simp
    ultimately show ?thesis by blast
  qed
qed

lemma clear_leaf_range_ok:
  "wf_table l t \<Longrightarrow> b mod 512 ^ Suc l = 0 \<Longrightarrow> s < e \<Longrightarrow> fits l t b s e \<Longrightarrow>
     \<exists>t'. clear_leaf_range l (s * PAGE_SIZE) (e * PAGE_SIZE) (b * PAGE_SIZE) t = Some t' \<and> cleared l t t' b UNIV s e"
proof (induction l arbitrary: t b)
  case 0
  show ?case
    unfolding clear_leaf_range.simps by (rule clear_node_ok [OF 0]) simp
next
  case (Suc l)
  show ?case
    unfolding clear_leaf_range.simps
    by (rule clear_node_ok [OF Suc.prems]) (use Suc in auto)
qed

definition pages_in :: "geo \<Rightarrow> nat \<Rightarrow> nat \<Rightarrow> nat \<Rightarrow> bool" where
  "pages_in g va sz w \<longleftrightarrow> page_of g va \<le> page_of g w \<and> page_of g w < page_of g va + sz div PAGE_SIZE"

lemma unmap_prepared_ok:
  assumes g: "geo_ok g" and n: "levels g = Suc n" and wf: "wf_table n t" and sp: "in_space g va sz"
    and pr: "prepared n t (page_of g va) (sz div PAGE_SIZE)"
  shows "\<exists>t'. unmap_prepared_geometry g va sz t = Some t' \<and> wf_table n t' \<and> tb_ppn t' = tb_ppn t
    \<and> (\<forall>x < 512 ^ levels g. mp x n t' =
         (if page_of g va \<le> x \<and> x < page_of g va + sz div PAGE_SIZE then None else mp x n t))"
proof -
  let ?s = "page_of g va"
  obtain m where m: "sz = m * PAGE_SIZE" "0 < m" "va mod 2 ^ va_bits g = ?s * PAGE_SIZE"
    using in_space_pages [OF g sp] by metis
  have md: "sz div PAGE_SIZE = m" using m(1) by (simp add: PAGE_SIZE_def)
  have "fits n t 0 ?s (?s + m)" using pr unfolding fits_def prepared_def md by blast
  with clear_leaf_range_ok [OF wf, of 0 ?s "?s + m"] m(2) obtain t' where t':
    "clear_leaf_range n (?s * PAGE_SIZE) ((?s + m) * PAGE_SIZE) (0 * PAGE_SIZE) t = Some t'"
    "cleared n t t' 0 UNIV ?s (?s + m)" by auto
  then have "unmap_prepared_geometry g va sz t = Some t'"
    using m n by (simp add: unmap_prepared_geometry_def algebra_simps)
  with t'(2) show ?thesis unfolding md by (auto simp: cleared_def n simp del: power_Suc)
qed

lemma wf_walk_eq:
  assumes "geo_ok g" and "levels g = Suc n" and "wf_table n t" and "wf_table n t'"
    and "page_map n t' (page_of g w) = page_map n t (page_of g w)"
  shows "walk_ref_geometry g w t' = walk_ref_geometry g w t"
  using walk_ref_page_map [OF assms(1,2)] assms(3-5) by simp

lemma walk_none:
  assumes "geo_ok g" and "levels g = Suc n" and "wf_table n t"
  shows "walk_ref_geometry g w t = Inl NotMapped \<longleftrightarrow> mp (page_of g w) n t = None"
  unfolding walk_ref_page_map [OF assms] page_map_def by (cases "mp (page_of g w) n t") auto


section \<open>Pruning empty tables\<close>

lemma mset_swap_remove:
  assumes "i < length xs"
  shows "mset (vec_swap_remove i xs) = mset xs - {#xs ! i#}"
proof -
  have ne: "xs \<noteq> []" using assms by auto
  have "mset (xs[i := last xs]) = add_mset (last xs) (mset xs - {#xs ! i#})"
    using assms by (simp add: mset_update)
  moreover have "last (xs[i := last xs]) = last xs"
    using ne assms by (auto simp: last_conv_nth nth_list_update)
  moreover have "mset (butlast (xs[i := last xs])) + {#last (xs[i := last xs])#} = mset (xs[i := last xs])"
    using ne append_butlast_last_id [of "xs[i := last xs]"] by (metis list_update_nonempty mset_append mset_single_iff_right)
  ultimately show ?thesis
    unfolding vec_swap_remove_def by simp
qed

lemma swap_remove_set:
  assumes "i < length xs" and "distinct (map f xs)"
  shows "set (vec_swap_remove i xs) = set xs - {xs ! i}" and "distinct (map f (vec_swap_remove i xs))"
proof -
  let ?ys = "take i xs @ drop (Suc i) xs"
  have xs: "xs = take i xs @ xs ! i # drop (Suc i) xs" using assms(1) by (rule id_take_nth_drop)
  have m: "mset (vec_swap_remove i xs) = mset ?ys"
    using mset_swap_remove [OF assms(1)] arg_cong [OF xs, of mset] by simp
  have d: "distinct (map f (take i xs @ xs ! i # drop (Suc i) xs))" using assms(2) xs by simp
  have "set ?ys = set xs - {xs ! i}"
    using d arg_cong [OF xs, of set] by (auto simp: image_iff)
  then show "set (vec_swap_remove i xs) = set xs - {xs ! i}"
    using m by (metis mset_eq_setD)
  have "distinct (map f ?ys)" using d by auto
  moreover have "mset (map f (vec_swap_remove i xs)) = mset (map f ?ys)" using m by (simp only: mset_map)
  ultimately show "distinct (map f (vec_swap_remove i xs))" using mset_eq_imp_distinct_iff by blast
qed

lemma swap_remove_before:
  "k < i \<Longrightarrow> i < length xs \<Longrightarrow> vec_swap_remove i xs ! k = xs ! k"
  by (simp add: vec_swap_remove_def nth_butlast)

lemma prune_loop_spec:
  "prune_loop es i rs ret = (es', cs', ret') \<Longrightarrow> distinct (map fst rs) \<Longrightarrow>
   (\<forall>k < i. k < length rs \<longrightarrow> \<not> fst (snd (rs ! k))) \<Longrightarrow> fst ` set rs \<subseteq> {..<length es} \<Longrightarrow>
     length es' = length es
   \<and> (\<forall>j < length es. es' ! j = (if \<exists>c r. (j, True, c, r) \<in> set rs then entry_clear else es ! j))
   \<and> set cs' = {(s, c). \<exists>r. (s, False, c, r) \<in> set rs} \<and> distinct (map fst cs')"
proof (induction es i rs ret rule: prune_loop.induct)
  case (1 es i rs ret)
  show ?case
  proof (cases "i < length rs")
    case False
    have "\<not> fst (snd x)" if "x \<in> set rs" for x
      using that False 1(5) by (metis in_set_conv_nth not_less order_less_le_trans)
    then have no: "(s, True, c, r) \<notin> set rs" for s c r by force
    have r: "es' = es" "cs' = map (\<lambda>(slot, _, child, _). (slot, child)) rs"
      using 1(3) False by (simp_all add: prune_loop.simps [of es])
    have "set cs' = {(s, c). \<exists>r. (s, False, c, r) \<in> set rs}"
    proof (rule set_eqI, rule iffI)
      fix x
      assume "x \<in> set cs'"
      then obtain s v c r' where "(s, v, c, r') \<in> set rs" "x = (s, c)" by (auto simp: r(2))
      moreover from this(1) no [of s c r'] have "\<not> v" by (cases v) auto
      ultimately show "x \<in> {(s, c). \<exists>r. (s, False, c, r) \<in> set rs}" by auto
    next
      fix x
      assume "x \<in> {(s, c). \<exists>r. (s, False, c, r) \<in> set rs}"
      then obtain s c r' where "(s, False, c, r') \<in> set rs" "x = (s, c)" by auto
      then show "x \<in> set cs'" by (force simp: r(2))
    qed
    moreover have "map fst cs' = map fst rs" by (simp add: r(2) case_prod_unfold comp_def)
    ultimately show ?thesis using no r(1) 1(4) by auto
  next
    case True
    obtain slot v child below where e: "rs ! i = (slot, v, child, below)" by (cases "rs ! i") auto
    have mem: "(slot, v, child, below) \<in> set rs" using True e by (metis nth_mem)
    have uniq: "x = (slot, v, child, below)" if "x \<in> set rs" "fst x = slot" for x
      using 1(4) mem that by (metis (mono_tags, lifting) distinct_map fst_conv inj_onD)
    show ?thesis
    proof (cases v)
      case True
      let ?rs = "vec_swap_remove i rs"
      note sr = swap_remove_set [OF \<open>i < length rs\<close> 1(4)]
      have run: "prune_loop (es[slot := entry_clear]) i ?rs (ret @ below @ [child]) = (es', cs', ret')"
        using 1(3) True \<open>i < length rs\<close> e by (simp add: prune_loop.simps [of es])
      have bef: "\<forall>k < i. k < length ?rs \<longrightarrow> \<not> fst (snd (?rs ! k))"
        using 1(5) \<open>i < length rs\<close> swap_remove_before by (metis order_less_trans)
      have keys: "fst ` set ?rs \<subseteq> {..<length (es[slot := entry_clear])}" using sr(1) 1(6) by auto
      note IH = 1(1) [OF \<open>i < length rs\<close> e [symmetric] refl refl True run sr(2) bef keys]
      have t: "(\<exists>c r. (j, True, c, r) \<in> set ?rs) \<longleftrightarrow> j \<noteq> slot \<and> (\<exists>c r. (j, True, c, r) \<in> set rs)" for j
        using sr(1) uniq e by (force simp: True)
      have f: "(s, False, c, r) \<in> set ?rs \<longleftrightarrow> (s, False, c, r) \<in> set rs" for s c r
        using sr(1) e by (auto simp: True)
      have sl: "slot < length es" using mem 1(6) by force
      show ?thesis using IH sl mem True unfolding t f by (auto simp: nth_list_update)
    next
      case False
      have run: "prune_loop es (i + 1) rs (ret @ below) = (es', cs', ret')"
        using 1(3) False \<open>i < length rs\<close> e by (simp add: prune_loop.simps [of es])
      have bef: "\<forall>k < i + 1. k < length rs \<longrightarrow> \<not> fst (snd (rs ! k))"
        using 1(5) e False by (metis add.commute fst_conv less_Suc_eq plus_1_eq_Suc snd_conv)
      show ?thesis using 1(2) [OF \<open>i < length rs\<close> e [symmetric] refl refl False run 1(4) bef 1(6)] .
    qed
  qed
qed

fun solid :: "table \<Rightarrow> bool" where
  "solid (Table p es cs) \<longleftrightarrow>
     (\<forall>(i, c) \<in> set cs. (\<exists>e \<in> set (tb_entries c). entry_is_valid e) \<and> solid c)"

declare solid.simps [simp del]

lemma mp_all_invalid:
  "wf_table l t \<Longrightarrow> \<forall>e \<in> set (tb_entries t). \<not> entry_is_valid e \<Longrightarrow> mp x l t = None"
  by (cases t) (auto simp: mp_here entry_is_branch_def dest!: wf_TableD(1))

lemma prune_outcomes:
  fixes cs
  assumes "distinct (map fst cs)"
  defines "rs \<equiv> map (\<lambda>(slot, c). (slot, prune_empty c)) cs"
  shows "(j, v, c', r) \<in> set rs \<longleftrightarrow> (\<exists>c. (j, c) \<in> set cs \<and> prune_empty c = (v, c', r))"
    and "distinct (map fst rs)" and "fst ` set rs = fst ` set cs"
proof -
  have "map fst rs = map fst cs" by (simp add: rs_def case_prod_unfold comp_def)
  then show "distinct (map fst rs)" "fst ` set rs = fst ` set cs" using assms(1) by (simp, metis list.set_map)
  show "(j, v, c', r) \<in> set rs \<longleftrightarrow> (\<exists>c. (j, c) \<in> set cs \<and> prune_empty c = (v, c', r))"
    by (force simp: rs_def)
qed

definition pruned :: "nat \<Rightarrow> table \<Rightarrow> bool \<Rightarrow> table \<Rightarrow> bool" where
  "pruned l t v t' \<longleftrightarrow> wf_table l t' \<and> tb_ppn t' = tb_ppn t \<and> (\<forall>x. mp x l t' = mp x l t)
     \<and> (v \<longleftrightarrow> (\<forall>e \<in> set (tb_entries t'). \<not> entry_is_valid e)) \<and> solid t'"

lemma prune_empty_spec:
  "prune_empty t = (v, t', ret) \<Longrightarrow> wf_table l t \<Longrightarrow> pruned l t v t'"
proof (induction t arbitrary: l v t' ret rule: prune_empty.induct)
  case (1 p es cs)
  note w = wf_TableD [OF 1(3)]
  define rs where "rs = map (\<lambda>(slot, c). (slot, prune_empty c)) cs"
  obtain es' cs' r' where run: "prune_loop es 0 rs [] = (es', cs', r')" by (cases "prune_loop es 0 rs []") auto
  have t': "t' = Table p es' cs'" "v \<longleftrightarrow> (\<forall>e \<in> set es'. \<not> entry_is_valid e)"
    using 1(2) run by (auto simp: rs_def)
  note po = prune_outcomes [OF w(3), folded rs_def]
  have keys: "fst ` set rs \<subseteq> {..<length es}" using w(1,4) po(3) by auto
  have spec: "length es' = 512" "\<And>j. j < 512 \<Longrightarrow> es' ! j = (if \<exists>c r. (j, True, c, r) \<in> set rs then entry_clear else es ! j)"
    "set cs' = {(s, c). \<exists>r. (s, False, c, r) \<in> set rs}" "distinct (map fst cs')"
    using prune_loop_spec [OF run po(2) _ keys] w(1) by auto
  show ?case
  proof (cases l)
    case 0
    then have "cs = []" using w(6) by simp
    then have "es' = es" "cs' = []" using run by (simp_all add: rs_def prune_loop.simps)
    then show ?thesis using 1(3) t' \<open>cs = []\<close> by (auto simp: pruned_def solid.simps)
  next
    case (Suc l')
    have IH: "pruned l' c v' c'" if "(i, c) \<in> set cs" "prune_empty c = (v', c', r)" for i c v' c' r
      using 1(1) [OF that(1) refl that(2)] w(7) [OF Suc that(1)] by blast
    have uniq: "c1 = c2" if "(i, c1) \<in> set cs" "(i, c2) \<in> set cs" for i c1 c2
      using that w(3) by (metis map_of_is_SomeI option.inject)
    define gone where "gone i \<longleftrightarrow> (\<exists>c c' r. (i, c) \<in> set cs \<and> prune_empty c = (True, c', r))" for i
    have es': "es' ! j = (if gone j then entry_clear else es ! j)" if "j < 512" for j
      using spec(2) [OF that] unfolding po(1) gone_def by auto
    have cs': "(i, c') \<in> set cs' \<longleftrightarrow> (\<exists>c r. (i, c) \<in> set cs \<and> prune_empty c = (False, c', r))" for i c'
      unfolding spec(3) by (simp add: po(1)) blast
    have key: "i \<in> fst ` set cs' \<longleftrightarrow> i < 512 \<and> entry_is_branch (es ! i) \<and> \<not> gone i" for i
    proof -
      have "i \<in> fst ` set cs' \<longleftrightarrow> (\<exists>c c' r. (i, c) \<in> set cs \<and> prune_empty c = (False, c', r))"
        using cs' by force
      also have "\<dots> \<longleftrightarrow> i \<in> fst ` set cs \<and> \<not> gone i"
      proof
        assume "\<exists>c c' r. (i, c) \<in> set cs \<and> prune_empty c = (False, c', r)"
        then obtain c c' r where c: "(i, c) \<in> set cs" "prune_empty c = (False, c', r)" by blast
        have "\<not> gone i" unfolding gone_def using uniq [OF c(1)] c(2) by auto
        with c(1) show "i \<in> fst ` set cs \<and> \<not> gone i" by force
      next
        assume i: "i \<in> fst ` set cs \<and> \<not> gone i"
        then obtain c where "(i, c) \<in> set cs" by auto
        moreover obtain v c' r where "prune_empty c = (v, c', r)" by (metis surj_pair)
        moreover have "\<not> v" using i calculation unfolding gone_def by (cases v) auto
        ultimately show "\<exists>c c' r. (i, c) \<in> set cs \<and> prune_empty c = (False, c', r)" by auto
      qed
      finally show ?thesis using w(4) by auto
    qed
    have wf': "wf_table (Suc l') (Table p es' cs')"
    proof (rule wf_TableI)
      show "fst ` set cs' = {i. i < 512 \<and> entry_is_branch (es' ! i)}"
      proof (rule set_eqI)
        show "i \<in> fst ` set cs' \<longleftrightarrow> i \<in> {i. i < 512 \<and> entry_is_branch (es' ! i)}" for i
          unfolding key mem_Collect_eq using es' [of i]
          by (cases "i < 512"; cases "gone i") (simp_all add: entry_clear_def)
      qed
      show "leaf_ok (Suc l') (es' ! j)" if "j < 512" for j
        using es' [OF that] w(5) [OF that] Suc by (simp add: leaf_ok_def entry_clear_def)
      show "wf_table below c' \<and> unat (entry_ppn (es' ! i)) = tb_ppn c'"
        if "Suc l' = Suc below" "(i, c') \<in> set cs'" for below i c'
      proof -
        from that(2) obtain c r where c: "(i, c) \<in> set cs" "prune_empty c = (False, c', r)" using cs' by blast
        have "i \<in> fst ` set cs'" using that(2) by force
        then have "i < 512" "\<not> gone i" using key by auto
        then show ?thesis using IH [OF c] w(7) [OF Suc c(1)] es' that(1) by (simp add: pruned_def)
      qed
    qed (use spec w Suc in auto)
    have "mp x (Suc l') (Table p es' cs') = mp x (Suc l') (Table p es cs)" for x
    proof (cases "entry_is_branch (es ! digit (Suc l') x)")
      case False
      then have "\<not> gone (digit (Suc l') x)"
        using w(4) unfolding gone_def by (metis (mono_tags, lifting) fst_conv image_eqI mem_Collect_eq)
      with False show ?thesis by (simp add: mp_here es')
    next
      case True
      from wf_child [OF 1(3) digit_less True] Suc obtain c where c: "map_of cs (digit (Suc l') x) = Some c" "wf_table l' c" by auto
      then have mem: "(digit (Suc l') x, c) \<in> set cs" by (simp add: map_of_SomeD)
      obtain v' c' r where pr: "prune_empty c = (v', c', r)" by (metis surj_pair)
      note P = IH [OF mem pr, unfolded pruned_def]
      show ?thesis
      proof (cases v')
        case True
        then have "gone (digit (Suc l') x)" using mem pr by (auto simp: gone_def)
        moreover have "mp x l' c = None" using P True mp_all_invalid by metis
        ultimately show ?thesis
          using \<open>entry_is_branch (es ! digit (Suc l') x)\<close> c(1) by (simp add: mp_here es' entry_clear_def mp_below)
      next
        case False
        then have "\<not> gone (digit (Suc l') x)" using uniq [OF mem] pr unfolding gone_def by auto
        moreover have "map_of cs' (digit (Suc l') x) = Some c'"
          using cs' mem pr False spec(4) by (intro map_of_is_SomeI) auto
        ultimately show ?thesis
          using \<open>entry_is_branch (es ! digit (Suc l') x)\<close> c(1) P by (simp add: es' mp_below)
      qed
    qed
    moreover have "solid (Table p es' cs')"
      unfolding solid.simps
    proof (clarify)
      fix i c'
      assume "(i, c') \<in> set cs'"
      then obtain c r where "(i, c) \<in> set cs" "prune_empty c = (False, c', r)" using cs' by blast
      from IH [OF this] show "(\<exists>e \<in> set (tb_entries c'). entry_is_valid e) \<and> solid c'" by (auto simp: pruned_def)
    qed
    ultimately show ?thesis using wf' t' Suc by (simp add: pruned_def)
  qed
qed

end
