(* ===== verification/Page_Map.thy ===== *)
theory Page_Map
  imports Page_Table
begin

text \<open>
  Mapping a range of pages: the preparation of the path to every slot, the writing of
  the leaves, the change of permissions on one page, and the walk over physical memory.
  The order matters: a range is prepared, which may fail, and then written, which may not.
\<close>

section \<open>Slots on a path\<close>

text \<open>The entry of page \<open>x\<close> in the table of level \<open>k\<close>, when the path down to it exists.\<close>

fun slot_at :: "nat \<Rightarrow> nat \<Rightarrow> nat \<Rightarrow> table \<Rightarrow> pte option" where
  "slot_at x k level (Table p es cs) =
     (let entry = es ! digit level x in
      if level = k then Some entry
      else if \<not> entry_is_branch entry then None
      else case level of
             0 \<Rightarrow> None
           | Suc below \<Rightarrow> (case map_of cs (digit level x) of None \<Rightarrow> None | Some c \<Rightarrow> slot_at x k below c))"

declare slot_at.simps [simp del]

lemma slot_here: "slot_at x level level (Table p es cs) = Some (es ! digit level x)"
  by (simp add: slot_at.simps)

lemma slot_stop: "k < Suc l \<Longrightarrow> \<not> entry_is_branch (es ! digit (Suc l) x) \<Longrightarrow> slot_at x k (Suc l) (Table p es cs) = None"
  by (simp add: slot_at.simps Let_def)

lemma slot_below: "k < Suc l \<Longrightarrow> entry_is_branch (es ! digit (Suc l) x) \<Longrightarrow> map_of cs (digit (Suc l) x) = Some c \<Longrightarrow>
    slot_at x k (Suc l) (Table p es cs) = slot_at x k l c"
  by (simp add: slot_at.simps Let_def)

lemma slot_fresh: "k \<le> l \<Longrightarrow> slot_at x k l (table_leaf q) = (if k = l then Some 0 else None)"
  by (cases l) (auto simp: slot_at.simps table_leaf_def Let_def)

lemma slot_put_child:
  assumes "wf_table (Suc l) (Table p es cs)" and "map_of cs i = Some c" and "k < Suc l"
  shows "slot_at x k (Suc l) (Table p es (AList.update i c' cs))
       = (if digit (Suc l) x = i then slot_at x k l c' else slot_at x k (Suc l) (Table p es cs))"
proof -
  have "(i, c) \<in> set cs" using assms(2) by (rule map_of_SomeD)
  then have "i \<in> fst ` set cs" by force
  then have "entry_is_branch (es ! i)" unfolding wf_TableD(4) [OF assms(1)] by auto
  then show ?thesis using assms(3) by (simp add: slot_at.simps Let_def update_conv')
qed

lemma slot_grow_child:
  assumes "wf_table (Suc l) (Table p es cs)" and "i < 512" and "\<not> entry_is_branch (es ! i)" and "k < Suc l"
  shows "slot_at x k (Suc l) (Table p (es[i := entry_set q PTE_V]) (cs @ [(i, c)]))
       = (if digit (Suc l) x = i then slot_at x k l c else slot_at x k (Suc l) (Table p es cs))"
proof -
  note w = wf_TableD [OF assms(1)]
  have "i \<notin> fst ` set cs" unfolding w(4) using assms by simp
  then have none: "map_of cs i = None" by (simp add: map_of_eq_None_iff)
  then show ?thesis using w(1) assms(2-4)
    by (cases "map_of cs (digit (Suc l) x)") (simp_all add: slot_at.simps Let_def nth_list_update map_add_def)
qed

text \<open>Reaching the slot \<open>(x, target)\<close> leaves every slot that does not meet it alone.\<close>

definition slot_result ::
  "bool \<Rightarrow> nat \<Rightarrow> nat \<Rightarrow> nat \<Rightarrow> table \<Rightarrow> (pte \<Rightarrow> pte) \<Rightarrow> nest_error + pte \<Rightarrow> table \<Rightarrow> bool" where
  "slot_result alloc level target x t f r t' \<longleftrightarrow>
     (\<forall>e. slot_at x target level t = Some e \<longrightarrow> r = Inr e)
   \<and> (\<forall>e. r = Inr e \<longrightarrow> slot_at x target level t' = Some (f e))
   \<and> (\<forall>e. r = Inr e \<and> entry_is_branch e \<longrightarrow> slot_at x target level t = Some e)
   \<and> (\<forall>y k. k \<le> level \<and> \<not> agree level (max k target) x y \<longrightarrow>
        (\<forall>e. slot_at y k level t = Some e \<longrightarrow> slot_at y k level t' = Some e)
      \<and> (\<forall>e. slot_at y k level t' = Some e \<and> entry_is_branch e \<longrightarrow> slot_at y k level t = Some e))"

lemma slot_entry_here:
  assumes "wf_table level (Table p es cs)"
  shows "slot_result alloc level level x (Table p es cs) f (Inr (es ! digit level x))
    (Table p (es[digit level x := f (es ! digit level x)]) cs)"
proof -
  have len: "length es = 512" using wf_TableD(1) [OF assms] .
  have "slot_at y k level (Table p (es[digit level x := f (es ! digit level x)]) cs) = slot_at y k level (Table p es cs)"
    if "\<not> agree level (max k level) x y" "k \<le> level" for y k
  proof -
    have "digit level y \<noteq> digit level x" using that by (auto simp: max_def agree_here split: if_splits)
    then show ?thesis by (simp add: slot_at.simps)
  qed
  then show ?thesis using len by (auto simp: slot_result_def slot_here)
qed

lemma slot_resultD:
  assumes "slot_result alloc level target x t f r t'"
  shows "slot_at x target level t = Some e \<Longrightarrow> r = Inr e"
    and "r = Inr e \<Longrightarrow> slot_at x target level t' = Some (f e)"
    and "r = Inr e \<Longrightarrow> entry_is_branch e \<Longrightarrow> slot_at x target level t = Some e"
    and "k \<le> level \<Longrightarrow> \<not> agree level (max k target) x y \<Longrightarrow>
      slot_at y k level t = Some e \<Longrightarrow> slot_at y k level t' = Some e"
    and "k \<le> level \<Longrightarrow> \<not> agree level (max k target) x y \<Longrightarrow>
      slot_at y k level t' = Some e \<Longrightarrow> entry_is_branch e \<Longrightarrow> slot_at y k level t = Some e"
  using assms unfolding slot_result_def by blast+

lemma slot_lift:
  assumes r: "slot_result alloc l target x c f r c'" and tl: "target \<le> l"
    and base: "\<And>y k e. k \<le> l \<Longrightarrow> digit (Suc l) y = digit (Suc l) x \<Longrightarrow> slot_at y k (Suc l) t = Some e \<Longrightarrow> slot_at y k l c = Some e"
      "\<And>y k e. k \<le> l \<Longrightarrow> digit (Suc l) y = digit (Suc l) x \<Longrightarrow> entry_is_branch e \<Longrightarrow> slot_at y k l c = Some e \<Longrightarrow> slot_at y k (Suc l) t = Some e"
      "\<And>y. digit (Suc l) y \<noteq> digit (Suc l) x \<Longrightarrow> slot_at y (Suc l) (Suc l) t' = slot_at y (Suc l) (Suc l) t"
    and up: "\<And>y k. k \<le> l \<Longrightarrow> slot_at y k (Suc l) t' = (if digit (Suc l) y = digit (Suc l) x then slot_at y k l c' else slot_at y k (Suc l) t)"
  shows "slot_result alloc (Suc l) target x t f r t'"
proof -
  note R = slot_resultD [OF r]
  have up_in: "slot_at y k (Suc l) t' = slot_at y k l c'" if "k \<le> l" "digit (Suc l) y = digit (Suc l) x" for y k
    using up [OF that(1), of y] that(2) by simp
  have up_out: "slot_at y k (Suc l) t' = slot_at y k (Suc l) t" if "k \<le> Suc l" "digit (Suc l) y \<noteq> digit (Suc l) x" for y k
    using up [of k y] base(3) [OF that(2)] that by (cases "k = Suc l") auto
  have deeper: "k \<le> l \<and> \<not> agree l (max k target) x y"
    if "k \<le> Suc l" "\<not> agree (Suc l) (max k target) x y" "digit (Suc l) y = digit (Suc l) x" for y k
  proof -
    have "k \<noteq> Suc l" using that tl by (auto simp: max_def agree_here)
    then show ?thesis using that tl agree_Suc [of "max k target" l x y] by simp
  qed
  have fwd: "slot_at y k (Suc l) t' = Some e"
    if "k \<le> Suc l" "\<not> agree (Suc l) (max k target) x y" "slot_at y k (Suc l) t = Some e" for y k e
  proof (cases "digit (Suc l) y = digit (Suc l) x")
    case True
    note d = deeper [OF that(1,2) True]
    from base(1) [OF _ True that(3)] d have "slot_at y k l c = Some e" by simp
    with R(4) d have "slot_at y k l c' = Some e" by blast
    then show ?thesis using up_in [OF _ True] d by simp
  next
    case False
    then show ?thesis using up_out [OF that(1)] that(3) by simp
  qed
  have bwd: "slot_at y k (Suc l) t = Some e"
    if "k \<le> Suc l" "\<not> agree (Suc l) (max k target) x y" "slot_at y k (Suc l) t' = Some e" "entry_is_branch e" for y k e
  proof (cases "digit (Suc l) y = digit (Suc l) x")
    case True
    note d = deeper [OF that(1,2) True]
    from up_in [OF _ True] d that(3) have "slot_at y k l c' = Some e" by simp
    with R(5) d that(4) have "slot_at y k l c = Some e" by blast
    with base(2) [OF _ True that(4)] d show ?thesis by simp
  next
    case False
    then show ?thesis using up_out [OF that(1)] that(3) by simp
  qed
  show ?thesis
    unfolding slot_result_def
  proof (intro conjI allI impI)
    show "r = Inr e" if "slot_at x target (Suc l) t = Some e" for e
      using base(1) [OF tl refl that] by (rule R(1))
    show "slot_at x target (Suc l) t' = Some (f e)" if "r = Inr e" for e
      using R(2) [OF that] up_in [OF tl refl] by simp
    show "slot_at x target (Suc l) t = Some e" if "r = Inr e \<and> entry_is_branch e" for e
      using base(2) [OF tl refl, of e] R(3) that by simp
    show "slot_at y k (Suc l) t' = Some e"
      if "k \<le> Suc l \<and> \<not> agree (Suc l) (max k target) x y" "slot_at y k (Suc l) t = Some e" for y k e
      using fwd that by blast
    show "slot_at y k (Suc l) t = Some e"
      if "k \<le> Suc l \<and> \<not> agree (Suc l) (max k target) x y" "slot_at y k (Suc l) t' = Some e \<and> entry_is_branch e" for y k e
      using bwd that by blast
  qed
qed

lemma entry_at_slots:
  assumes "geo_ok g" and "wf_table level t" and "target \<le> level" and "level < levels g" and "frames_ok fs"
    and "entry_at alloc va target f level t fs = Some (r, t', fs')"
  shows "slot_result alloc level target (page_of g va) t f r t'"
  using assms
proof (induction level arbitrary: t fs r t' fs')
  case 0
  obtain p es cs where t: "t = Table p es cs" by (cases t)
  show ?case using slot_entry_here [of 0 p es cs alloc "page_of g va" f] 0 t
    by (simp add: vpn_digit [OF 0(1)] Let_def)
next
  case (Suc l)
  obtain p es cs where t: "t = Table p es cs" by (cases t)
  let ?x = "page_of g va" and ?i = "digit (Suc l) (page_of g va)"
  note wf = Suc.prems(2) [unfolded t] and run = Suc.prems(6)
  have idx: "vpn va (Suc l) = ?i" using vpn_digit Suc.prems by blast
  show ?case
  proof (cases "Suc l = target")
    case True
    with slot_entry_here [OF wf, of alloc ?x f] t idx run show ?thesis by (simp add: Let_def)
  next
    case False
    then have tl: "target \<le> l" using Suc.prems(3) by simp
    note IH = Suc.IH [OF Suc.prems(1) _ tl Suc_lessD [OF Suc.prems(4)]]
    have keep: "slot_result alloc (Suc l) target ?x t f (Inl err) t" if "\<not> entry_is_branch (es ! ?i)" for err
      using that tl by (auto simp: slot_result_def t slot_stop)
    show ?thesis
    proof (cases "entry_is_branch (es ! ?i)")
      case True
      from wf_child [OF wf digit_less True] obtain c where c: "map_of cs ?i = Some c" "wf_table l c" by auto
      obtain r1 c' fs1 where d: "entry_at alloc va target f l c fs = Some (r1, c', fs1)"
        using entry_at_spec [OF Suc.prems(1) c(2) tl Suc_lessD [OF Suc.prems(4)] Suc.prems(5)] by blast
      have eqs: "r1 = r" "t' = Table p es (AList.update ?i c' cs)"
        using run d True False c(1) idx by (auto simp: t entry_is_branch_def Let_def)
      note R = IH [OF c(2) Suc.prems(5) d]
      have below: "slot_at y k (Suc l) t = slot_at y k l c" if "k \<le> l" "digit (Suc l) y = ?i" for y k
        using that True c(1) by (simp add: t slot_below)
      have up: "slot_at y k (Suc l) t' = (if digit (Suc l) y = ?i then slot_at y k l c' else slot_at y k (Suc l) t)"
        if "k \<le> l" for y k
        using that by (simp add: eqs(2) t slot_put_child [OF wf c(1)])
      show ?thesis
        unfolding eqs(1) [symmetric]
      proof (rule slot_lift [OF R tl _ _ _ up])
        show "slot_at y (Suc l) (Suc l) t' = slot_at y (Suc l) (Suc l) t" for y
          by (simp add: eqs(2) t slot_here)
        show "slot_at y k l c = Some e" if "k \<le> l" "digit (Suc l) y = ?i" "slot_at y k (Suc l) t = Some e" for y k e
          using that below by metis
        show "slot_at y k (Suc l) t = Some e" if "k \<le> l" "digit (Suc l) y = ?i" "slot_at y k l c = Some e" for y k e
          using that below by metis
      qed
    next
      case nb: False
      show ?thesis
      proof (cases "entry_is_valid (es ! ?i)")
        case True
        then have "r = Inl AlreadyMapped" "t' = t" using run nb False idx by (auto simp: t entry_is_branch_def Let_def)
        then show ?thesis using keep [OF nb] by simp
      next
        case inv: False
        show ?thesis
        proof (cases "\<not> alloc \<or> fs = [] \<or> \<not> snd (hd fs)")
          case True
          then obtain err where "r = Inl err" "t' = t" using run inv False idx by (cases fs) (auto simp: t Let_def split: if_splits)
          then show ?thesis using keep [OF nb] by simp
        next
          case al: False
          then obtain q fs1 where fs: "fs = (q, True) # fs1" by (cases fs) auto
          have q: "q < 2 ^ 52" and f1: "frames_ok fs1" using Suc.prems(5) by (auto simp: frames_ok_def fs)
          obtain r1 c' fs2 where d: "entry_at alloc va target f l (table_leaf q) fs1 = Some (r1, c', fs2)"
            using entry_at_spec [OF Suc.prems(1) wf_fresh [OF q] tl Suc_lessD [OF Suc.prems(4)] f1] by blast
          have lp: "tb_ppn (table_leaf q) = q" by (simp add: table_leaf_def)
          note gr = grow_child [OF wf digit_less nb wf_fresh [OF q] lp]
          have eqs: "r1 = r" "t' = Table p (es[?i := entry_set (word_of_nat q) PTE_V]) (AList.update ?i c' (cs @ [(?i, table_leaf q)]))"
            using run d inv False al idx fs gr(2) by (auto simp: t Let_def)
          note R = IH [OF wf_fresh [OF q] f1 d]
          have up: "slot_at y k (Suc l) t' = (if digit (Suc l) y = ?i then slot_at y k l c' else slot_at y k (Suc l) t)"
            if "k \<le> l" for y k
            using that by (simp add: eqs(2) t slot_put_child [OF gr(1,2)] slot_grow_child [OF wf digit_less nb])
          show ?thesis
            unfolding eqs(1) [symmetric]
          proof (rule slot_lift [OF R tl _ _ _ up])
            show "slot_at y k l (table_leaf q) = Some e"
              if "k \<le> l" "digit (Suc l) y = ?i" "slot_at y k (Suc l) t = Some e" for y k e
              using that nb by (simp add: t slot_stop)
            show "slot_at y k (Suc l) t = Some e"
              if "k \<le> l" "digit (Suc l) y = ?i" "entry_is_branch e" "slot_at y k l (table_leaf q) = Some e" for y k e
              using that by (simp add: slot_fresh split: if_splits)
            show "slot_at y (Suc l) (Suc l) t' = slot_at y (Suc l) (Suc l) t" if "digit (Suc l) y \<noteq> ?i" for y
              using that by (simp add: eqs(2) t slot_here)
          qed
        qed
      qed
    qed
  qed
qed

section \<open>Chunks of a range\<close>

lemma agree_div:
  "x < 512 ^ Suc n \<Longrightarrow> y < 512 ^ Suc n \<Longrightarrow> m \<le> n \<Longrightarrow> agree n m x y \<longleftrightarrow> x div 512 ^ m = y div 512 ^ m"
proof
  show "agree n m x y" if "x div 512 ^ m = y div 512 ^ m"
    unfolding agree_def digit_def using div_power_mono [OF that] by metis
  show "x div 512 ^ m = y div 512 ^ m"
    if "x < 512 ^ Suc n" "y < 512 ^ Suc n" "m \<le> n" "agree n m x y"
    using that
  proof (induction n arbitrary: x y)
    case 0
    then show ?case by (simp add: agree_here digit_def)
  next
    case (Suc n)
    have top: "digit (Suc n) z = z div 512 ^ Suc n" if "z < 512 ^ Suc (Suc n)" for z
      using that by (simp add: digit_def less_mult_imp_div_less)
    have dg: "digit (Suc n) x = digit (Suc n) y" using Suc.prems(3,4) by (simp add: agree_def)
    show ?case
    proof (cases "m = Suc n")
      case True
      then show ?thesis using dg top Suc.prems(1,2) by simp
    next
      case False
      then have mn: "m \<le> n" using Suc.prems(3) by simp
      let ?x = "x mod 512 ^ Suc n" and ?y = "y mod 512 ^ Suc n"
      have "agree n m ?x ?y"
        using Suc.prems(4) unfolding agree_def by (simp add: digit_mod del: power_Suc)
      with Suc.IH [OF _ _ mn] have r: "?x div 512 ^ m = ?y div 512 ^ m" by simp
      obtain d where d: "(512::nat) ^ Suc n = 512 ^ m * d" using mn by (metis le_SucI le_imp_power_dvd dvdE)
      have "z div 512 ^ m = z div 512 ^ Suc n * d + z mod 512 ^ Suc n div 512 ^ m" for z :: nat
      proof -
        have "z = 512 ^ m * (z div 512 ^ Suc n * d) + z mod 512 ^ Suc n"
          using div_mult_mod_eq [of z "512 ^ Suc n"] unfolding d by (simp add: algebra_simps)
        then show ?thesis using div_mult_self4 [of "512 ^ m" "z div 512 ^ Suc n * d" "z mod 512 ^ Suc n"] by simp
      qed
      then show ?thesis using r dg top Suc.prems(1,2) by metis
    qed
  qed
qed

text \<open>Two aligned slots, one before the other, do not meet.\<close>

lemma slots_apart:
  assumes "y mod 512 ^ k = 0" and "x mod 512 ^ j = 0" and "y + 512 ^ k \<le> x" and "x < 512 ^ Suc n"
    and "k \<le> n" and "j \<le> n"
  shows "\<not> agree n (max k j) x y" and "\<not> agree n (max k j) y x"
proof -
  have "y < x" using assms(3) zero_less_power [of "512 :: nat" k] by linarith
  have "y div 512 ^ max k j \<noteq> x div 512 ^ max k j"
  proof (cases "j \<le> k")
    case True
    have "y div 512 ^ k + 1 \<le> x div 512 ^ k"
      using div_le_mono [OF assms(3), of "512 ^ k"] by (simp add: div_add_self2)
    then show ?thesis using True by (simp add: max_def)
  next
    case False
    have "x = x div 512 ^ j * 512 ^ j" using assms(2) by (simp add: mod_0_imp_dvd)
    then have "y div 512 ^ j < x div 512 ^ j" using \<open>y < x\<close> by (metis less_mult_imp_div_less)
    then show ?thesis using False by (simp add: max_def)
  qed
  moreover have "y < 512 ^ Suc n" using \<open>y < x\<close> assms(4) by simp
  ultimately show "\<not> agree n (max k j) x y" "\<not> agree n (max k j) y x"
    using agree_div [of x n y "max k j"] agree_div [of y n x "max k j"] assms(4-6) by auto
qed

lemma slot_members:
  assumes "x mod 512 ^ k = 0" and "x < 512 ^ Suc n" and "y < 512 ^ Suc n" and "k \<le> n"
  shows "agree n k x y \<longleftrightarrow> x \<le> y \<and> y < x + 512 ^ k"
proof -
  have x: "x = x div 512 ^ k * 512 ^ k" using assms(1) by (simp add: mod_0_imp_dvd)
  have "agree n k x y \<longleftrightarrow> x div 512 ^ k = y div 512 ^ k" using agree_div assms by blast
  also have "\<dots> \<longleftrightarrow> x \<le> y \<and> y < x + 512 ^ k"
    using same_leaf [of x k y] leaf_bounds [of y k] x by metis
  finally show ?thesis .
qed

lemma pick_target_ok:
  assumes "PAGE_SIZE \<le> left" and "v mod PAGE_SIZE = 0" and "p mod PAGE_SIZE = 0"
  shows "pick_target left v p hi \<le> hi" and "table_span (pick_target left v p hi) \<le> left"
    and "v mod table_span (pick_target left v p hi) = 0" and "p mod table_span (pick_target left v p hi) = 0"
  using assms by (induction hi) (auto simp: span_pages)

function chunks :: "geo \<Rightarrow> nat \<Rightarrow> nat \<Rightarrow> nat \<Rightarrow> nat \<Rightarrow> (nat \<times> nat) list" where
  "chunks g va pa sz offset =
     (if \<not> offset < sz then []
      else let k = pick_target (sz - offset) (va + offset) (pa + offset) (min 2 (levels g - 1)) in
        (offset, k) # chunks g va pa sz (offset + table_span k))"
  by pat_completeness auto
termination
  by (relation "measure (\<lambda>(g, va, pa, sz, offset). sz - offset)") (auto simp: diff_less_mono2)

declare chunks.simps [simp del]

text \<open>
  The situation of one mapping call: page \<open>s\<close> of the space onwards, \<open>m\<close> pages, to the
  physical pages from \<open>q\<close> on.
\<close>

definition job :: "geo \<Rightarrow> nat \<Rightarrow> nat \<Rightarrow> nat \<Rightarrow> nat \<Rightarrow> nat \<Rightarrow> nat \<Rightarrow> nat \<Rightarrow> bool" where
  "job g n va pa sz s m q \<longleftrightarrow> geo_ok g \<and> levels g = Suc n \<and> in_space g va sz \<and> s = page_of g va
     \<and> sz = m * PAGE_SIZE \<and> pa = q * PAGE_SIZE \<and> s + m \<le> 512 ^ Suc n \<and> q + m \<le> 2 ^ 52"

lemma jobI:
  assumes "geo_ok g" and "in_space g va sz" and "pa mod PAGE_SIZE = 0" and "pa + sz \<le> USIZE"
  obtains n m q where "job g n va pa sz (page_of g va) m q"
proof -
  obtain n where n: "levels g = Suc n" using assms(1) by (cases "levels g") (auto simp: geo_ok_def)
  obtain m where m: "sz = m * PAGE_SIZE" "page_of g va + m \<le> 512 ^ levels g"
    using in_space_pages [OF assms(1,2)] by metis
  obtain q where q: "pa = q * PAGE_SIZE" using assms(3) by (metis mod_0_imp_dvd dvd_def mult.commute)
  have "(q + m) * PAGE_SIZE \<le> 2 ^ 52 * PAGE_SIZE" using assms(4) m q by (simp add: USIZE_def PAGE_SIZE_def)
  then have "q + m \<le> 2 ^ 52" by (simp add: PAGE_SIZE_def)
  with n m q assms show thesis by (intro that [of n m q]) (simp add: job_def)
qed

lemma chunk_facts:
  assumes j: "job g n va pa sz s m q" and o: "o' < m" "off = o' * PAGE_SIZE"
  defines "k \<equiv> pick_target (sz - off) (va + off) (pa + off) (min 2 (levels g - 1))"
  shows "off < sz" and "k \<le> n" and "o' + 512 ^ k \<le> m" and "(s + o') mod 512 ^ k = 0" and "(q + o') mod 512 ^ k = 0"
    and "page_of g (va + off) = s + o'" and "off + table_span k = (o' + 512 ^ k) * PAGE_SIZE"
proof -
  have J: "geo_ok g" "levels g = Suc n" "s = page_of g va" "sz = m * PAGE_SIZE" "pa = q * PAGE_SIZE" "s + m \<le> 512 ^ Suc n"
    "va mod PAGE_SIZE = 0" "va mod 2 ^ va_bits g + sz \<le> 2 ^ va_bits g" using j by (auto simp: job_def in_space_def)
  show lt: "off < sz" using o J(4) by (simp add: PAGE_SIZE_def)
  have left: "sz - off = (m - o') * PAGE_SIZE" using o J(4) by (simp add: diff_mult_distrib)
  have "PAGE_SIZE \<le> sz - off" using o(1) unfolding left by (simp add: PAGE_SIZE_def)
  moreover have va: "(va + off) mod PAGE_SIZE = 0" using J(7) o(2) by (simp add: mod_add_eq)
  moreover have "(pa + off) mod PAGE_SIZE = 0" using J(5) o(2) by (simp add: mod_add_eq)
  ultimately have P: "k \<le> min 2 (levels g - 1)" "table_span k \<le> sz - off" "(va + off) mod table_span k = 0"
    "(pa + off) mod table_span k = 0" unfolding k_def by (rule pick_target_ok)+
  from P(1) J(2) show kn: "k \<le> n" by simp
  have "512 ^ k * PAGE_SIZE \<le> (m - o') * PAGE_SIZE" using P(2) left by (simp add: span_pages mult.commute)
  then have "512 ^ k \<le> m - o'" by (simp add: PAGE_SIZE_def)
  then show "o' + 512 ^ k \<le> m" using o(1) by simp
  show pg: "page_of g (va + off) = s + o'"
    using page_of_plus [OF J(1,7), of off] J(3,8) lt o(2) by (simp add: PAGE_SIZE_def)
  have "page_of g (va + off) mod 512 ^ k * PAGE_SIZE = 0"
    using point_offset [OF J(1) _ va, of k] P(3) kn J(2) by simp
  then show "(s + o') mod 512 ^ k = 0" using pg by (simp add: PAGE_SIZE_def)
  have "(pa + off) mod table_span k = PAGE_SIZE * ((q + o') mod 512 ^ k)"
  proof -
    have "pa + off = PAGE_SIZE * (q + o')" using J(5) o(2) by (simp add: algebra_simps)
    then show ?thesis unfolding span_pages by (simp only: mult_mod_right)
  qed
  then show "(q + o') mod 512 ^ k = 0" using P(4) by (simp add: PAGE_SIZE_def)
  show "off + table_span k = (o' + 512 ^ k) * PAGE_SIZE" by (simp add: span_pages o(2) algebra_simps)
qed

section \<open>Preparing a range\<close>

lemma agree_mono: "a \<le> b \<Longrightarrow> agree n a x y \<Longrightarrow> agree n b x y"
  by (simp add: agree_def)

lemma agree_self [simp]: "agree n a x x"
  by (simp add: agree_def)

lemma slot_bottom: "wf_table n t \<Longrightarrow> slot_at x 0 n t = Some e \<Longrightarrow> \<not> entry_is_branch e"
proof (induction n arbitrary: t)
  case 0
  obtain p es cs where t: "t = Table p es cs" by (cases t)
  show ?case
  proof
    assume "entry_is_branch e"
    with 0 t have "entry_is_branch (es ! digit 0 x)" by (simp add: slot_here)
    from wf_child [OF 0(1) [unfolded t] digit_less this] show False by auto
  qed
next
  case (Suc n)
  obtain p es cs where t: "t = Table p es cs" by (cases t)
  show ?case
  proof (cases "entry_is_branch (es ! digit (Suc n) x)")
    case True
    from wf_child [OF Suc.prems(1) [unfolded t] digit_less True]
    obtain c where "map_of cs (digit (Suc n) x) = Some c" "wf_table n c" by auto
    with True Suc.IH Suc.prems(2) t show ?thesis by (simp add: slot_below)
  next
    case False
    with Suc.prems(2) t show ?thesis by (simp add: slot_stop)
  qed
qed

definition frame_of :: "nat \<Rightarrow> nat \<Rightarrow> nat \<Rightarrow> table \<Rightarrow> table \<Rightarrow> bool" where
  "frame_of n k x t t' \<longleftrightarrow> (\<forall>y j e. j \<le> n \<and> \<not> agree n (max j k) x y \<longrightarrow>
     (slot_at y j n t = Some e \<longrightarrow> slot_at y j n t' = Some e)
   \<and> (slot_at y j n t' = Some e \<and> entry_is_branch e \<longrightarrow> slot_at y j n t = Some e))"

lemma frame_ofD:
  assumes "frame_of n k x t t'" and "j \<le> n" and "\<not> agree n (max j k) x y"
  shows "slot_at y j n t = Some e \<Longrightarrow> slot_at y j n t' = Some e"
    and "slot_at y j n t' = Some e \<Longrightarrow> entry_is_branch e \<Longrightarrow> slot_at y j n t = Some e"
  using assms unfolding frame_of_def by blast+

lemma frame_of_slots:
  assumes "slot_result alloc n k x t f r t'"
  shows "frame_of n k x t t'"
  unfolding frame_of_def
proof (intro allI impI conjI)
  fix y j e
  assume j: "j \<le> n \<and> \<not> agree n (max j k) x y"
  show "slot_at y j n t' = Some e" if "slot_at y j n t = Some e"
    using slot_resultD(4) [OF assms] j that by blast
  show "slot_at y j n t = Some e" if "slot_at y j n t' = Some e \<and> entry_is_branch e"
    using slot_resultD(5) [OF assms] j that by blast
qed

lemma frame_of_trans:
  assumes "frame_of n k x t u" and "frame_of n j x u v" and "j \<le> k"
  shows "frame_of n k x t v"
  unfolding frame_of_def
proof (intro allI impI conjI)
  fix y i e
  assume i: "i \<le> n \<and> \<not> agree n (max i k) x y"
  then have "\<not> agree n (max i j) x y" using assms(3) agree_mono [of "max i j" "max i k"] by auto
  note F = frame_ofD [OF assms(1)] frame_ofD [OF assms(2)]
  show "slot_at y i n v = Some e" if "slot_at y i n t = Some e"
    using F(1,3) i \<open>\<not> agree n (max i j) x y\<close> that by blast
  show "slot_at y i n t = Some e" if "slot_at y i n v = Some e \<and> entry_is_branch e"
    using F(2,4) i \<open>\<not> agree n (max i j) x y\<close> that by blast
qed

definition slot_prepared :: "nat \<Rightarrow> nat \<Rightarrow> nat \<Rightarrow> table \<Rightarrow> nest_error + nat \<Rightarrow> table \<Rightarrow> bool" where
  "slot_prepared n k x t r t' \<longleftrightarrow> wf_table n t' \<and> (\<forall>y. mp y n t' = mp y n t) \<and> frame_of n k x t t'
   \<and> (\<forall>err. r = Inl err \<longrightarrow> err = AlreadyMapped \<and> mp x n t \<noteq> None \<or> err = OutOfMemory)
   \<and> (\<forall>j. r = Inr j \<longrightarrow> j \<le> k \<and> (\<exists>e. slot_at x j n t' = Some e \<and> \<not> entry_is_valid e)
        \<and> (\<forall>y. agree n j x y \<longrightarrow> mp y n t = None)
        \<and> (j \<noteq> k \<longrightarrow> (\<exists>e. slot_at x k n t = Some e \<and> entry_is_branch e)))"

lemma prepare_slot_spec:
  assumes g: "geo_ok g" and n: "levels g = Suc n"
    and "wf_table n t" and "frames_ok fs" and "k \<le> n"
  shows "\<exists>r t' fs'. prepare_slot g v k t fs = Some (r, t', fs') \<and> set fs' \<subseteq> set fs
    \<and> slot_prepared n k (page_of g v) t r t'"
  using assms(3-)
proof (induction k arbitrary: t fs)
  case 0
  let ?x = "page_of g v"
  obtain r t1 fs1 where d: "entry_at True v 0 (\<lambda>e. e) n t fs = Some (r, t1, fs1)" "set fs1 \<subseteq> set fs"
    "entry_result True n 0 ?x t (\<lambda>e. e) r t1"
    using entry_at_spec [OF g 0(1) le0 _ 0(2)] n by (metis lessI)
  have sr: "slot_result True n 0 ?x t (\<lambda>e. e) r t1" using entry_at_slots [OF g 0(1) le0 _ 0(2) d(1)] n by simp
  have fr: "frame_of n 0 ?x t t1" using sr by (rule frame_of_slots)
  show ?case
  proof (cases r)
    case (Inl err)
    then have "slot_prepared n 0 ?x t (Inl err) t1" using d(3) fr by (auto simp: slot_prepared_def entry_result_def)
    then show ?thesis using d Inl n by auto
  next
    case (Inr e)
    have nb: "\<not> entry_is_branch e" using slot_resultD(3) [OF sr Inr] slot_bottom [OF 0(1)] by blast
    have R: "leaf_ok 0 e" "\<And>y. agree n 0 ?x y \<Longrightarrow> mp y n t = as_mp e 0"
      "leaf_ok 0 e \<Longrightarrow> wf_table n t1 \<and> (\<forall>y. mp y n t1 = (if agree n 0 ?x y then as_mp e 0 else mp y n t))"
      using d(3) nb Inr by (auto simp: entry_result_def)
    then have keep: "wf_table n t1" "\<And>y. mp y n t1 = mp y n t" by (auto split: if_splits)
    show ?thesis
    proof (cases "entry_is_valid e")
      case False
      have "slot_prepared n 0 ?x t (Inr 0) t1"
        using keep fr R(2) False slot_resultD(2) [OF sr Inr] by (auto simp: slot_prepared_def as_mp_def)
      then show ?thesis using d Inr n False by auto
    next
      case True
      have "mp ?x n t \<noteq> None" using R(2) [of ?x] True by (simp add: as_mp_def)
      then have "slot_prepared n 0 ?x t (Inl AlreadyMapped) t1" using keep fr by (simp add: slot_prepared_def)
      then show ?thesis using d Inr n True by auto
    qed
  qed
next
  case (Suc k)
  let ?x = "page_of g v"
  obtain r t1 fs1 where d: "entry_at True v (Suc k) (\<lambda>e. e) n t fs = Some (r, t1, fs1)" "set fs1 \<subseteq> set fs"
    "entry_result True n (Suc k) ?x t (\<lambda>e. e) r t1"
    using entry_at_spec [OF g Suc.prems(1,3) _ Suc.prems(2)] n by (metis lessI)
  have sr: "slot_result True n (Suc k) ?x t (\<lambda>e. e) r t1"
    using entry_at_slots [OF g Suc.prems(1,3) _ Suc.prems(2) d(1)] n by simp
  have fr: "frame_of n (Suc k) ?x t t1" using sr by (rule frame_of_slots)
  show ?case
  proof (cases r)
    case (Inl err)
    then have "slot_prepared n (Suc k) ?x t (Inl err) t1" using d(3) fr by (auto simp: slot_prepared_def entry_result_def)
    then show ?thesis using d Inl n by auto
  next
    case (Inr e)
    show ?thesis
    proof (cases "entry_is_branch e")
      case False
      have R: "leaf_ok (Suc k) e" "\<And>y. agree n (Suc k) ?x y \<Longrightarrow> mp y n t = as_mp e (Suc k)"
        "leaf_ok (Suc k) e \<Longrightarrow> wf_table n t1 \<and> (\<forall>y. mp y n t1 = (if agree n (Suc k) ?x y then as_mp e (Suc k) else mp y n t))"
        using d(3) False Inr by (auto simp: entry_result_def)
      then have keep: "wf_table n t1" "\<And>y. mp y n t1 = mp y n t" by (auto split: if_splits)
      show ?thesis
      proof (cases "entry_is_valid e")
        case inv: False
        have "slot_prepared n (Suc k) ?x t (Inr (Suc k)) t1"
          using keep fr R(2) inv slot_resultD(2) [OF sr Inr] by (auto simp: slot_prepared_def as_mp_def)
        then show ?thesis using d Inr n inv by auto
      next
        case True
        have "mp ?x n t \<noteq> None" using R(2) [of ?x] True by (simp add: as_mp_def)
        then have "slot_prepared n (Suc k) ?x t (Inl AlreadyMapped) t1" using keep fr by (simp add: slot_prepared_def)
        then show ?thesis using d Inr n True False by (auto simp: entry_is_branch_def)
      qed
    next
      case True
      have keep: "wf_table n t1" "\<And>y. mp y n t1 = mp y n t" using d(3) True Inr by (auto simp: entry_result_def)
      have old: "slot_at ?x (Suc k) n t = Some e" using slot_resultD(3) [OF sr Inr True] .
      have f1: "frames_ok fs1" using Suc.prems(2) d(2) by (auto simp: frames_ok_def)
      obtain r' t' fs' where e: "prepare_slot g v k t1 fs1 = Some (r', t', fs')" "set fs' \<subseteq> set fs1"
        "slot_prepared n k ?x t1 r' t'" using Suc.IH [OF keep(1) f1] Suc.prems(3) by auto
      have "frame_of n (Suc k) ?x t t'" using frame_of_trans [OF fr, of k t'] e(3) by (simp add: slot_prepared_def)
      then have "slot_prepared n (Suc k) ?x t r' t'"
        using e(3) keep(2) old True unfolding slot_prepared_def by auto
      then show ?thesis using d Inr n True e by (auto simp: entry_is_branch_def)
    qed
  qed
qed

declare prepare_slot.simps [simp del]

lemma prepare_loop_step:
  assumes "off < sz" and "k = pick_target (sz - off) (va + off) (pa + off) (min 2 (levels g - 1))"
    and "prepare_slot g (va + off) k t fs = Some (r, t1, fs1)"
  shows "prepare_range_loop g va pa sz off t fs =
    (case r of Inl e \<Rightarrow> Some (Inl e, t1, fs1)
     | Inr level \<Rightarrow> prepare_range_loop g va pa sz (off + table_span level) t1 fs1)"
  unfolding prepare_range_loop.simps [of g va pa sz off] assms(2) [symmetric] assms(3) using assms(1)
  by (cases r) simp_all

definition range_prepared :: "nat \<Rightarrow> nat \<Rightarrow> nat \<Rightarrow> nat \<Rightarrow> table \<Rightarrow> nest_error + unit \<Rightarrow> table \<Rightarrow> bool" where
  "range_prepared n s a b t r t' \<longleftrightarrow> wf_table n t' \<and> (\<forall>y. mp y n t' = mp y n t)
   \<and> (\<forall>y k e. k \<le> n \<and> y mod 512 ^ k = 0 \<and> y + 512 ^ k \<le> s + a \<and> slot_at y k n t = Some e \<longrightarrow> slot_at y k n t' = Some e)
   \<and> (\<forall>err. r = Inl err \<longrightarrow> err = AlreadyMapped \<and> (\<exists>i. a \<le> i \<and> i < b \<and> mp (s + i) n t \<noteq> None) \<or> err = OutOfMemory)
   \<and> (r = Inr () \<longrightarrow> (\<forall>i. a \<le> i \<and> i < b \<longrightarrow> mp (s + i) n t = None))"

lemma range_preparedD:
  assumes "range_prepared n s a b t r t'"
  shows "wf_table n t'" and "mp y n t' = mp y n t"
    and "k \<le> n \<Longrightarrow> y mod 512 ^ k = 0 \<Longrightarrow> y + 512 ^ k \<le> s + a \<Longrightarrow> slot_at y k n t = Some e \<Longrightarrow> slot_at y k n t' = Some e"
    and "r = Inl err \<Longrightarrow> err = AlreadyMapped \<and> (\<exists>i. a \<le> i \<and> i < b \<and> mp (s + i) n t \<noteq> None) \<or> err = OutOfMemory"
    and "r = Inr () \<Longrightarrow> a \<le> i \<Longrightarrow> i < b \<Longrightarrow> mp (s + i) n t = None"
proof -
  note r = assms [unfolded range_prepared_def]
  note r2 = r [THEN conjunct2, THEN conjunct2]
  show "wf_table n t'" "mp y n t' = mp y n t" using r by blast+
  show "slot_at y k n t' = Some e" if "k \<le> n" "y mod 512 ^ k = 0" "y + 512 ^ k \<le> s + a" "slot_at y k n t = Some e"
    by (rule r2 [THEN conjunct1, rule_format, of k y e]) (use that in simp)
  show "err = AlreadyMapped \<and> (\<exists>i. a \<le> i \<and> i < b \<and> mp (s + i) n t \<noteq> None) \<or> err = OutOfMemory" if "r = Inl err"
    by (rule r2 [THEN conjunct2, THEN conjunct1, rule_format, OF that])
  show "mp (s + i) n t = None" if "r = Inr ()" "a \<le> i" "i < b"
    by (rule r2 [THEN conjunct2, THEN conjunct2, rule_format, OF that(1)]) (use that in simp)
qed

lemma job_slot:
  assumes j: "job g n va pa sz s m q" and o: "o' < m" and wf: "wf_table n t" and fs: "frames_ok fs"
  obtains k r t1 fs1 where "k = pick_target (sz - o' * PAGE_SIZE) (va + o' * PAGE_SIZE) (pa + o' * PAGE_SIZE) (min 2 (levels g - 1))"
    and "prepare_slot g (va + o' * PAGE_SIZE) k t fs = Some (r, t1, fs1)" and "set fs1 \<subseteq> set fs" and "frames_ok fs1"
    and "slot_prepared n k (s + o') t r t1" and "k \<le> n" and "o' + 512 ^ k \<le> m" and "(s + o') mod 512 ^ k = 0"
    and "s + o' < 512 ^ Suc n"
proof -
  define k where "k = pick_target (sz - o' * PAGE_SIZE) (va + o' * PAGE_SIZE) (pa + o' * PAGE_SIZE) (min 2 (levels g - 1))"
  have J: "geo_ok g" "levels g = Suc n" "s + m \<le> 512 ^ Suc n" using j by (auto simp: job_def)
  note C = chunk_facts [OF j o refl, folded k_def]
  obtain r t1 fs1 where d: "prepare_slot g (va + o' * PAGE_SIZE) k t fs = Some (r, t1, fs1)" "set fs1 \<subseteq> set fs"
    "slot_prepared n k (s + o') t r t1"
    using prepare_slot_spec [OF J(1,2) wf fs C(2), of "va + o' * PAGE_SIZE"] C(6) by auto
  moreover have "frames_ok fs1" using fs d(2) by (auto simp: frames_ok_def)
  ultimately show thesis using that [OF k_def] C J(3) o by simp
qed

lemma slot_pages_free:
  assumes "slot_prepared n k x t (Inr j) t1" and "x mod 512 ^ k = 0" and "k \<le> n" and "x + 512 ^ k \<le> 512 ^ Suc n"
    and "x \<le> y" and "y < x + 512 ^ j"
  shows "mp y n t = None" and "x mod 512 ^ j = 0" and "j \<le> k"
proof -
  show jk: "j \<le> k" using assms(1) by (simp add: slot_prepared_def)
  then have "(512::nat) ^ j dvd 512 ^ k" by (rule le_imp_power_dvd)
  then show xj: "x mod 512 ^ j = 0" using assms(2) by (metis dvd_imp_mod_0 dvd_trans mod_0_imp_dvd)
  have "(512::nat) ^ j \<le> 512 ^ k" using jk by simp
  then have "x < 512 ^ Suc n" "y < 512 ^ Suc n" using assms(4-6) by linarith+
  then have "agree n j x y" using slot_members [OF xj] jk assms(3,5,6) by simp
  then show "mp y n t = None" using assms(1) by (simp add: slot_prepared_def)
qed

lemma prepare_loop_spec:
  assumes j: "job g n va pa sz s m q"
  shows "o' \<le> m \<Longrightarrow> wf_table n t \<Longrightarrow> frames_ok fs \<Longrightarrow>
    \<exists>r t' fs'. prepare_range_loop g va pa sz (o' * PAGE_SIZE) t fs = Some (r, t', fs') \<and> set fs' \<subseteq> set fs
      \<and> range_prepared n s o' m t r t'"
proof (induction "m - o'" arbitrary: o' t fs rule: less_induct)
  case less
  have J: "s + m \<le> 512 ^ Suc n" "sz = m * PAGE_SIZE" using j by (auto simp: job_def)
  show ?case
  proof (cases "o' < m")
    case False
    then have "\<not> o' * PAGE_SIZE < sz" using J(2) by (simp add: PAGE_SIZE_def)
    then show ?thesis using less.prems False by (auto simp: prepare_range_loop.simps range_prepared_def)
  next
    case True
    let ?x = "s + o'"
    obtain k r t1 fs1 where k: "k = pick_target (sz - o' * PAGE_SIZE) (va + o' * PAGE_SIZE) (pa + o' * PAGE_SIZE) (min 2 (levels g - 1))"
      and d: "prepare_slot g (va + o' * PAGE_SIZE) k t fs = Some (r, t1, fs1)" "set fs1 \<subseteq> set fs" "frames_ok fs1"
        "slot_prepared n k ?x t r t1" "k \<le> n" "o' + 512 ^ k \<le> m" "?x mod 512 ^ k = 0" "?x < 512 ^ Suc n"
      by (rule job_slot [OF j True less.prems(2,3)])
    have lt: "o' * PAGE_SIZE < sz" using True J(2) by (simp add: PAGE_SIZE_def)
    have S: "wf_table n t1" "\<And>y. mp y n t1 = mp y n t" "frame_of n k ?x t t1" using d(4) by (auto simp: slot_prepared_def)
    have keep: "slot_at y i n t1 = Some e"
      if "i \<le> n" "y mod 512 ^ i = 0" "y + 512 ^ i \<le> s + o'" "slot_at y i n t = Some e" for y i e
      using frame_ofD(1) [OF S(3) that(1) _ that(4)] slots_apart(1) [OF that(2) d(7) that(3) d(8) that(1) d(5)] by blast
    show ?thesis
    proof (cases r)
      case (Inl err)
      have "prepare_range_loop g va pa sz (o' * PAGE_SIZE) t fs = Some (Inl err, t1, fs1)"
        using prepare_loop_step [OF lt k d(1)] Inl by simp
      moreover have "range_prepared n s o' m t (Inl err) t1"
        using d(4) S keep True Inl unfolding range_prepared_def slot_prepared_def by auto
      ultimately show ?thesis using d(2) by blast
    next
      case (Inr i)
      have free: "mp y n t = None" if "?x \<le> y" "y < ?x + 512 ^ i" for y
        using slot_pages_free(1) [OF d(4) [unfolded Inr] d(7,5) _ that] J(1) d(6) by simp
      have ik: "i \<le> k" using d(4) Inr by (simp add: slot_prepared_def)
      then have "(512::nat) ^ i \<le> 512 ^ k" by simp
      then have o2: "o' + 512 ^ i \<le> m" using d(6) by linarith
      have "m - (o' + 512 ^ i) < m - o'" by (rule diff_less_mono2) (use True in simp_all)
      from less.hyps [OF this o2 S(1) d(3)] obtain r' t' fs' where e:
        "prepare_range_loop g va pa sz ((o' + 512 ^ i) * PAGE_SIZE) t1 fs1 = Some (r', t', fs')" "set fs' \<subseteq> set fs1"
        "range_prepared n s (o' + 512 ^ i) m t1 r' t'" by blast
      have "o' * PAGE_SIZE + table_span i = (o' + 512 ^ i) * PAGE_SIZE" by (simp add: span_pages algebra_simps)
      then have "prepare_range_loop g va pa sz (o' * PAGE_SIZE) t fs = Some (r', t', fs')"
        using prepare_loop_step [OF lt k d(1)] Inr e(1) by simp
      moreover have "range_prepared n s o' m t r' t'"
      proof -
        note E = range_preparedD [OF e(3)]
        show ?thesis
          unfolding range_prepared_def
        proof (intro conjI allI impI)
          show "wf_table n t'" by (rule E(1))
          show "mp y n t' = mp y n t" for y using E(2) S(2) by simp
          show "slot_at y k n t' = Some e" if "k \<le> n \<and> y mod 512 ^ k = 0 \<and> y + 512 ^ k \<le> s + o' \<and> slot_at y k n t = Some e" for y k e
            using that by (intro E(3)) (auto intro: keep)
          show "err = AlreadyMapped \<and> (\<exists>i. o' \<le> i \<and> i < m \<and> mp (s + i) n t \<noteq> None) \<or> err = OutOfMemory" if "r' = Inl err" for err
            using E(4) [OF that] S(2) by (metis add_leD1)
          show "mp (s + i') n t = None" if "r' = Inr ()" "o' \<le> i' \<and> i' < m" for i'
            using E(5) [OF that(1), of i'] free [of "s + i'"] S(2) that(2) by (cases "i' < o' + 512 ^ i") auto
        qed
      qed
      ultimately show ?thesis using e(2) d(2) by blast
    qed
  qed
qed

text \<open>From page \<open>p\<close> on, a table hangs only where some page below it is mapped.\<close>

definition tight_from :: "nat \<Rightarrow> table \<Rightarrow> nat \<Rightarrow> bool" where
  "tight_from n t p \<longleftrightarrow> (\<forall>x k e. p \<le> x \<and> x < 512 ^ Suc n \<and> k \<le> n \<and> x mod 512 ^ k = 0
     \<and> slot_at x k n t = Some e \<and> entry_is_branch e \<longrightarrow> (\<exists>y < 512 ^ Suc n. agree n k x y \<and> mp y n t \<noteq> None))"

lemma tight_fromD:
  assumes "tight_from n t p" and "p \<le> x" and "x < 512 ^ Suc n" and "k \<le> n" and "x mod 512 ^ k = 0"
    and "slot_at x k n t = Some e" and "entry_is_branch e"
  obtains y where "y < 512 ^ Suc n" and "agree n k x y" and "mp y n t \<noteq> None"
  using assms(1) [unfolded tight_from_def, rule_format, of x k e] assms(2-) that by auto

lemma prepare_loop_free:
  assumes j: "job g n va pa sz s m q"
  shows "o' \<le> m \<Longrightarrow> wf_table n t \<Longrightarrow> frames_ok fs \<Longrightarrow> tight_from n t (s + o') \<Longrightarrow>
    prepare_range_loop g va pa sz (o' * PAGE_SIZE) t fs = Some (Inr (), t', fs') \<Longrightarrow>
    \<forall>(off, k) \<in> set (chunks g va pa sz (o' * PAGE_SIZE)).
      \<exists>e. slot_at (page_of g (va + off)) k n t' = Some e \<and> \<not> entry_is_valid e"
proof (induction "m - o'" arbitrary: o' t fs rule: less_induct)
  case less
  have J: "s + m \<le> 512 ^ Suc n" "sz = m * PAGE_SIZE" using j by (auto simp: job_def)
  show ?case
  proof (cases "o' < m")
    case False
    then have "\<not> o' * PAGE_SIZE < sz" using J(2) by (simp add: PAGE_SIZE_def)
    then show ?thesis by (simp add: chunks.simps)
  next
    case True
    let ?x = "s + o'"
    obtain k r t1 fs1 where k: "k = pick_target (sz - o' * PAGE_SIZE) (va + o' * PAGE_SIZE) (pa + o' * PAGE_SIZE) (min 2 (levels g - 1))"
      and d: "prepare_slot g (va + o' * PAGE_SIZE) k t fs = Some (r, t1, fs1)" "set fs1 \<subseteq> set fs" "frames_ok fs1"
        "slot_prepared n k ?x t r t1" "k \<le> n" "o' + 512 ^ k \<le> m" "?x mod 512 ^ k = 0" "?x < 512 ^ Suc n"
      by (rule job_slot [OF j True less.prems(2,3)])
    have lt: "o' * PAGE_SIZE < sz" using True J(2) by (simp add: PAGE_SIZE_def)
    have pg: "page_of g (va + o' * PAGE_SIZE) = ?x" using chunk_facts(6) [OF j True refl] .
    have S: "wf_table n t1" "\<And>y. mp y n t1 = mp y n t" "frame_of n k ?x t t1" using d(4) by (auto simp: slot_prepared_def)
    have free: "mp (s + i) n t = None" if "o' \<le> i" "i < m" for i
    proof -
      have "range_prepared n s o' m t (Inr ()) t'" using prepare_loop_spec [OF j less.prems(1,2,3)] less.prems(5) by simp
      from range_preparedD(5) [OF this refl that] show ?thesis .
    qed
    obtain i where i: "r = Inr i"
      using less.prems(5) prepare_loop_step [OF lt k d(1)] by (cases r) auto
    have ik: "i = k"
    proof (rule ccontr)
      assume "i \<noteq> k"
      then obtain e where e: "slot_at ?x k n t = Some e" "entry_is_branch e" using d(4) i by (auto simp: slot_prepared_def)
      obtain y where y: "y < 512 ^ Suc n" "agree n k ?x y" "mp y n t \<noteq> None"
        by (rule tight_fromD [OF less.prems(4) order_refl d(8,5,7) e])
      then have "?x \<le> y" "y < ?x + 512 ^ k" using slot_members [OF d(7,8) y(1) d(5)] by auto
      then have "mp (s + (y - s)) n t = None" using d(6) by (intro free) auto
      with y(3) \<open>?x \<le> y\<close> show False by simp
    qed
    let ?o = "o' + 512 ^ k"
    have o2: "o' * PAGE_SIZE + table_span k = ?o * PAGE_SIZE" by (simp add: span_pages algebra_simps)
    have run: "prepare_range_loop g va pa sz (?o * PAGE_SIZE) t1 fs1 = Some (Inr (), t', fs')"
      using less.prems(5) prepare_loop_step [OF lt k d(1)] i ik o2 by simp
    have tight: "tight_from n t1 (s + ?o)"
      unfolding tight_from_def
    proof (intro allI impI, elim conjE)
      fix x l e
      assume x: "s + ?o \<le> x" "x < 512 ^ Suc n" "l \<le> n" "x mod 512 ^ l = 0" "slot_at x l n t1 = Some e" "entry_is_branch e"
      have "\<not> agree n (max l k) ?x x"
        using slots_apart(2) [OF d(7) x(4) _ x(2) d(5) x(3)] x(1) by (simp add: max.commute add.assoc)
      with frame_ofD(2) [OF S(3) x(3)] x(5,6) have "slot_at x l n t = Some e" by blast
      then show "\<exists>y < 512 ^ Suc n. agree n l x y \<and> mp y n t1 \<noteq> None"
        using less.prems(4) x S(2) unfolding tight_from_def by simp
    qed
    have "m - ?o < m - o'" by (rule diff_less_mono2) (use True in simp_all)
    note IH = less.hyps [OF this d(6) S(1) d(3) tight run]
    obtain e where e: "slot_at ?x k n t1 = Some e" "\<not> entry_is_valid e" using d(4) i ik by (auto simp: slot_prepared_def)
    have "slot_at ?x k n t' = Some e"
    proof -
      have "range_prepared n s ?o m t1 (Inr ()) t'" using prepare_loop_spec [OF j d(6) S(1) d(3)] run by simp
      from range_preparedD(3) [OF this d(5,7) _ e(1)] show ?thesis by (simp add: add.assoc)
    qed
    with e(2) IH show ?thesis
      unfolding chunks.simps [of g va pa sz "o' * PAGE_SIZE"] Let_def k [symmetric] using lt by (simp add: pg o2)
  qed
qed

section \<open>Trees without empty tables\<close>

lemma glue:
  assumes "i < 512" and "y < 512 ^ n"
  shows "i * 512 ^ n + y < 512 ^ Suc n" and "digit n (i * 512 ^ n + y) = i"
    and "k < n \<Longrightarrow> digit k (i * 512 ^ n + y) = digit k y"
proof -
  have "i * 512 ^ n + 512 ^ n \<le> 512 * (512::nat) ^ n"
    using mult_le_mono1 [of "i + 1" 512 "512 ^ n"] assms(1) by (simp add: add_mult_distrib)
  then show "i * 512 ^ n + y < 512 ^ Suc n" using assms(2) unfolding power_Suc by linarith
  show "digit n (i * 512 ^ n + y) = i" using assms by (simp add: digit_def)
  show "digit k (i * 512 ^ n + y) = digit k y" if "k < n"
    using digit_mod [OF that, of "i * 512 ^ n + y"] assms(2) by simp
qed

lemma mp_cong: "wf_table n t \<Longrightarrow> agree n 0 x y \<Longrightarrow> mp y n t = mp x n t"
proof (induction n arbitrary: t)
  case 0
  obtain p es cs where t: "t = Table p es cs" by (cases t)
  have "\<not> entry_is_branch (es ! digit 0 x)"
    using wf_child [OF 0(1) [unfolded t] digit_less] by blast
  then show ?case using 0(2) by (simp add: t mp_here agree_here)
next
  case (Suc n)
  obtain p es cs where t: "t = Table p es cs" by (cases t)
  have d: "digit (Suc n) y = digit (Suc n) x" "agree n 0 x y" using Suc.prems(2) agree_Suc [OF le0] by auto
  show ?case
  proof (cases "entry_is_branch (es ! digit (Suc n) x)")
    case True
    from wf_child [OF Suc.prems(1) [unfolded t] digit_less True]
    obtain c where "map_of cs (digit (Suc n) x) = Some c" "wf_table n c" by auto
    with True Suc.IH d t show ?thesis by (simp add: mp_below)
  next
    case False
    with d t show ?thesis by (simp add: mp_here)
  qed
qed

lemma solidD: "solid (Table p es cs) \<Longrightarrow> (i, c) \<in> set cs \<Longrightarrow> (\<exists>e \<in> set (tb_entries c). entry_is_valid e) \<and> solid c"
  by (auto simp: solid.simps)

lemma mapped_page:
  "wf_table n t \<Longrightarrow> solid t \<Longrightarrow> \<exists>e \<in> set (tb_entries t). entry_is_valid e \<Longrightarrow> \<exists>y < 512 ^ Suc n. mp y n t \<noteq> None"
proof (induction n arbitrary: t)
  case 0
  obtain p es cs where t: "t = Table p es cs" by (cases t)
  obtain i where i: "i < 512" "entry_is_valid (es ! i)"
    using 0(3) wf_TableD(1) [OF 0(1) [unfolded t]] by (auto simp: t in_set_conv_nth)
  have "\<not> entry_is_branch (es ! i)" using wf_child [OF 0(1) [unfolded t] i(1)] by blast
  then have "mp i 0 t \<noteq> None" using i by (simp add: t mp_here digit_def)
  then show ?case using i(1) by auto
next
  case (Suc n)
  obtain p es cs where t: "t = Table p es cs" by (cases t)
  obtain i where i: "i < 512" "entry_is_valid (es ! i)"
    using Suc.prems(3) wf_TableD(1) [OF Suc.prems(1) [unfolded t]] by (auto simp: t in_set_conv_nth)
  show ?case
  proof (cases "entry_is_branch (es ! i)")
    case True
    from wf_child [OF Suc.prems(1) [unfolded t] i(1) True]
    obtain c where c: "map_of cs i = Some c" "wf_table n c" by auto
    then have "(\<exists>e \<in> set (tb_entries c). entry_is_valid e) \<and> solid c"
      using solidD Suc.prems(2) t map_of_SomeD by metis
    with Suc.IH [OF c(2)] obtain y where y: "y < 512 ^ Suc n" "mp y n c \<noteq> None" by auto
    note gl = glue [OF i(1) y(1)]
    have "agree n 0 y (i * 512 ^ Suc n + y)" using gl(3) by (simp add: agree_def del: power_Suc)
    then have "mp (i * 512 ^ Suc n + y) n c \<noteq> None" using mp_cong [OF c(2)] y(2) by simp
    then have "mp (i * 512 ^ Suc n + y) (Suc n) t \<noteq> None" using True c(1) gl(2) by (simp add: t mp_below del: power_Suc)
    then show ?thesis using gl(1) by blast
  next
    case False
    note gl = glue [OF i(1), of 0 "Suc n"]
    have "mp (i * 512 ^ Suc n) (Suc n) t \<noteq> None" using False i(2) gl(2) by (simp add: t mp_here del: power_Suc)
    then show ?thesis using gl(1) by (intro exI [of _ "i * 512 ^ Suc n"] conjI) (simp_all del: power_Suc)
  qed
qed

lemma solid_slot:
  "wf_table n t \<Longrightarrow> solid t \<Longrightarrow> k \<le> n \<Longrightarrow> slot_at x k n t = Some e \<Longrightarrow> entry_is_branch e \<Longrightarrow>
     \<exists>y < 512 ^ Suc n. agree n k x y \<and> mp y n t \<noteq> None"
proof (induction n arbitrary: t)
  case 0
  then show ?case using slot_bottom [OF 0(1)] by auto
next
  case (Suc n)
  obtain p es cs where t: "t = Table p es cs" by (cases t)
  let ?i = "digit (Suc n) x"
  have br: "entry_is_branch (es ! ?i)"
    using Suc.prems(3-5) t slot_stop [of k n es x] by (cases "k = Suc n") (force simp: slot_here less_Suc_eq_le le_less)+
  from wf_child [OF Suc.prems(1) [unfolded t] digit_less br]
  obtain c where c: "map_of cs ?i = Some c" "wf_table n c" by auto
  then have sc: "(\<exists>e \<in> set (tb_entries c). entry_is_valid e) \<and> solid c"
    using solidD Suc.prems(2) t map_of_SomeD by metis
  have "\<exists>y < 512 ^ Suc n. (k \<le> n \<longrightarrow> agree n k x y) \<and> mp y n c \<noteq> None"
  proof (cases "k = Suc n")
    case True
    then show ?thesis using mapped_page [OF c(2)] sc by auto
  next
    case False
    then have kn: "k \<le> n" using Suc.prems(3) by simp
    then have "slot_at x k n c = Some e" using Suc.prems(4) br c(1) t by (simp add: slot_below)
    from Suc.IH [OF c(2) _ kn this Suc.prems(5)] sc show ?thesis by blast
  qed
  then obtain y where y: "y < 512 ^ Suc n" "k \<le> n \<longrightarrow> agree n k x y" "mp y n c \<noteq> None" by blast
  let ?y = "?i * 512 ^ Suc n + y"
  note gl = glue [OF digit_less [of "Suc n" x] y(1)]
  have "agree n 0 y ?y" using gl(3) by (simp add: agree_def del: power_Suc)
  then have "mp ?y n c \<noteq> None" using mp_cong [OF c(2)] y(3) by simp
  then have "mp ?y (Suc n) t \<noteq> None" using br c(1) gl(2) by (simp add: t mp_below del: power_Suc)
  moreover have "agree (Suc n) k x ?y"
    unfolding agree_def
  proof (intro allI impI)
    fix j
    assume "k \<le> j \<and> j \<le> Suc n"
    then show "digit j x = digit j ?y"
      using gl(2) gl(3) [of j] y(2) by (cases "j = Suc n") (auto simp: agree_def simp del: power_Suc)
  qed
  ultimately show ?case using gl(1) by blast
qed

lemma solid_tight: "wf_table n t \<Longrightarrow> solid t \<Longrightarrow> tight_from n t p"
  unfolding tight_from_def using solid_slot by blast

section \<open>Writing the leaves\<close>

definition mappable :: "pte_flags \<Rightarrow> bool" where
  "mappable fl \<longleftrightarrow> take_bit 8 fl = fl \<and> flags_intersects fl (PTE_R OR PTE_W OR PTE_X)"

lemma mapped_entry:
  assumes "mappable fl" and "q < 2 ^ 52"
  defines "E \<equiv> entry_set (word_of_nat q) (fl OR PTE_V)"
  shows "entry_is_valid E" and "entry_is_leaf E" and "entry_flags E = fl OR PTE_V" and "unat (entry_ppn E) = q"
    and "\<not> entry_is_branch E"
proof -
  have v: "take_bit 8 (fl OR PTE_V) = fl OR PTE_V"
    using assms(1) by (simp add: mappable_def take_bit_or PTE_V_def)
  show "entry_flags E = fl OR PTE_V" unfolding E_def by (rule entry_set_flags_of [OF v])
  show valid: "entry_is_valid E" by (simp add: E_def entry_valid_bit entry_set_bit0 bit_or_iff PTE_V_def bit_1_iff)
  have "(fl OR PTE_V) AND (PTE_R OR PTE_W OR PTE_X) = fl AND (PTE_R OR PTE_W OR PTE_X)"
    by (simp add: bit.conj_disj_distrib2 flag_defs)
  then show leaf: "entry_is_leaf E"
    using assms(1) \<open>entry_flags E = _\<close> by (simp add: entry_is_leaf_def flags_intersects_def mappable_def)
  show "unat (entry_ppn E) = q"
    unfolding E_def using assms(2) by (subst entry_ppn_set [OF v]) (simp_all add: unat_word_of_nat)
  show "\<not> entry_is_branch E" using leaf by (simp add: entry_is_branch_def)
qed

lemma chunk_pages:
  assumes j: "job g n va pa sz s m q"
  shows "o' \<le> m \<Longrightarrow> (off, k) \<in> set (chunks g va pa sz (o' * PAGE_SIZE)) \<Longrightarrow>
    \<exists>i. o' \<le> i \<and> i < m \<and> k \<le> n \<and> (s + i) mod 512 ^ k = 0 \<and> page_of g (va + off) = s + i"
proof (induction "m - o'" arbitrary: o' rule: less_induct)
  case less
  have sz: "sz = m * PAGE_SIZE" using j by (auto simp: job_def)
  have lt: "o' < m"
  proof (rule ccontr)
    assume "\<not> o' < m"
    then have "\<not> o' * PAGE_SIZE < sz" by (simp add: sz PAGE_SIZE_def)
    then show False using less.prems(2) by (simp add: chunks.simps)
  qed
  define l where "l = pick_target (sz - o' * PAGE_SIZE) (va + o' * PAGE_SIZE) (pa + o' * PAGE_SIZE) (min 2 (levels g - 1))"
  note C = chunk_facts [OF j lt refl, folded l_def]
  show ?case
  proof (cases "off = o' * PAGE_SIZE \<and> k = l")
    case True
    then show ?thesis using C lt by (intro exI [of _ o']) simp
  next
    case False
    then have "(off, k) \<in> set (chunks g va pa sz ((o' + 512 ^ l) * PAGE_SIZE))"
      using less.prems(2) C(1,7) unfolding chunks.simps [of g va pa sz "o' * PAGE_SIZE"] Let_def l_def [symmetric] by auto
    moreover have "m - (o' + 512 ^ l) < m - o'" by (rule diff_less_mono2) (use lt in simp_all)
    ultimately show ?thesis using less.hyps [of "o' + 512 ^ l"] C(3) by fastforce
  qed
qed

lemma map_slot:
  assumes j: "job g n va pa sz s m q" and o: "o' < m" and wf: "wf_table n t" and fl: "mappable fl"
    and k: "k = pick_target (sz - o' * PAGE_SIZE) (va + o' * PAGE_SIZE) (pa + o' * PAGE_SIZE) (min 2 (levels g - 1))"
    and e: "slot_at (s + o') k n t = Some e" "\<not> entry_is_valid e"
  obtains t1 where "entry_at False (va + o' * PAGE_SIZE) k
      (\<lambda>_. entry_set (word_of_nat ((pa + o' * PAGE_SIZE) div 2 ^ PAGE_SHIFT)) (fl OR PTE_V)) n t [] = Some (Inr e, t1, [])"
    and "wf_table n t1" and "frame_of n k (s + o') t t1"
    and "\<And>y. y < 512 ^ Suc n \<Longrightarrow> page_map n t1 y
      = (if s + o' \<le> y \<and> y < s + o' + 512 ^ k then Some (q + (y - s), fl OR PTE_V) else page_map n t y)"
proof -
  have J: "geo_ok g" "levels g = Suc n" "pa = q * PAGE_SIZE" "s + m \<le> 512 ^ Suc n" "q + m \<le> 2 ^ 52" using j by (auto simp: job_def)
  note C = chunk_facts [OF j o refl, folded k]
  let ?f = "\<lambda>_ :: pte. entry_set (word_of_nat ((pa + o' * PAGE_SIZE) div 2 ^ PAGE_SHIFT)) (fl OR PTE_V)"
  have ppn: "(pa + o' * PAGE_SIZE) div 2 ^ PAGE_SHIFT = q + o'" using J(3) by (simp add: PAGE_SIZE_def PAGE_SHIFT_def)
  let ?E = "entry_set (word_of_nat (q + o')) (fl OR PTE_V)"
  note E = mapped_entry [OF fl, of "q + o'"]
  have q: "q + o' < 2 ^ 52" using J(5) o by linarith
  have ok: "leaf_ok k ?E" using E(4) [OF q] C(3,5) J(5) by (simp add: leaf_ok_def)
  have fs: "frames_ok []" by (simp add: frames_ok_def)
  obtain r t1 fs' where d: "entry_at False (va + o' * PAGE_SIZE) k ?f n t [] = Some (r, t1, fs')" "set fs' \<subseteq> set []"
    "entry_result False n k (s + o') t ?f r t1"
    using entry_at_spec [OF J(1) wf C(2) _ fs, of False "va + o' * PAGE_SIZE" ?f] J(2) C(6) by auto
  have sl: "slot_result False n k (s + o') t ?f r t1"
    using entry_at_slots [OF J(1) wf C(2) _ fs d(1)] J(2) C(6) by simp
  have r: "r = Inr e" using slot_resultD(1) [OF sl e(1)] .
  have nb: "\<not> entry_is_branch e" using e(2) by (simp add: entry_is_branch_def)
  have R: "wf_table n t1" "\<And>y. mp y n t1 = (if agree n k (s + o') y then as_mp ?E k else mp y n t)"
    using d(3) r nb E(5) [OF q] ok unfolding entry_result_def ppn by auto
  have x: "s + o' < 512 ^ Suc n" using J(4) o by linarith
  have pm: "page_map n t1 y = (if s + o' \<le> y \<and> y < s + o' + 512 ^ k then Some (q + (y - s), fl OR PTE_V) else page_map n t y)"
    if y: "y < 512 ^ Suc n" for y
  proof (cases "s + o' \<le> y \<and> y < s + o' + 512 ^ k")
    case True
    then have a: "agree n k (s + o') y" using slot_members [OF C(4) x y C(2)] by simp
    obtain d where d: "y = s + o' + d" "d < 512 ^ k" using True by (metis le_Suc_ex nat_add_left_cancel_less)
    have "y mod 512 ^ k = d" using d C(4) by (simp add: mod_add_left_eq [symmetric, of "s + o'"] del: mod_add_left_eq)
    then show ?thesis using True a d E [OF q] R(2) by (simp add: page_map_def as_mp_def)
  next
    case False
    then have "\<not> agree n k (s + o') y" using slot_members [OF C(4) x y C(2)] by blast
    then have "page_map n t1 y = page_map n t y" using R(2) by (simp add: page_map_def)
    then show ?thesis unfolding if_not_P [OF False] .
  qed
  show thesis using d(1,2) r R(1) pm frame_of_slots [OF sl] by (intro that [of t1]) auto
qed

lemma map_loop_spec:
  assumes j: "job g n va pa sz s m q" and fl: "mappable fl"
  shows "o' \<le> m \<Longrightarrow> wf_table n t \<Longrightarrow>
    \<forall>(off, k) \<in> set (chunks g va pa sz (o' * PAGE_SIZE)).
      \<exists>e. slot_at (page_of g (va + off)) k n t = Some e \<and> \<not> entry_is_valid e \<Longrightarrow>
    \<exists>t'. map_range_loop g va pa sz fl (o' * PAGE_SIZE) t = Some t' \<and> wf_table n t'
      \<and> (\<forall>y < 512 ^ Suc n. page_map n t' y
           = (if s + o' \<le> y \<and> y < s + m then Some (q + (y - s), fl OR PTE_V) else page_map n t y))"
proof (induction "m - o'" arbitrary: o' t rule: less_induct)
  case less
  have J: "s + m \<le> 512 ^ Suc n" "sz = m * PAGE_SIZE" "levels g = Suc n" using j by (auto simp: job_def)
  show ?case
  proof (cases "o' < m")
    case False
    then have "\<not> o' * PAGE_SIZE < sz" using J(2) by (simp add: PAGE_SIZE_def)
    then show ?thesis using less.prems False by (auto simp: map_range_loop.simps)
  next
    case True
    define k where k: "k = pick_target (sz - o' * PAGE_SIZE) (va + o' * PAGE_SIZE) (pa + o' * PAGE_SIZE) (min 2 (levels g - 1))"
    note C = chunk_facts [OF j True refl, folded k]
    have ch: "chunks g va pa sz (o' * PAGE_SIZE) = (o' * PAGE_SIZE, k) # chunks g va pa sz ((o' + 512 ^ k) * PAGE_SIZE)"
      unfolding chunks.simps [of g va pa sz "o' * PAGE_SIZE"] Let_def k [symmetric] using C(1,7) by simp
    obtain e where e: "slot_at (s + o') k n t = Some e" "\<not> entry_is_valid e"
      using bspec [OF less.prems(3), of "(o' * PAGE_SIZE, k)"] C(6) ch by auto
    obtain t1 where d: "entry_at False (va + o' * PAGE_SIZE) k
        (\<lambda>_. entry_set (word_of_nat ((pa + o' * PAGE_SIZE) div 2 ^ PAGE_SHIFT)) (fl OR PTE_V)) n t [] = Some (Inr e, t1, [])"
      and t1: "wf_table n t1" "frame_of n k (s + o') t t1"
      and pm: "\<And>y. y < 512 ^ Suc n \<Longrightarrow> page_map n t1 y
        = (if s + o' \<le> y \<and> y < s + o' + 512 ^ k then Some (q + (y - s), fl OR PTE_V) else page_map n t y)"
      by (rule map_slot [OF j True less.prems(2) fl k e]) blast
    let ?o = "o' + 512 ^ k"
    have free: "\<forall>(off, l) \<in> set (chunks g va pa sz (?o * PAGE_SIZE)).
      \<exists>e. slot_at (page_of g (va + off)) l n t1 = Some e \<and> \<not> entry_is_valid e"
    proof (clarify)
      fix off l
      assume c: "(off, l) \<in> set (chunks g va pa sz (?o * PAGE_SIZE))"
      obtain i where i: "?o \<le> i" "i < m" "l \<le> n" "(s + i) mod 512 ^ l = 0" "page_of g (va + off) = s + i"
        using chunk_pages [OF j C(3) c] by (elim exE conjE) (rule that)
      have "\<not> agree n (max l k) (s + o') (s + i)"
        using slots_apart(2) [OF C(4) i(4) _ _ C(2) i(3)] i(1,2) J(1) by (simp add: max.commute)
      moreover obtain e' where "slot_at (s + i) l n t = Some e'" "\<not> entry_is_valid e'"
        using bspec [OF less.prems(3), of "(off, l)"] c ch i(5) by auto
      ultimately show "\<exists>e. slot_at (page_of g (va + off)) l n t1 = Some e \<and> \<not> entry_is_valid e"
        using frame_ofD(1) [OF t1(2) i(3)] i(5) by auto
    qed
    have "m - ?o < m - o'" by (rule diff_less_mono2) (use True in simp_all)
    from less.hyps [OF this C(3) t1(1) free]
    obtain t' where IH: "map_range_loop g va pa sz fl (?o * PAGE_SIZE) t1 = Some t'" "wf_table n t'"
      "\<forall>y < 512 ^ Suc n. page_map n t' y
         = (if s + ?o \<le> y \<and> y < s + m then Some (q + (y - s), fl OR PTE_V) else page_map n t1 y)"
      by (elim exE conjE) (rule that)
    have run: "map_range_loop g va pa sz fl (o' * PAGE_SIZE) t = Some t'"
      unfolding map_range_loop.simps [of g va pa sz fl "o' * PAGE_SIZE"] Let_def k [symmetric]
      using C(1,7) d J(3) e(2) IH(1) by simp
    have "page_map n t' y = (if s + o' \<le> y \<and> y < s + m then Some (q + (y - s), fl OR PTE_V) else page_map n t y)"
      if "y < 512 ^ Suc n" for y
      unfolding IH(3) [rule_format, OF that] pm [OF that] using C(3) by auto
    with run IH(2) show ?thesis by blast
  qed
qed

section \<open>Ranges as a whole\<close>

lemma walk_page:
  assumes "geo_ok g" and "in_space g va sz" and "i < sz div PAGE_SIZE"
  shows "page_of g (va + i * PAGE_SIZE) = page_of g va + i" and "pages_in g va sz (va + i * PAGE_SIZE)"
proof -
  have s: "va mod PAGE_SIZE = 0" "va mod 2 ^ va_bits g + sz \<le> 2 ^ va_bits g" using assms(2) by (auto simp: in_space_def)
  have "i * PAGE_SIZE < sz" using assms(3) by (metis less_mult_imp_div_less linorder_not_le div_le_mono nonzero_mult_div_cancel_right PAGE_SIZE_pos less_numeral_extra(3) order_le_less_trans nat_neq_iff)
  then show "page_of g (va + i * PAGE_SIZE) = page_of g va + i"
    using page_of_plus [OF assms(1) s(1), of "i * PAGE_SIZE"] s(2) by (simp add: PAGE_SIZE_def)
  then show "pages_in g va sz (va + i * PAGE_SIZE)" using assms(3) by (simp add: pages_in_def)
qed


text \<open>
  C24: after a successful preparation on a tree without empty tables, writing the leaves
  never panics, the addresses of the range translate to the physical range with the
  flags asked for, and every other address translates as it did before the preparation.
\<close>

theorem map_range_correct:
  assumes g: "geo_ok g" and wf: "wf_table (levels g - 1) t" and so: "solid t" and fs: "frames_ok fs"
    and sp: "in_space g va sz" and pa: "pa mod PAGE_SIZE = 0" "pa + sz \<le> USIZE" and fl: "mappable fl"
    and pr: "prepare_range_geometry g va pa sz t fs = Some (Inr (), t1, fs1)"
  shows "\<exists>t'. map_range_prepared_geometry g va pa sz fl t1 = Some t' \<and> wf_table (levels g - 1) t'
    \<and> (\<forall>w. walk_ref_geometry g w t' =
         (if pages_in g va sz w then Inr (pa + (page_of g w - page_of g va) * PAGE_SIZE, fl OR PTE_V)
          else walk_ref_geometry g w t))"
proof -
  let ?s = "page_of g va"
  obtain n m q where j: "job g n va pa sz ?s m q" by (rule jobI [OF g sp pa])
  then have J: "levels g = Suc n" "sz = m * PAGE_SIZE" "pa = q * PAGE_SIZE" by (auto simp: job_def)
  then have wf: "wf_table n t" using wf by simp
  have al: "va mod PAGE_SIZE = 0" "0 < sz" "sz mod PAGE_SIZE = 0" using sp by (auto simp: in_space_def)
  have run: "prepare_range_loop g va pa sz (0 * PAGE_SIZE) t fs = Some (Inr (), t1, fs1)"
    using pr al pa(1) by (simp add: prepare_range_geometry_def page_offset_def phys_is_aligned_def)
  have t1: "range_prepared n ?s 0 m t (Inr ()) t1" using prepare_loop_spec [OF j _ wf fs, of 0] run by auto
  note R = range_preparedD(1,2) [OF t1]
  have "tight_from n t (?s + 0)" by (rule solid_tight [OF wf so])
  note free = prepare_loop_free [OF j le0 wf fs this run]
  from map_loop_spec [OF j fl le0 R(1) free]
  obtain t' where M: "map_range_loop g va pa sz fl (0 * PAGE_SIZE) t1 = Some t'" "wf_table n t'"
    "\<forall>y < 512 ^ Suc n. page_map n t' y
       = (if ?s + 0 \<le> y \<and> y < ?s + m then Some (q + (y - ?s), fl OR PTE_V) else page_map n t1 y)"
    by (elim exE conjE) (rule that)
  have m: "sz div PAGE_SIZE = m" by (simp add: J(2) PAGE_SIZE_def)
  have "walk_ref_geometry g w t' = (if pages_in g va sz w then Inr (pa + (page_of g w - ?s) * PAGE_SIZE, fl OR PTE_V)
      else walk_ref_geometry g w t)" for w
  proof -
    have y: "page_of g w < 512 ^ Suc n" using page_of_less [OF g, of w] J(1) by simp
    show ?thesis
      unfolding walk_ref_page_map [OF g J(1) M(2)] walk_ref_page_map [OF g J(1) wf] M(3) [rule_format, OF y]
      by (cases "pages_in g va sz w") (auto simp: pages_in_def m J(3) add_mult_distrib [symmetric] page_map_def R(2))
  qed
  then show ?thesis using M(1,2) J(1) al(1) pa(1)
    by (simp add: map_range_prepared_geometry_def page_offset_def phys_is_aligned_def)
qed

section \<open>Permissions of one page\<close>

lemma slot_of_page: "wf_table n t \<Longrightarrow> mp x n t = Some (e, 0) \<Longrightarrow> slot_at x 0 n t = Some e"
proof (induction n arbitrary: t)
  case 0
  obtain p es cs where t: "t = Table p es cs" by (cases t)
  have "\<not> entry_is_branch (es ! digit 0 x)" using wf_child [OF 0(1) [unfolded t] digit_less] by blast
  with 0(2) t show ?case by (simp add: mp_here slot_here split: if_splits)
next
  case (Suc n)
  obtain p es cs where t: "t = Table p es cs" by (cases t)
  show ?case
  proof (cases "entry_is_branch (es ! digit (Suc n) x)")
    case True
    from wf_child [OF Suc.prems(1) [unfolded t] digit_less True]
    obtain c where c: "map_of cs (digit (Suc n) x) = Some c" "wf_table n c" by auto
    with True Suc.prems(2) t have "mp x n c = Some (e, 0)" by (simp add: mp_below)
    with Suc.IH [OF c(2)] True c(1) t show ?thesis by (simp add: slot_below)
  next
    case False
    with Suc.prems(2) t show ?thesis by (simp add: mp_here split: if_splits)
  qed
qed

lemma permitted_entry:
  assumes e: "entry_is_valid e" "entry_is_leaf e" and fl: "mappable fl"
  defines "f \<equiv> with_permissions fl e"
  shows "entry_flags f = (entry_flags e AND NOT (PTE_R OR PTE_W OR PTE_X)) OR fl" and "entry_ppn f = entry_ppn e"
    and "entry_is_valid f" and "entry_is_leaf f"
proof -
  let ?n = "(entry_flags e AND NOT (PTE_R OR PTE_W OR PTE_X)) OR fl"
  have n: "take_bit 8 ?n = ?n"
    using fl by (intro bit_word_eqI) (auto simp: mappable_def bit_take_bit_iff bit_or_iff bit_and_iff entry_flags_take dest: low_flags)
  show fls: "entry_flags f = ?n" unfolding f_def with_permissions_def by (rule entry_set_flags_flags [OF n])
  show "entry_ppn f = entry_ppn e" unfolding f_def with_permissions_def by (rule entry_set_flags_ppn [OF n])
  have "bit (entry_flags e) 0" using e(1) by (simp add: entry_valid_bit entry_flags_take bit_take_bit_iff)
  then have "bit ?n 0" by (simp add: bit_or_iff bit_and_iff bit_not_iff rwx_bits bit_14)
  then show "entry_is_valid f" unfolding fls [symmetric] by (simp add: entry_valid_bit entry_flags_take bit_take_bit_iff)
  have "?n AND (PTE_R OR PTE_W OR PTE_X) = fl AND (PTE_R OR PTE_W OR PTE_X)"
    by (rule bit_word_eqI) (auto simp: bit_or_iff bit_and_iff bit_not_iff)
  then show "entry_is_leaf f" unfolding entry_is_leaf_def fls using fl by (simp add: mappable_def flags_intersects_def)
qed

text \<open>
  C26: on a page mapped by a leaf of its own, a change of permissions never panics; that
  page keeps its frame and every flag but read, write and execute, which become the ones
  asked for, and every other address translates as before.
\<close>

theorem set_permissions_correct:
  assumes g: "geo_ok g" and wf: "wf_table (levels g - 1) t" and fl: "mappable fl"
    and span: "leaf_span_geometry g va t = Some PAGE_SIZE" and walk: "walk_ref_geometry g va t = Inr (pa, old)"
  shows "\<exists>t'. set_permissions_prepared_geometry g va fl t = Some t' \<and> wf_table (levels g - 1) t'
    \<and> (\<forall>w. walk_ref_geometry g w t' =
         (if page_of g w = page_of g va then Inr (pa, (old AND NOT (PTE_R OR PTE_W OR PTE_X)) OR fl)
          else walk_ref_geometry g w t))"
proof -
  let ?x = "page_of g va"
  obtain n where n: "levels g = Suc n" using g by (cases "levels g") (auto simp: geo_ok_def)
  then have wf: "wf_table n t" using wf by simp
  obtain e l where c: "cell ?x n t = (e, l)" by fastforce
  have e: "entry_is_valid e" "entry_is_leaf e" "table_span l = PAGE_SIZE"
    using span c by (auto simp: leaf_span_geometry_def leaf_ref_geometry_cell [OF g n wf] split: if_splits)
  have "512 ^ l = (1::nat)" using e(3) by (simp add: span_pages PAGE_SIZE_def)
  then have l: "l = 0" by simp
  have m: "mp ?x n t = Some (e, 0)" using c e l by (simp add: mp_def)
  have w: "pa = unat (entry_ppn e) * PAGE_SIZE" "old = entry_flags e"
    using walk m by (simp_all add: walk_ref_page_map [OF g n wf] page_map_def)
  note F = permitted_entry [OF e(1,2) fl]
  have nb: "\<not> entry_is_branch e" "\<not> entry_is_branch (with_permissions fl e)" using e(2) F(4) by (simp_all add: entry_is_branch_def)
  have ok: "leaf_ok 0 (with_permissions fl e)" using mp_leaf [OF m wf] F(2) by (simp add: leaf_ok_def)
  have fs: "frames_ok []" by (simp add: frames_ok_def)
  obtain r t1 fs' where d: "entry_at False va 0 (with_permissions fl) n t [] = Some (r, t1, fs')"
    "entry_result False n 0 ?x t (with_permissions fl) r t1"
    using entry_at_spec [OF g wf le0 _ fs, of False va "with_permissions fl"] n by auto
  have "slot_result False n 0 ?x t (with_permissions fl) r t1" using entry_at_slots [OF g wf le0 _ fs d(1)] n by simp
  from slot_resultD(1) [OF this slot_of_page [OF wf m]] have r: "r = Inr e" .
  have R: "wf_table n t1" "\<And>y. mp y n t1 = (if agree n 0 ?x y then as_mp (with_permissions fl e) 0 else mp y n t)"
    using d(2) r nb ok unfolding entry_result_def by auto
  have "walk_ref_geometry g w t1 = (if page_of g w = ?x then Inr (pa, (old AND NOT (PTE_R OR PTE_W OR PTE_X)) OR fl)
      else walk_ref_geometry g w t)" for w
  proof -
    have "?x < 512 ^ Suc n" "page_of g w < 512 ^ Suc n" using page_of_less [OF g] n by metis+
    then have "agree n 0 ?x (page_of g w) \<longleftrightarrow> ?x = page_of g w" using agree_div [of ?x n "page_of g w" 0] by simp
    then show ?thesis
      using R(2) F w by (auto simp: walk_ref_page_map [OF g n R(1)] walk_ref_page_map [OF g n wf] page_map_def as_mp_def)
  qed
  then show ?thesis using d(1) r R(1) e n by (simp add: set_permissions_prepared_geometry_def)
qed

section \<open>Reclaiming empty tables\<close>

text \<open>
  C27: reclaiming the empty tables changes no translation, and leaves no empty table below
  the root.
\<close>

theorem reclaim_empty_tables_correct:
  assumes g: "geo_ok g" and wf: "wf_table (levels g - 1) t"
  shows "\<exists>t' gone. reclaim_empty_tables t retired = (t', retired @ gone) \<and> wf_table (levels g - 1) t' \<and> solid t'
    \<and> (\<forall>w. walk_ref_geometry g w t' = walk_ref_geometry g w t)"
proof -
  obtain n where n: "levels g = Suc n" using g by (cases "levels g") (auto simp: geo_ok_def)
  then have wf: "wf_table n t" using wf by simp
  obtain v t' gone where p: "prune_empty t = (v, t', gone)" by (cases "prune_empty t") auto
  have P: "wf_table n t'" "\<And>x. mp x n t' = mp x n t" "solid t'"
    using prune_empty_spec [OF p wf] by (auto simp: pruned_def)
  have "walk_ref_geometry g w t' = walk_ref_geometry g w t" for w
    by (rule wf_walk_eq [OF g n wf P(1)]) (simp add: page_map_def P(2))
  then show ?thesis using p P n by (simp add: reclaim_empty_tables_def)
qed

section \<open>The walk over physical memory\<close>

text \<open>Memory holds the tree when every table lies in its frame, eight bytes to an entry.\<close>

fun held :: "(nat \<Rightarrow> pte) \<Rightarrow> table \<Rightarrow> bool" where
  "held mem (Table p es cs) \<longleftrightarrow>
     (\<forall>i < 512. mem (p * PAGE_SIZE + i * 8) = es ! i) \<and> (\<forall>(i, c) \<in> set cs. held mem c)"

declare held.simps [simp del] walk_raw_loop.simps [simp del]

definition leaf_target :: "nat \<Rightarrow> pte \<times> nat \<Rightarrow> (nat \<times> pte_flags) option" where
  "leaf_target va c = (case c of (e, l) \<Rightarrow>
     if entry_is_valid e then Some (unat (entry_ppn e) * PAGE_SIZE + (va mod table_span l - va mod table_span l mod PAGE_SIZE), entry_flags e)
     else None)"

lemma raw_step:
  assumes "geo_ok g" and "l < levels g" and "wf_table l (Table p es cs)" and "held mem (Table p es cs)"
    and "\<not> entry_is_branch (es ! digit l (page_of g va))"
  shows "walk_raw_loop mem ok va (Suc l) (p * PAGE_SIZE)
    = (case leaf_target va (es ! digit l (page_of g va), l) of
         None \<Rightarrow> None | Some (pa, fl) \<Rightarrow> if ok pa then Some (pa, fl) else None)"
proof -
  let ?e = "es ! digit l (page_of g va)"
  have mem: "mem (p * PAGE_SIZE + vpn va l * 8) = ?e"
    using assms(4) digit_less vpn_digit [OF assms(1,2)] by (simp add: held.simps)
  have ok: "leaf_ok l ?e" using wf_TableD(5) [OF assms(3)] digit_less by blast
  show ?thesis
    using assms(5) mem leaf_ok_aligned [OF ok] by (auto simp: leaf_target_def entry_is_branch_def Let_def walk_raw_loop.simps(2))
qed

lemma raw_loop:
  assumes "geo_ok g"
  shows "l < levels g \<Longrightarrow> wf_table l t \<Longrightarrow> held mem t \<Longrightarrow>
    (\<forall>r. walk_raw_loop mem ok va (Suc l) (tb_ppn t * PAGE_SIZE) = Some r \<longrightarrow>
        leaf_target va (cell (page_of g va) l t) = Some r \<and> ok (fst r))
  \<and> ((\<forall>a. ok a) \<longrightarrow> walk_raw_loop mem ok va (Suc l) (tb_ppn t * PAGE_SIZE) = leaf_target va (cell (page_of g va) l t))"
proof (induction l arbitrary: t)
  case 0
  obtain p es cs where t: "t = Table p es cs" by (cases t)
  have nb: "\<not> entry_is_branch (es ! digit 0 (page_of g va))" using wf_child [OF 0(2) [unfolded t] digit_less] by blast
  show ?case
    unfolding t table.sel raw_step [OF assms 0(1) 0(2,3) [unfolded t] nb] using nb
    by (auto simp: cell.simps split: option.splits if_splits)
next
  case (Suc l)
  obtain p es cs where t: "t = Table p es cs" by (cases t)
  let ?e = "es ! digit (Suc l) (page_of g va)"
  show ?case
  proof (cases "entry_is_branch ?e")
    case True
    obtain b c where c: "l = b" "map_of cs (digit (Suc l) (page_of g va)) = Some c" "wf_table b c" "tb_ppn c = unat (entry_ppn ?e)"
      by (rule wf_child [OF Suc.prems(2) [unfolded t] digit_less True]) (simp only: nat.inject)
    note c = c(2) c(3) [folded c(1)] c(4) [symmetric]
    have "(digit (Suc l) (page_of g va), c) \<in> set cs" using c(1) by (rule map_of_SomeD)
    then have hc: "held mem c" using Suc.prems(3) t by (auto simp: held.simps)
    have mem: "mem (p * PAGE_SIZE + vpn va (Suc l) * 8) = ?e"
      using Suc.prems(1,3) digit_less vpn_digit [OF assms] t by (simp add: held.simps)
    have "tb_ppn c < 2 ^ 52" using c(2) wf_TableD(2) by (cases c) auto
    then have pa: "unat (entry_paddr ?e) = tb_ppn c * PAGE_SIZE" using entry_paddr_nat c(3) by simp
    have "walk_raw_loop mem ok va (Suc (Suc l)) (tb_ppn t * PAGE_SIZE)
        = (if \<not> ok (tb_ppn c * PAGE_SIZE) then None else walk_raw_loop mem ok va (Suc l) (tb_ppn c * PAGE_SIZE))"
      unfolding walk_raw_loop.simps(2) [of _ _ _ "Suc l"] Let_def t table.sel mem pa using True by (simp add: entry_is_branch_def)
    moreover have "cell (page_of g va) (Suc l) t = cell (page_of g va) l c" using True c(1) by (simp add: t cell.simps)
    moreover have "l < levels g" using Suc.prems(1) by simp
    note Suc.IH [OF this c(2) hc]
    ultimately show ?thesis by (metis option.distinct(1))
  next
    case False
    show ?thesis
      unfolding t table.sel raw_step [OF assms Suc.prems(1) Suc.prems(2,3) [unfolded t] False] using False
      by (auto simp: cell.simps split: option.splits if_splits)
  qed
qed

text \<open>
  C28: over a memory that holds the tree, the walk by physical addresses returns only what
  the walk of the tree returns, at an address the filter admits; when the filter admits
  every address the two walks agree.
\<close>

theorem walk_raw_agrees:
  assumes g: "geo_ok g" and wf: "wf_table (levels g - 1) t" and mem: "held mem t"
  shows "(\<forall>r. walk_raw g mem ok (tb_ppn t * PAGE_SIZE) va = Some r \<longrightarrow> walk_ref_geometry g va t = Inr r \<and> ok (fst r))
    \<and> walk_raw g mem (\<lambda>_. True) (tb_ppn t * PAGE_SIZE) va
       = (case walk_ref_geometry g va t of Inl _ \<Rightarrow> None | Inr r \<Rightarrow> Some r)"
proof -
  obtain n where n: "levels g = Suc n" using g by (cases "levels g") (auto simp: geo_ok_def)
  then have wf: "wf_table n t" using wf by simp
  have target: "walk_ref_geometry g va t = (case leaf_target va (cell (page_of g va) n t) of None \<Rightarrow> Inl NotMapped | Some r \<Rightarrow> Inr r)"
  proof (cases "mp (page_of g va) n t")
    case None
    then show ?thesis using walk_none [OF g n wf, of va] by (cases "cell (page_of g va) n t") (simp add: mp_def leaf_target_def split: if_splits)
  next
    case (Some el)
    obtain e l where el: "el = (e, l)" by (cases el)
    then have c: "cell (page_of g va) n t = (e, l)" "entry_is_valid e"
      using Some by (cases "cell (page_of g va) n t", simp add: mp_def split: if_splits)+
    have "l \<le> n" using wf_cell_leaf [OF wf, of "page_of g va"] c(1) by simp
    then show ?thesis using c page_of_mod [OF g, of l va] n Some el
      by (simp add: walk_ref_page_map [OF g n wf] page_map_def leaf_target_def span_offset add_mult_distrib)
  qed
  note L = raw_loop [OF g _ wf mem, of _ va]
  have "walk_raw g mem (\<lambda>_. True) (tb_ppn t * PAGE_SIZE) va = leaf_target va (cell (page_of g va) n t)"
    using L [of "\<lambda>_. True", THEN conjunct2] by (simp add: walk_raw_def n)
  moreover have "leaf_target va (cell (page_of g va) n t) = Some r \<and> ok (fst r)"
    if "walk_raw g mem ok (tb_ppn t * PAGE_SIZE) va = Some r" for r
    using L [of ok, THEN conjunct1, rule_format, of r] that by (simp add: walk_raw_def n split: if_splits)
  ultimately show ?thesis unfolding target by (auto split: option.splits)
qed

section \<open>A table left over\<close>

text \<open>A tree with one path, and no mapping but the one its last table may hold.\<close>

definition one_child :: "nat \<Rightarrow> table \<Rightarrow> table" where
  "one_child p c = Table p ((replicate 512 0)[0 := entry_set (word_of_nat (tb_ppn c)) PTE_V]) [(0, c)]"

definition one_page :: "nat \<Rightarrow> pte \<Rightarrow> table" where
  "one_page p e = Table p ((replicate 512 0)[0 := e]) []"

definition stale :: table where
  "stale = one_child 1 (one_child 2 (table_leaf 3))"

lemma branch_facts: "entry_is_valid (entry_set p PTE_V)" "\<not> entry_is_leaf (entry_set p PTE_V)"
  using branch_entry [of p] unfolding entry_is_branch_def by blast+

lemma stale_slot:
  assumes "v < 512 * PAGE_SIZE"
  shows "entry_at True v 0 (\<lambda>e. e) 2 stale [] = Some (Inr 0, stale, [])"
    and "entry_at b v 1 f 2 stale [] = Some (Inr (entry_set 3 PTE_V),
           one_child 1 (Table 2 ((replicate 512 0)[0 := f (entry_set 3 PTE_V)]) [(0, table_leaf 3)]), [])"
proof -
  have v: "vpn v 2 = 0" "vpn v (Suc 0) = 0" "vpn v 0 < 512" using assms by (simp_all add: vpn_def PAGE_SIZE_def PAGE_SHIFT_def)
  then show "entry_at True v 0 (\<lambda>e. e) 2 stale [] = Some (Inr 0, stale, [])"
    by (simp add: stale_def one_child_def table_leaf_def numeral_2_eq_2 branch_facts list_update_same_conv)
  show "entry_at b v 1 f 2 stale [] = Some (Inr (entry_set 3 PTE_V),
           one_child 1 (Table 2 ((replicate 512 0)[0 := f (entry_set 3 PTE_V)]) [(0, table_leaf 3)]), [])"
    using v by (simp add: stale_def one_child_def table_leaf_def numeral_2_eq_2 branch_facts Let_def)
qed

lemma stale_same: "one_child 1 (Table 2 ((replicate 512 0)[0 := entry_set 3 PTE_V]) [(0, table_leaf 3)]) = stale"
  by (simp add: stale_def one_child_def table_leaf_def)

lemma pick_two:
  "pick_target left v p 2 =
     (if left < 0x40000000 \<or> v mod 0x40000000 \<noteq> 0 \<or> p mod 0x40000000 \<noteq> 0
      then if left < 0x200000 \<or> v mod 0x200000 \<noteq> 0 \<or> p mod 0x200000 \<noteq> 0 then 0 else 1 else 2)"
proof -
  have "table_span 2 = 0x40000000" "table_span 1 = 0x200000" by (simp_all add: table_span_def PAGE_SHIFT_def)
  then show ?thesis using pick_target.simps(2) [of left v p 1] pick_target.simps(2) [of left v p 0]
    by (simp add: numeral_2_eq_2 [symmetric])
qed

lemma Sv39_levels: "levels (geometry Sv39) = 3" and Sv39_bits: "va_bits (geometry Sv39) = 39"
  by (simp_all add: geometry_def)

lemma stale_prepare:
  "o' \<le> 512 \<Longrightarrow> prepare_range_loop (geometry Sv39) 0 0x200000 0x200000 (o' * PAGE_SIZE) stale [] = Some (Inr (), stale, [])"
proof (induction "512 - o'" arbitrary: o')
  case 0
  then show ?case by (simp add: prepare_range_loop.simps PAGE_SIZE_def)
next
  case (Suc d)
  let ?k = "pick_target (0x200000 - o' * PAGE_SIZE) (0 + o' * PAGE_SIZE) (0x200000 + o' * PAGE_SIZE) (min 2 (levels (geometry Sv39) - 1))"
  have lt: "o' < 512" using Suc(2) by simp
  then have v: "o' * PAGE_SIZE < 512 * PAGE_SIZE" by (simp add: PAGE_SIZE_def)
  have k: "?k = (if o' = 0 then 1 else 0)"
    using lt by (auto simp: Sv39_levels pick_two PAGE_SIZE_def)
  have one: "prepare_slot (geometry Sv39) (o' * PAGE_SIZE) 0 stale [] = Some (Inr 0, stale, [])"
    using stale_slot(1) [OF v] by (simp add: prepare_slot.simps Sv39_levels)
  have "prepare_slot (geometry Sv39) (o' * PAGE_SIZE) ?k stale [] = Some (Inr 0, stale, [])"
    unfolding k using one stale_slot(2) [OF v, of True "\<lambda>e. e", unfolded stale_same]
    by (cases "o' = 0") (simp_all add: prepare_slot.simps [of _ _ "Suc 0"] Sv39_levels branch_facts)
  moreover have "prepare_range_loop (geometry Sv39) 0 0x200000 0x200000 (Suc o' * PAGE_SIZE) stale [] = Some (Inr (), stale, [])"
    by (rule Suc(1)) (use Suc(2) in simp_all)
  moreover have "o' * PAGE_SIZE + table_span 0 = Suc o' * PAGE_SIZE" by (simp add: span_pages)
  ultimately show ?case
    using lt unfolding prepare_range_loop.simps [of _ _ _ _ "o' * PAGE_SIZE"] by (simp add: PAGE_SIZE_def add.commute)
qed

text \<open>
  C29: a preparation that runs out of frames half way leaves an empty table behind. A later
  preparation of the range below it succeeds, since it goes down into the empty table,
  but the write picks the level from the alignment alone and meets the branch: the
  assertion on a free slot fails.
\<close>

theorem map_over_left_over_table:
  "prepare_range_geometry (geometry Sv39) 0x1FF000 0x1000 0x2000 (table_leaf 1) [(2, True), (3, True)]
     = Some (Inl OutOfMemory, stale, [])
 \<and> prepare_range_geometry (geometry Sv39) 0 0x200000 0x200000 stale [] = Some (Inr (), stale, [])
 \<and> map_range_prepared_geometry (geometry Sv39) 0 0x200000 0x200000 PTE_R stale = None"
proof (intro conjI)
  show "prepare_range_geometry (geometry Sv39) 0 0x200000 0x200000 stale [] = Some (Inr (), stale, [])"
    using stale_prepare [of 0] by (simp add: prepare_range_geometry_def page_offset_def phys_is_aligned_def PAGE_SIZE_def)
  have l: "levels (geometry Sv39) - Suc 0 = Suc (Suc 0)" and mn: "min 2 (Suc (Suc 0)) = (2::nat)" by (simp_all add: geometry_def)
  show "map_range_prepared_geometry (geometry Sv39) 0 0x200000 0x200000 PTE_R stale = None"
    using stale_slot(2) [of 0 False]
    by (simp add: map_range_prepared_geometry_def page_offset_def phys_is_aligned_def PAGE_SIZE_def map_range_loop.simps
        Sv39_levels pick_two Let_def branch_facts)
  show "prepare_range_geometry (geometry Sv39) 0x1FF000 0x1000 0x2000 (table_leaf 1) [(2, True), (3, True)]
     = Some (Inl OutOfMemory, stale, [])"
    by (simp add: prepare_range_geometry_def page_offset_def phys_is_aligned_def PAGE_SIZE_def prepare_range_loop.simps l mn pick_two
        table_span_def PAGE_SHIFT_def prepare_slot.simps vpn_def table_leaf_def stale_def one_child_def branch_facts Let_def)
qed

section \<open>Concrete tables\<close>

lemma wf_one_child: "wf_table l c \<Longrightarrow> p < 2 ^ 52 \<Longrightarrow> tb_ppn c < 2 ^ 52 \<Longrightarrow> wf_table (Suc l) (one_child p c)"
proof -
  assume c: "wf_table l c" "p < 2 ^ 52" "tb_ppn c < 2 ^ 52"
  have v: "take_bit 8 PTE_V = PTE_V" by (simp add: PTE_V_def)
  have "unat (entry_ppn (entry_set (word_of_nat (tb_ppn c)) PTE_V)) = tb_ppn c"
    using c(3) by (subst entry_ppn_set [OF v]) (simp_all add: unat_word_of_nat)
  then show ?thesis
    using c(1,2) unfolding one_child_def wf_table.simps
    by (auto simp: nth_list_update leaf_ok_def branch_facts)
qed

lemma wf_one_page: "leaf_ok 0 e \<Longrightarrow> \<not> entry_is_branch e \<Longrightarrow> p < 2 ^ 52 \<Longrightarrow> wf_table 0 (one_page p e)"
  unfolding one_page_def wf_table.simps by (auto simp: nth_list_update leaf_ok_def)

definition sample :: table where
  "sample = one_child 1 (one_child 2 (one_page 3 (entry_set 5 (PTE_R OR PTE_V))))"

lemma sample_entry:
  "entry_is_valid (entry_set 5 (PTE_R OR PTE_V))" "entry_is_leaf (entry_set 5 (PTE_R OR PTE_V))"
  "entry_flags (entry_set 5 (PTE_R OR PTE_V)) = PTE_R OR PTE_V" "unat (entry_ppn (entry_set 5 (PTE_R OR PTE_V))) = 5"
proof -
  have "mappable PTE_R" by (simp add: mappable_def flags_intersects_def flag_defs)
  from mapped_entry [OF this, of 5] show
  "entry_is_valid (entry_set 5 (PTE_R OR PTE_V))" "entry_is_leaf (entry_set 5 (PTE_R OR PTE_V))"
  "entry_flags (entry_set 5 (PTE_R OR PTE_V)) = PTE_R OR PTE_V" "unat (entry_ppn (entry_set 5 (PTE_R OR PTE_V))) = 5"
    by simp_all
qed

lemma sample_wf: "wf_table 2 sample"
  unfolding sample_def numeral_2_eq_2
  by (intro wf_one_child wf_one_page)
    (simp_all add: sample_entry leaf_ok_def entry_is_branch_def one_child_def one_page_def)

lemma sample_leaf: "leaf_ref_geometry (geometry Sv39) 0 sample = Inr (entry_set 5 (PTE_R OR PTE_V), 0)"
  by (simp add: leaf_ref_geometry_def Sv39_levels sample_def one_child_def one_page_def numeral_2_eq_2
      vpn_def branch_facts sample_entry)


theorem map_range_correct_witness:
  "\<exists>t'. map_range_prepared_geometry (geometry Sv39) 0 0 0x40000000 PTE_R (table_leaf 1) = Some t'
    \<and> walk_ref_geometry (geometry Sv39) 0x5000 t' = Inr (0x5000, PTE_R OR PTE_V)"
proof -
  have pr: "prepare_range_geometry (geometry Sv39) 0 0 0x40000000 (table_leaf 1) [] = Some (Inr (), table_leaf 1, [])"
    by (simp add: prepare_range_geometry_def page_offset_def phys_is_aligned_def PAGE_SIZE_def prepare_range_loop.simps
        Sv39_levels pick_two prepare_slot.simps table_leaf_def Let_def vpn_def table_span_def PAGE_SHIFT_def list_update_same_conv)
  have a: "wf_table (levels (geometry Sv39) - 1) (table_leaf 1)" "solid (table_leaf 1)" "frames_ok []" "mappable PTE_R"
    "in_space (geometry Sv39) 0 0x40000000" "(0::nat) mod PAGE_SIZE = 0" "0 + 0x40000000 \<le> USIZE"
    "pages_in (geometry Sv39) 0 0x40000000 0x5000"
    by (simp_all add: wf_fresh) (simp_all add: table_leaf_def solid.simps frames_ok_def mappable_def flags_intersects_def flag_defs in_space_def
        geometry_def PAGE_SIZE_def USIZE_def pages_in_def page_of_def)
  have "page_of (geometry Sv39) 0x5000 = 5" "page_of (geometry Sv39) 0 = 0" by (simp_all add: page_of_def geometry_def PAGE_SIZE_def)
  with map_range_correct [OF geometry_ok a(1,2,3,5,6,7,4) pr] a(8) show ?thesis
    by (fastforce simp: PAGE_SIZE_def)
qed

theorem set_permissions_correct_witness:
  "\<exists>t'. set_permissions_prepared_geometry (geometry Sv39) 0 (PTE_R OR PTE_W) sample = Some t'
    \<and> walk_ref_geometry (geometry Sv39) 0 t' = Inr (0x5000, PTE_V OR PTE_R OR PTE_W)"
proof -
  have "unat (entry_paddr (entry_set 5 (PTE_R OR PTE_V))) = 0x5000"
    by (simp add: entry_paddr_nat sample_entry PAGE_SIZE_def)
  then have w: "walk_ref_geometry (geometry Sv39) 0 sample = Inr (0x5000, PTE_R OR PTE_V)"
    "leaf_span_geometry (geometry Sv39) 0 sample = Some PAGE_SIZE"
    by (simp_all add: walk_ref_geometry_def leaf_span_geometry_def sample_leaf sample_entry table_span_def PAGE_SIZE_def PAGE_SHIFT_def)
  have m: "mappable (PTE_R OR PTE_W)" by (simp add: mappable_def flags_intersects_def flag_defs)
  have wf: "wf_table (levels (geometry Sv39) - 1) sample" by (simp add: Sv39_levels sample_wf)
  have "((PTE_R OR PTE_V) AND NOT (PTE_R OR PTE_W OR PTE_X)) OR PTE_R OR PTE_W = PTE_V OR PTE_R OR PTE_W" by (simp add: flag_defs)
  with set_permissions_correct [OF geometry_ok wf m w(2,1)] show ?thesis by (auto simp only: refl if_True)
qed

theorem reclaim_empty_tables_correct_witness:
  "\<exists>t' gone. reclaim_empty_tables stale [] = (t', gone) \<and> solid t'"
proof -
  have "wf_table 2 stale" unfolding stale_def numeral_2_eq_2
    by (intro wf_one_child wf_fresh) (simp_all add: one_child_def table_leaf_def)
  then have wf: "wf_table (levels (geometry Sv39) - 1) stale" by (simp add: Sv39_levels)
  from reclaim_empty_tables_correct [OF geometry_ok wf, of "[]"] show ?thesis by auto
qed

theorem walk_raw_agrees_witness:
  "walk_raw (geometry Sv39) (\<lambda>_. 0) (\<lambda>_. True) 0x1000 0 = None"
proof -
  have wf: "wf_table (levels (geometry Sv39) - 1) (table_leaf 1)" and h: "held (\<lambda>_. 0) (table_leaf 1)"
    by (simp_all add: wf_fresh) (simp add: held.simps table_leaf_def)
  have "walk_ref_geometry (geometry Sv39) 0 (table_leaf 1) = Inl NotMapped"
    using walk_none [OF geometry_ok, of Sv39 2 "table_leaf 1" 0] by (simp add: Sv39_levels wf_fresh mp_fresh)
  with walk_raw_agrees [OF geometry_ok wf h, of "\<lambda>_. True" 0] show ?thesis
    by (simp add: table_leaf_def PAGE_SIZE_def)
qed


end
