(* ===== verification/Flat.thy ===== *)
theory Flat
  imports Occupancy Address
begin

text \<open>
  Physical sources (\<open>kernel/src/core/memory/flat/\<close>): a linear run of logical pages
  that is either allocator memory, whose pages come into being on demand, or a borrowed
  physical region. Page tab, residencies, materialisation, and the custody of frames.

  A frame is named by its physical address; the custody word of each frame is a map
  from frames. The frame allocator is an argument: the list \<open>fs\<close> holds the frames it
  still hands out, and an exhausted list is the failing allocation. A failing \<open>expect\<close>
  or \<open>assert\<close> is the result \<open>None\<close>.
\<close>

section \<open>Data\<close>

datatype flat_error = FOutOfMemory | FNotAligned | FOutOfRange | FMissing | FBusy

datatype page_slot =
    SResident nat
  | SMissing
  | SMoving (mv_frame: nat) (mv_transaction: nat)
  | SReserved (rs_transaction: nat) (rs_was_missing: bool)

type_synonym slot_table = "(nat \<times> page_slot) list"

record region =
  rg_start :: nat
  rg_size :: nat

datatype flat_source = Managed slot_table | Borrowed region

record residency_entry =
  re_id :: nat
  re_index :: nat
  re_count :: nat

record flat =
  fl_pages :: nat
  fl_source :: flat_source
  fl_residencies :: "residency_entry list"
  fl_next :: nat
  fl_transferable :: bool

record flat_range =
  fr_flat :: nat
  fr_index :: nat
  fr_count :: nat

datatype custody = Sole | Aliased | InTransit

type_synonym custodies = "nat \<Rightarrow> custody"

fun nest_of_flat_error :: "flat_error \<Rightarrow> nest_error" where
  "nest_of_flat_error FOutOfMemory = OutOfMemory"
| "nest_of_flat_error FNotAligned = NotAligned"
| "nest_of_flat_error FOutOfRange = NoRegion"
| "nest_of_flat_error FMissing = Missing"
| "nest_of_flat_error FBusy = Busy"

section \<open>Custody\<close>

definition custody_enter :: "nat \<Rightarrow> custodies \<Rightarrow> bool \<times> custodies" where
  "custody_enter f c = (if c f = Sole then (True, c(f := InTransit)) else (False, c))"

definition custody_leave :: "nat \<Rightarrow> custodies \<Rightarrow> custodies option" where
  "custody_leave f c = (if c f = InTransit then Some (c(f := Sole)) else None)"

definition custody_register :: "nat \<Rightarrow> custodies \<Rightarrow> (flat_error + unit) \<times> custodies" where
  "custody_register f c =
     (case c f of Aliased \<Rightarrow> (Inr (), c) | InTransit \<Rightarrow> (Inl FBusy, c)
                | Sole \<Rightarrow> (Inr (), c(f := Aliased)))"

fun register_all :: "nat list \<Rightarrow> custodies \<Rightarrow> (flat_error + unit) \<times> custodies" where
  "register_all [] c = (Inr (), c)"
| "register_all (f # fs) c =
     (case custody_register f c of (Inl e, c') \<Rightarrow> (Inl e, c') | (Inr _, c') \<Rightarrow> register_all fs c')"

section \<open>Page tab\<close>

definition spot :: "slot_table \<Rightarrow> nat \<Rightarrow> nat \<times> bool" where
  "spot tab page =
     (let at = partition_point (\<lambda>s. fst s < page) tab in
      (at, at < length tab \<and> fst (tab ! at) = page))"

fun is_in_flight :: "page_slot \<Rightarrow> bool" where
  "is_in_flight (SMoving _ _) = True"
| "is_in_flight (SReserved _ _) = True"
| "is_in_flight _ = False"

definition window_slots :: "slot_table \<Rightarrow> nat \<Rightarrow> nat \<Rightarrow> slot_table" where
  "window_slots tab first_page end_page =
     (let first = partition_point (\<lambda>s. fst s < first_page) tab;
          lst = partition_point (\<lambda>s. fst s < end_page) tab
      in take (lst - first) (drop first tab))"

section \<open>Sources\<close>

definition region_new :: "(nat \<Rightarrow> bool) \<Rightarrow> nat \<Rightarrow> nat \<Rightarrow> flat_error + region" where
  "region_new mem start sz =
     (if \<not> phys_is_aligned start \<or> sz = 0 \<or> sz mod PAGE_SIZE \<noteq> 0 then Inl FNotAligned
      else case checked_add start (sz - 1) of
             None \<Rightarrow> Inl FNotAligned
           | Some _ \<Rightarrow> if mem 0 then Inr \<lparr>rg_start = start, rg_size = sz\<rparr> else Inl FOutOfMemory)"

definition allocation_new :: "nat \<Rightarrow> nat \<Rightarrow> flat_error + nat" where
  "allocation_new pages align =
     (if pages = 0 then Inl FNotAligned else if align \<noteq> PAGE_SIZE then Inl FNotAligned else Inr pages)"

definition flat_new :: "(nat \<Rightarrow> bool) \<Rightarrow> nat \<Rightarrow> flat_source \<Rightarrow> bool \<Rightarrow> flat_error + flat" where
  "flat_new mem pages source transferable =
     (if mem 0 then Inr \<lparr>fl_pages = pages, fl_source = source, fl_residencies = [], fl_next = 1,
                          fl_transferable = transferable\<rparr>
      else Inl FOutOfMemory)"

definition flat_acquire :: "(nat \<Rightarrow> bool) \<Rightarrow> nat \<Rightarrow> flat_error + flat" where
  "flat_acquire mem pages = flat_new mem pages (Managed []) True"

fun check_frames :: "nat \<Rightarrow> nat option \<Rightarrow> (nat \<times> nat) list \<Rightarrow> flat_error + slot_table" where
  "check_frames pages previous [] = Inr []"
| "check_frames pages previous ((page, frame) # fs) =
     (if page \<ge> pages \<or> (case previous of None \<Rightarrow> False | Some q \<Rightarrow> q \<ge> page) then Inl FOutOfRange
      else rbind (check_frames pages (Some page) fs) (\<lambda>ss. Inr ((page, SResident frame) # ss)))"

definition flat_from_frames ::
  "(nat \<Rightarrow> bool) \<Rightarrow> nat \<Rightarrow> (nat \<times> nat) list \<Rightarrow> custodies \<Rightarrow> (flat_error + flat) \<times> custodies" where
  "flat_from_frames mem pages frames c =
     (if \<not> mem 1 then (Inl FOutOfMemory, c)
      else case check_frames pages None frames of
        Inl e \<Rightarrow> (Inl e, c)
      | Inr tab \<Rightarrow>
          (case flat_new mem pages (Managed tab) False of
             Inl e \<Rightarrow> (Inl e, c)
           | Inr fl \<Rightarrow>
               (case register_all (map snd frames) c of
                  (Inl e, c') \<Rightarrow> (Inl e, c')
                | (Inr _, c') \<Rightarrow> (Inr fl, c'))))"

definition flat_from_region :: "(nat \<Rightarrow> bool) \<Rightarrow> region \<Rightarrow> flat_error + flat" where
  "flat_from_region mem rg =
     (case page_count_new (rg_size rg div PAGE_SIZE) of
        None \<Rightarrow> Inl FOutOfRange
      | Some n \<Rightarrow> flat_new mem n (Borrowed rg) False)"

definition mark_untransferable :: "flat \<Rightarrow> flat" where
  "mark_untransferable fl = fl\<lparr>fl_transferable := False\<rparr>"

definition flat_window :: "nat \<Rightarrow> flat \<Rightarrow> nat \<Rightarrow> nat \<Rightarrow> flat_error + flat_range" where
  "flat_window fid fl index count =
     (case checked_add index count of
        None \<Rightarrow> Inl FOutOfRange
      | Some e \<Rightarrow> if e > fl_pages fl then Inl FOutOfRange
                 else Inr \<lparr>fr_flat = fid, fr_index = index, fr_count = count\<rparr>)"

definition flat_whole :: "nat \<Rightarrow> flat \<Rightarrow> flat_range" where
  "flat_whole fid fl = \<lparr>fr_flat = fid, fr_index = 0, fr_count = fl_pages fl\<rparr>"

definition flat_is_borrowed :: "flat \<Rightarrow> bool" where
  "flat_is_borrowed fl = (case fl_source fl of Borrowed _ \<Rightarrow> True | Managed _ \<Rightarrow> False)"

definition range_sub :: "flat \<Rightarrow> flat_range \<Rightarrow> nat \<Rightarrow> nat \<Rightarrow> flat_error + flat_range" where
  "range_sub fl r offset count =
     (case checked_add offset count of
        None \<Rightarrow> Inl FOutOfRange
      | Some e \<Rightarrow>
          if e > fr_count r then Inl FOutOfRange
          else case checked_add (fr_index r) offset of
                 None \<Rightarrow> Inl FOutOfRange
               | Some index \<Rightarrow> flat_window (fr_flat r) fl index count)"

definition range_page_at :: "flat_range \<Rightarrow> nat \<Rightarrow> flat_error + nat" where
  "range_page_at r offset =
     (if offset \<ge> fr_count r then Inl FOutOfRange
      else ok_or (checked_add (fr_index r) offset) FOutOfRange)"

definition same_range :: "flat_range \<Rightarrow> flat_range \<Rightarrow> bool" where
  "same_range a b \<longleftrightarrow> fr_flat a = fr_flat b \<and> fr_index a = fr_index b \<and> fr_count a = fr_count b"

section \<open>Residencies\<close>

definition flat_is_pinned :: "flat \<Rightarrow> nat \<Rightarrow> nat \<Rightarrow> bool" where
  "flat_is_pinned fl index count \<longleftrightarrow>
     (\<exists>e \<in> set (fl_residencies fl). re_index e < index + count \<and> index < re_index e + re_count e)"

definition flat_busy :: "flat \<Rightarrow> nat \<Rightarrow> nat \<Rightarrow> bool" where
  "flat_busy fl index count =
     (case fl_source fl of
        Borrowed _ \<Rightarrow> False
      | Managed tab \<Rightarrow> \<exists>s \<in> set (window_slots tab index (index + count)). is_in_flight (snd s))"

definition flat_reside ::
  "(nat \<Rightarrow> bool) \<Rightarrow> nat \<Rightarrow> nat \<Rightarrow> flat \<Rightarrow> (flat_error + nat) \<times> flat" where
  "flat_reside mem index count fl =
     (if flat_busy fl index count then (Inl FBusy, fl)
      else case checked_add (fl_next fl) 1 of
             None \<Rightarrow> (Inl FOutOfMemory, fl)
           | Some nxt \<Rightarrow>
               if \<not> mem 0 then (Inl FOutOfMemory, fl)
               else (Inr (fl_next fl),
                     fl\<lparr>fl_residencies := fl_residencies fl
                          @ [\<lparr>re_id = fl_next fl, re_index = index, re_count = count\<rparr>],
                        fl_next := nxt\<rparr>))"

definition flat_release :: "nat \<Rightarrow> flat \<Rightarrow> flat option" where
  "flat_release i fl =
     (case position (\<lambda>e. re_id e = i) (fl_residencies fl) of
        None \<Rightarrow> None
      | Some at \<Rightarrow> Some (fl\<lparr>fl_residencies := vec_remove at (fl_residencies fl)\<rparr>))"

section \<open>Materialisation\<close>

function materialize_loop ::
  "nat \<Rightarrow> nat \<Rightarrow> nat \<Rightarrow> slot_table \<Rightarrow> nat list \<Rightarrow> (flat_error + unit) \<times> slot_table \<times> nat list" where
  "materialize_loop page end at tab fs =
     (if \<not> page < end then (Inr (), tab, fs)
      else if at < length tab \<and> fst (tab ! at) = page then
        (case snd (tab ! at) of
           SMissing \<Rightarrow> (Inl FMissing, tab, fs)
         | SMoving _ _ \<Rightarrow> (Inl FBusy, tab, fs)
         | SReserved _ _ \<Rightarrow> (Inl FBusy, tab, fs)
         | SResident _ \<Rightarrow> materialize_loop (page + 1) end (at + 1) tab fs)
      else case fs of
             [] \<Rightarrow> (Inl FOutOfMemory, tab, [])
           | f # fs' \<Rightarrow> materialize_loop (page + 1) end (at + 1)
                         (vec_insert at (page, SResident f) tab) fs')"
  by pat_completeness auto
termination
  by (relation "measure (\<lambda>(page, end, _). end - page)") auto

declare materialize_loop.simps [simp del]

definition materialize_range ::
  "nat \<Rightarrow> nat \<Rightarrow> flat \<Rightarrow> nat list \<Rightarrow> (flat_error + unit) \<times> flat \<times> nat list" where
  "materialize_range index count fl fs =
     (case checked_add index count of
        None \<Rightarrow> (Inl FOutOfRange, fl, fs)
      | Some end \<Rightarrow>
          if end > fl_pages fl then (Inl FOutOfRange, fl, fs)
          else case fl_source fl of
                 Borrowed _ \<Rightarrow> (Inr (), fl, fs)
               | Managed tab \<Rightarrow>
                   (case materialize_loop index end
                           (partition_point (\<lambda>s. fst s < index) tab) tab fs of
                      (r, tab', fs') \<Rightarrow> (r, fl\<lparr>fl_source := Managed tab'\<rparr>, fs')))"

text \<open>
  \<open>FlatRange::materialize\<close> takes a residency first; the guard releases it again when
  the materialisation fails.
\<close>

definition range_materialize ::
  "(nat \<Rightarrow> bool) \<Rightarrow> flat_range \<Rightarrow> flat \<Rightarrow> nat list
     \<Rightarrow> ((flat_error + nat) \<times> flat \<times> nat list) option" where
  "range_materialize mem r fl fs =
     (case flat_reside mem (fr_index r) (fr_count r) fl of
        (Inl e, fl') \<Rightarrow> Some (Inl e, fl', fs)
      | (Inr i, fl') \<Rightarrow>
          (case materialize_range (fr_index r) (fr_count r) fl' fs of
             (Inr _, fl'', fs') \<Rightarrow> Some (Inr i, fl'', fs')
           | (Inl e, fl'', fs') \<Rightarrow>
               map_option (\<lambda>fl. (Inl e, fl, fs')) (flat_release i fl'')))"

definition materialized ::
  "(nat \<Rightarrow> bool) \<Rightarrow> nat \<Rightarrow> nat \<Rightarrow> flat \<Rightarrow> flat_error + (nat \<times> nat) list" where
  "materialized mem index count fl =
     (case checked_add index count of
        None \<Rightarrow> Inl FOutOfRange
      | Some end \<Rightarrow>
          if end > fl_pages fl then Inl FOutOfRange
          else case fl_source fl of
                 Borrowed _ \<Rightarrow> Inr []
               | Managed tab \<Rightarrow>
                   if \<not> mem 0 then Inl FOutOfMemory
                   else Inr (List.map_filter (\<lambda>(page, s).
                          case s of SResident f \<Rightarrow> Some (page - index, f) | _ \<Rightarrow> None)
                        (window_slots tab index end)))"

definition fully_step :: "nat \<times> page_slot \<Rightarrow> nat \<Rightarrow> nat" where
  "fully_step s expected =
     (if fst s = expected \<and> (case snd s of SResident _ \<Rightarrow> True | _ \<Rightarrow> False)
      then expected + 1 else expected)"

definition fully_materialized :: "nat \<Rightarrow> nat \<Rightarrow> flat \<Rightarrow> flat_error + bool" where
  "fully_materialized index count fl =
     (case checked_add index count of
        None \<Rightarrow> Inl FOutOfRange
      | Some end \<Rightarrow>
          if end > fl_pages fl then Inl FOutOfRange
          else case fl_source fl of
                 Borrowed _ \<Rightarrow> Inr False
               | Managed tab \<Rightarrow> Inr (fold fully_step (window_slots tab index end) index = end))"

definition can_materialize :: "nat \<Rightarrow> flat \<Rightarrow> flat_error + bool" where
  "can_materialize page fl =
     (if page \<ge> fl_pages fl then Inl FOutOfRange
      else case fl_source fl of
             Borrowed _ \<Rightarrow> Inr True
           | Managed tab \<Rightarrow>
               (case spot tab page of (at, present) \<Rightarrow>
                  if \<not> present then Inr True
                  else Inr (case snd (tab ! at) of SResident _ \<Rightarrow> True | _ \<Rightarrow> False)))"

definition physical_at :: "nat \<Rightarrow> flat \<Rightarrow> flat_error + nat" where
  "physical_at page fl =
     (if page \<ge> fl_pages fl then Inl FOutOfRange
      else case fl_source fl of
             Borrowed rg \<Rightarrow>
               (case checked_mul page PAGE_SIZE of
                  None \<Rightarrow> Inl FOutOfRange
                | Some offset \<Rightarrow> ok_or (checked_add (rg_start rg) offset) FOutOfRange)
           | Managed tab \<Rightarrow>
               (case spot tab page of (at, present) \<Rightarrow>
                  if \<not> present then Inl FOutOfRange
                  else case snd (tab ! at) of
                         SResident f \<Rightarrow> Inr f
                       | SMissing \<Rightarrow> Inl FMissing
                       | SMoving _ _ \<Rightarrow> Inl FBusy
                       | SReserved _ _ \<Rightarrow> Inl FBusy))"

section \<open>Tables ordered by page\<close>

definition table_ok :: "slot_table \<Rightarrow> bool" where
  "table_ok tab \<longleftrightarrow> sorted_wrt (\<lambda>a b. fst a < fst b) tab"

text \<open>Reading, writing and clearing the slot of a page, in terms of \<open>spot\<close>.\<close>

definition tab_put :: "nat \<Rightarrow> page_slot \<Rightarrow> slot_table \<Rightarrow> slot_table" where
  "tab_put page s tab =
     (case spot tab page of (at, present) \<Rightarrow>
        if present then tab[at := (page, s)] else vec_insert at (page, s) tab)"

definition tab_del :: "nat \<Rightarrow> slot_table \<Rightarrow> slot_table" where
  "tab_del page tab = (case spot tab page of (at, present) \<Rightarrow> if present then vec_remove at tab else tab)"

lemma table_ok_simps [simp]:
  "table_ok []"
  "table_ok (x # xs) \<longleftrightarrow> (\<forall>y \<in> set xs. fst x < fst y) \<and> table_ok xs"
  "table_ok (xs @ ys) \<longleftrightarrow> table_ok xs \<and> table_ok ys \<and> (\<forall>x \<in> set xs. \<forall>y \<in> set ys. fst x < fst y)"
  by (auto simp: table_ok_def sorted_wrt_append)

lemma map_of_below: "\<forall>y \<in> set ys. fst y < (p :: nat) \<Longrightarrow> map_of ys p = None"
  by (induction ys) auto

lemma map_of_above: "\<forall>y \<in> set ys. (p :: nat) < fst y \<Longrightarrow> map_of ys p = None"
  by (induction ys) auto

lemma spot_cases:
  assumes "table_ok tab"
  obtains (present) ys s zs where "tab = ys @ (page, s) # zs" and "spot tab page = (length ys, True)"
      and "\<forall>y \<in> set ys. fst y < page" and "\<forall>z \<in> set zs. page < fst z"
    | (absent) ys zs where "tab = ys @ zs" and "spot tab page = (length ys, False)"
      and "\<forall>y \<in> set ys. fst y < page" and "\<forall>z \<in> set zs. page < fst z"
proof -
  obtain ys zs where xs: "tab = ys @ zs"
    and len: "length ys = partition_point (\<lambda>s. fst s < page) tab"
    and lo: "\<forall>y \<in> set ys. fst y < page" and hi: "zs = [] \<or> \<not> fst (hd zs) < page"
    by (rule partition_point_split [of tab "\<lambda>s. fst s < page"]) auto
  have sp: "spot tab page = (length ys, zs \<noteq> [] \<and> fst (hd zs) = page)"
    unfolding spot_def Let_def len [symmetric] by (cases zs) (auto simp: xs)
  show thesis
  proof (cases "zs \<noteq> [] \<and> fst (hd zs) = page")
    case True
    then obtain s zs' where "zs = (page, s) # zs'" by (cases zs) auto
    with True xs sp lo assms show thesis by (intro present [of ys s zs']) auto
  next
    case False
    have "page < fst z" if "z \<in> set zs" for z
    proof (cases zs)
      case (Cons h t)
      with False hi have "page < fst h" by auto
      with Cons assms that show ?thesis by (auto simp: xs)
    qed (use that in simp)
    with False xs sp lo show thesis by (intro absent [of ys zs]) auto
  qed
qed

lemma spot_map_of:
  assumes "table_ok tab" and "spot tab page = (at, present)"
  shows "map_of tab page = (if present then Some (snd (tab ! at)) else None)"
    and "present \<Longrightarrow> at < length tab \<and> fst (tab ! at) = page"
  by (rule spot_cases [OF assms(1), of page];
      use assms(2) in \<open>auto simp: map_add_def map_of_below map_of_above\<close>)+

lemma tab_put_ok:
  assumes "table_ok tab"
  shows "table_ok (tab_put page s tab)" and "map_of (tab_put page s tab) = (map_of tab)(page \<mapsto> s)"
  by (rule spot_cases [OF assms, of page];
      use assms in \<open>auto simp: tab_put_def vec_insert_split list_update_append map_add_def
        map_of_below map_of_above fun_eq_iff split: option.splits\<close>)+

lemma tab_del_ok:
  assumes "table_ok tab"
  shows "table_ok (tab_del page tab)" and "map_of (tab_del page tab) = (map_of tab)(page := None)"
  by (rule spot_cases [OF assms, of page];
      use assms in \<open>auto simp: tab_del_def vec_remove_split map_add_def
        map_of_below map_of_above fun_eq_iff split: option.splits\<close>)+

lemma table_ext: "table_ok xs \<Longrightarrow> table_ok ys \<Longrightarrow> map_of xs = map_of ys \<Longrightarrow> xs = ys"
proof (induction xs arbitrary: ys)
  case Nil
  then show ?case by (cases ys) (auto simp: fun_eq_iff split: if_splits)
next
  case (Cons x xs)
  obtain p s where x: "x = (p, s)" by fastforce
  have above: "map_of xs p = None" using Cons.prems(1) by (auto simp: x intro: map_of_above)
  have eq: "map_of ys q = ((map_of xs)(p \<mapsto> s)) q" for q
    using Cons.prems(3) by (simp flip: Cons.prems(3) add: x)
  obtain q t ys' where ys: "ys = (q, t) # ys'"
    using eq [of p] by (cases ys) auto
  have below: "map_of ys' q = None" using Cons.prems(2) by (auto simp: ys intro: map_of_above)
  have "p = q"
  proof (rule ccontr)
    assume ne: "p \<noteq> q"
    with eq [of p] eq [of q] have "map_of ys' p = Some s" "map_of xs q = Some t" by (auto simp: ys)
    then have "(p, s) \<in> set ys'" "(q, t) \<in> set xs" by (auto dest: map_of_SomeD)
    with Cons.prems(1,2) show False by (fastforce simp: x ys)
  qed
  with eq [of p] have "t = s" by (simp add: ys)
  have "map_of xs r = map_of ys' r" for r
    using eq [of r] above below \<open>p = q\<close> by (auto simp: ys split: if_splits)
  with Cons x ys \<open>p = q\<close> \<open>t = s\<close> show ?case by (auto simp: fun_eq_iff)
qed

section \<open>The interface of a page table\<close>

text \<open>
  What the transfer protocol relies on: a lookup, a write, a clear, and that a table is
  determined by its lookups. Writing a slot and undoing the write gives back the very
  same table.
\<close>

locale page_map =
  fixes ok :: "'t \<Rightarrow> bool" and look :: "'t \<Rightarrow> nat \<Rightarrow> 's option"
    and put :: "nat \<Rightarrow> 's \<Rightarrow> 't \<Rightarrow> 't" and del :: "nat \<Rightarrow> 't \<Rightarrow> 't"
  assumes put_good: "ok t \<Longrightarrow> ok (put p s t)" and del_good: "ok t \<Longrightarrow> ok (del p t)"
    and look_put: "ok t \<Longrightarrow> look (put p s t) = (look t)(p \<mapsto> s)"
    and look_del: "ok t \<Longrightarrow> look (del p t) = (look t)(p := None)"
    and ext: "ok t \<Longrightarrow> ok u \<Longrightarrow> look t = look u \<Longrightarrow> t = u"
begin

lemma put_back: "ok t \<Longrightarrow> look t p = Some s \<Longrightarrow> put p s (put p s' t) = t"
  by (rule ext) (auto simp: put_good look_put fun_eq_iff)

lemma del_back: "ok t \<Longrightarrow> look t p = None \<Longrightarrow> del p (put p s t) = t"
  by (rule ext) (auto simp: put_good del_good look_put look_del fun_eq_iff)

lemma put_swap: "ok t \<Longrightarrow> p \<noteq> q \<Longrightarrow> put p s (put q s' t) = put q s' (put p s t)"
  by (rule ext) (auto simp: put_good look_put fun_eq_iff)

lemma put_del_swap: "ok t \<Longrightarrow> p \<noteq> q \<Longrightarrow> put p s (del q t) = del q (put p s t)"
  by (rule ext) (auto simp: put_good del_good look_put look_del fun_eq_iff)

end

interpretation slot_map: page_map table_ok map_of tab_put tab_del
  by unfold_locales (auto simp: tab_put_ok tab_del_ok intro: table_ext)

section \<open>Materialisation fills fresh pages only\<close>

text \<open>The reference: fill the pages of a map in ascending order.\<close>

fun fill ::
  "nat list \<Rightarrow> (nat \<rightharpoonup> page_slot) \<Rightarrow> nat list \<Rightarrow> (flat_error + unit) \<times> (nat \<rightharpoonup> page_slot) \<times> nat list" where
  "fill [] m fs = (Inr (), m, fs)"
| "fill (p # ps) m fs =
     (case m p of
        Some SMissing \<Rightarrow> (Inl FMissing, m, fs)
      | Some (SMoving _ _) \<Rightarrow> (Inl FBusy, m, fs)
      | Some (SReserved _ _) \<Rightarrow> (Inl FBusy, m, fs)
      | Some (SResident _) \<Rightarrow> fill ps m fs
      | None \<Rightarrow> (case fs of [] \<Rightarrow> (Inl FOutOfMemory, m, [])
                         | f # fs' \<Rightarrow> fill ps (m(p \<mapsto> SResident f)) fs'))"

lemma spot_fst: "fst (spot tab page) = partition_point (\<lambda>s. fst s < page) tab"
  by (simp add: spot_def Let_def)

lemma next_spot:
  "\<forall>y \<in> set ys. fst y < (page :: nat) \<Longrightarrow> \<forall>z \<in> set zs. page < fst z \<Longrightarrow>
     partition_point (\<lambda>s. fst s < page + 1) (ys @ (page, s) # zs) = length ys + 1"
  using partition_point_append [of "ys @ [(page, s)]" "\<lambda>s. fst s < page + 1" zs]
  by (cases zs) (auto simp: less_Suc_eq)

lemma materialize_loop_fill:
  assumes "table_ok tab"
  shows "case materialize_loop page end (partition_point (\<lambda>s. fst s < page) tab) tab fs of
           (r, tab', fs') \<Rightarrow> table_ok tab' \<and> (r, map_of tab', fs') = fill [page ..< end] (map_of tab) fs"
  using assms
proof (induction "end - page" arbitrary: page tab fs)
  case 0
  then show ?case by (simp add: materialize_loop.simps)
next
  case (Suc n)
  then have lt: "page < end" and n: "n = end - (page + 1)" by auto
  have upt: "[page ..< end] = page # [page + 1 ..< end]" using lt by (simp add: upt_conv_Cons)
  from Suc.prems show ?case
  proof (cases rule: spot_cases [of tab page])
    case (present ys s zs)
    have at: "partition_point (\<lambda>s. fst s < page) tab = length ys"
      using present(2) spot_fst [of tab page] by simp
    have m: "map_of tab page = Some s"
      using spot_map_of(1) [OF Suc.prems present(2)] present(1) by simp
    have hd: "length ys < length tab" "fst (tab ! length ys) = page" "snd (tab ! length ys) = s"
      by (simp_all add: present(1))
    have nx: "partition_point (\<lambda>s. fst s < page + 1) tab = length ys + 1"
      using next_spot [OF present(3,4)] by (simp add: present(1))
    show ?thesis
    proof (cases s)
      case (SResident f)
      have "materialize_loop page end (length ys) tab fs
          = materialize_loop (page + 1) end (partition_point (\<lambda>s. fst s < page + 1) tab) tab fs"
        unfolding nx using lt hd SResident by (subst materialize_loop.simps) simp
      with Suc.hyps(1) [OF n Suc.prems] m SResident show ?thesis
        unfolding at upt by simp
    qed (use lt hd m Suc.prems in \<open>simp_all add: at upt materialize_loop.simps\<close>)
  next
    case (absent ys zs)
    have at: "partition_point (\<lambda>s. fst s < page) tab = length ys"
      using absent(2) spot_fst [of tab page] by simp
    have m: "map_of tab page = None" using spot_map_of(1) [OF Suc.prems absent(2)] by simp
    have np: "\<not> (length ys < length tab \<and> fst (tab ! length ys) = page)"
      using absent(2) at by (simp add: spot_def Let_def)
    show ?thesis
    proof (cases fs)
      case Nil
      with lt np have "materialize_loop page end (length ys) tab fs = (Inl FOutOfMemory, tab, [])"
        by (subst materialize_loop.simps) auto
      with Nil m Suc.prems show ?thesis by (simp add: at upt)
    next
      case (Cons f fs')
      let ?tab = "tab_put page (SResident f) tab"
      have put: "?tab = vec_insert (length ys) (page, SResident f) tab"
        by (simp add: tab_put_def absent(2))
      then have "?tab = ys @ (page, SResident f) # zs" by (simp add: absent(1) vec_insert_split)
      then have nx: "partition_point (\<lambda>s. fst s < page + 1) ?tab = length ys + 1"
        using next_spot [OF absent(3,4)] by simp
      have "materialize_loop page end (length ys) tab fs
          = materialize_loop (page + 1) end (partition_point (\<lambda>s. fst s < page + 1) ?tab) ?tab fs'"
        unfolding nx unfolding put using lt np Cons by (subst materialize_loop.simps) auto
      with Suc.hyps(1) [OF n tab_put_ok(1) [OF Suc.prems]] m Cons show ?thesis
        unfolding at upt by (simp add: tab_put_ok(2) [OF Suc.prems])
    qed
  qed
qed

lemma fill_keeps: "fill ps m fs = (r, m', fs') \<Longrightarrow> m \<subseteq>\<^sub>m m'"
proof (induction ps arbitrary: m fs)
  case (Cons p ps)
  show ?case
  proof (cases "m p")
    case None
    show ?thesis
    proof (cases fs)
      case f: (Cons f fs'')
      then have "fill ps (m(p \<mapsto> SResident f)) fs'' = (r, m', fs')" using Cons.prems None by simp
      from Cons.IH [OF this] have "m(p \<mapsto> SResident f) \<subseteq>\<^sub>m m'" .
      moreover have "m \<subseteq>\<^sub>m m(p \<mapsto> SResident f)" using None by (auto simp: map_le_def)
      ultimately show ?thesis by (rule map_le_trans [rotated])
    qed (use Cons.prems None in simp)
  next
    case (Some s)
    with Cons show ?thesis by (cases s) auto
  qed
qed simp

lemma fill_adds:
  "fill ps m fs = (r, m', fs') \<Longrightarrow> m p = None \<Longrightarrow> m' p = Some s \<Longrightarrow>
     p \<in> set ps \<and> (\<exists>f \<in> set fs. s = SResident f)"
proof (induction ps arbitrary: m fs)
  case (Cons q ps)
  show ?case
  proof (cases "m q")
    case None
    show ?thesis
    proof (cases fs)
      case f: (Cons f fs'')
      then have r: "fill ps (m(q \<mapsto> SResident f)) fs'' = (r, m', fs')"
        using Cons.prems(1) None by simp
      have "m' q = Some (SResident f)" using fill_keeps [OF r] by (auto simp: map_le_def)
      with Cons.IH [OF r] Cons.prems(2,3) f show ?thesis by (cases "p = q") auto
    qed (use Cons.prems None in auto)
  next
    case (Some s)
    with Cons show ?thesis by (cases s) auto
  qed
qed simp

lemma fill_success:
  "fill ps m fs = (Inr (), m', fs') \<Longrightarrow> p \<in> set ps \<Longrightarrow> \<exists>f. m' p = Some (SResident f)"
proof (induction ps arbitrary: m fs)
  case (Cons q ps)
  obtain f m1 fs1 where r: "fill ps m1 fs1 = (Inr (), m', fs')" and q: "m1 q = Some (SResident f)"
  proof (cases "m q")
    case None
    with Cons.prems(1) show thesis by (cases fs) (auto intro: that)
  next
    case (Some s)
    with Cons.prems(1) show thesis by (cases s) (auto intro: that)
  qed
  have "m' q = Some (SResident f)" using fill_keeps [OF r] q by (force simp: map_le_def dom_def)
  with Cons.IH [OF r] Cons.prems(2) show ?case by auto
qed simp

lemma fill_error:
  "fill ps m fs = (Inl e, m', fs') \<Longrightarrow> distinct ps \<Longrightarrow>
     e = FMissing \<and> (\<exists>p \<in> set ps. m p = Some SMissing)
   \<or> e = FBusy \<and> (\<exists>p \<in> set ps. \<exists>s. m p = Some s \<and> is_in_flight s)
   \<or> e = FOutOfMemory \<and> fs' = []"
proof (induction ps arbitrary: m fs)
  case (Cons q ps)
  show ?case
  proof (cases "m q")
    case None
    show ?thesis
    proof (cases fs)
      case f: (Cons f fs'')
      then have r: "fill ps (m(q \<mapsto> SResident f)) fs'' = (Inl e, m', fs')"
        using Cons.prems(1) None by simp
      have "(m(q \<mapsto> SResident f)) p = m p" if "p \<in> set ps" for p
        using that Cons.prems(2) by auto
      with Cons.IH [OF r] Cons.prems(2) show ?thesis by auto
    qed (use Cons.prems None in auto)
  next
    case (Some s)
    with Cons show ?thesis by (cases s) auto
  qed
qed simp


section \<open>Windows of a table\<close>

lemma window_filter:
  assumes "table_ok tab" and "a \<le> b"
  shows "window_slots tab a b = filter (\<lambda>s. a \<le> fst s \<and> fst s < b) tab"
proof -
  have "takeWhile (\<lambda>s. fst s < b) xs = takeWhile (\<lambda>s. fst s < a) xs
      @ takeWhile (\<lambda>s. fst s < b) (dropWhile (\<lambda>s. fst s < a) xs)" for xs :: slot_table
    using assms(2) by (induction xs) auto
  then have "length (takeWhile (\<lambda>s. fst s < b) tab) - length (takeWhile (\<lambda>s. fst s < a) tab)
      = length (takeWhile (\<lambda>s. fst s < b) (dropWhile (\<lambda>s. fst s < a) tab))"
    by (metis add_diff_cancel_left' length_append)
  then have "window_slots tab a b = takeWhile (\<lambda>s. fst s < b) (dropWhile (\<lambda>s. fst s < a) tab)"
    unfolding window_slots_def Let_def partition_point_def
    by (simp only: dropWhile_eq_drop [symmetric] takeWhile_eq_take [symmetric])
  also have "\<dots> = filter (\<lambda>s. a \<le> fst s \<and> fst s < b) tab"
    using assms(1)
  proof (induction tab)
    case (Cons x xs)
    have none: "filter (\<lambda>s. a \<le> fst s \<and> fst s < b) xs = []" if "\<not> fst x < b"
      using that Cons.prems by (fastforce simp: filter_empty_conv)
    have all: "dropWhile (\<lambda>s. fst s < a) xs = xs" if "\<not> fst x < a"
      using that Cons.prems by (cases xs) auto
    show ?case using Cons none all by auto
  qed simp
  finally show ?thesis .
qed

lemma map_of_window:
  "map_of (filter (\<lambda>s. a \<le> fst s \<and> fst s < b) tab) p = (if a \<le> p \<and> p < b then map_of tab p else None)"
  by (induction tab) auto

lemma table_ok_filter: "table_ok tab \<Longrightarrow> table_ok (filter P tab)"
  by (induction tab) auto

definition resident :: "slot_table \<Rightarrow> nat \<Rightarrow> bool" where
  "resident tab p \<longleftrightarrow> (\<exists>f. map_of tab p = Some (SResident f))"

lemma fully_step_count:
  assumes "table_ok w" and "\<forall>s \<in> set w. k \<le> fst s"
  shows "k \<le> fold fully_step w k \<and> (\<forall>p. k \<le> p \<and> p < fold fully_step w k \<longrightarrow> resident w p)
    \<and> \<not> resident w (fold fully_step w k)"
  using assms
proof (induction w arbitrary: k)
  case (Cons x w)
  obtain p s where x: "x = (p, s)" by fastforce
  have above: "map_of w q = None" if "q \<le> p" for q
    using Cons.prems(1) that by (intro map_of_above) (fastforce simp: x)
  show ?case
  proof (cases "p = k \<and> (\<exists>f. s = SResident f)")
    case True
    then have step: "fully_step x k = k + 1" by (auto simp: fully_step_def x)
    have "\<forall>s \<in> set w. k + 1 \<le> fst s" using Cons.prems True by (fastforce simp: x)
    with Cons.IH [of "k + 1"] Cons.prems(1)
    have IH: "k + 1 \<le> fold fully_step w (k + 1)"
      "\<forall>p. k + 1 \<le> p \<and> p < fold fully_step w (k + 1) \<longrightarrow> resident w p"
      "\<not> resident w (fold fully_step w (k + 1))" by auto
    have "resident (x # w) q \<longleftrightarrow> q = k \<or> resident w q" for q
      using True by (auto simp: resident_def x)
    moreover have "q = k \<or> k + 1 \<le> q" if "k \<le> q" for q :: nat using that by auto
    ultimately show ?thesis using IH step by (auto simp: not_less_eq_eq)
  next
    case False
    then have step: "fully_step x k = k" by (auto simp: fully_step_def x split: page_slot.splits)
    have ge: "\<forall>s \<in> set w. k \<le> fst s" using Cons.prems(2) by simp
    show ?thesis
    proof (cases "p = k")
      case True
      then have stay: "fold fully_step w k = k"
      proof -
        have "k < fst y" if "y \<in> set w" for y using Cons.prems(1) that True by (auto simp: x)
        then show ?thesis by (induction w) (auto simp: fully_step_def)
      qed
      with False True step show ?thesis by (auto simp: resident_def x)
    next
      case ne: False
      with Cons.prems(2) have "k < p" by (auto simp: x)
      then have "fold fully_step w k = k"
      proof -
        have "k < fst y" if "y \<in> set w" for y using Cons.prems(1) that \<open>k < p\<close> by (fastforce simp: x)
        then show ?thesis by (induction w) (auto simp: fully_step_def)
      qed
      with step above [of k] \<open>k < p\<close> show ?thesis by (auto simp: resident_def x)
    qed
  qed
qed (simp add: resident_def)

text \<open>
  C22: the read-only test for a complete window answers yes exactly when every page of
  the window is resident; a tombstone, a page in flight or a page never materialised
  makes it answer no, and a window outside the source is an error.
\<close>

theorem fully_materialized_iff:
  assumes "fl_source fl = Managed tab" and "table_ok tab"
  shows "fully_materialized index count fl =
    (if index + count < USIZE \<and> index + count \<le> fl_pages fl
     then Inr (\<forall>p. index \<le> p \<and> p < index + count \<longrightarrow> resident tab p)
     else Inl FOutOfRange)"
proof (cases "index + count < USIZE \<and> index + count \<le> fl_pages fl")
  case True
  let ?w = "filter (\<lambda>s. index \<le> fst s \<and> fst s < index + count) tab"
  let ?r = "fold fully_step ?w index"
  have cc: "index \<le> ?r \<and> (\<forall>p. index \<le> p \<and> p < ?r \<longrightarrow> resident ?w p) \<and> \<not> resident ?w ?r"
    by (rule fully_step_count [OF table_ok_filter [OF assms(2)]]) simp
  have c: "index \<le> ?r" "\<And>p. index \<le> p \<Longrightarrow> p < ?r \<Longrightarrow> resident ?w p" "\<not> resident ?w ?r"
    using cc by blast+
  have w: "resident ?w p \<longleftrightarrow> index \<le> p \<and> p < index + count \<and> resident tab p" for p
    unfolding resident_def map_of_window by (cases "index \<le> p \<and> p < index + count") auto
  have "?r = index + count \<longleftrightarrow> (\<forall>p. index \<le> p \<and> p < index + count \<longrightarrow> resident tab p)"
  proof
    assume "?r = index + count"
    then have "resident ?w p" if "index \<le> p" "p < index + count" for p using c(2) that by simp
    then show "\<forall>p. index \<le> p \<and> p < index + count \<longrightarrow> resident tab p" unfolding w by blast
  next
    assume all: "\<forall>p. index \<le> p \<and> p < index + count \<longrightarrow> resident tab p"
    have "\<not> ?r < index + count" using c(1,3) w [of ?r] all by blast
    moreover have "\<not> index + count < ?r" using c(2) [of "index + count"] w [of "index + count"]
      by (meson le_add1 less_irrefl)
    ultimately show "?r = index + count" by (meson nat_neq_iff)
  qed
  moreover have "fully_materialized index count fl = Inr (?r = index + count)"
    using True assms window_filter [OF assms(2), of index "index + count"]
    by (simp add: fully_materialized_def checked_add_def)
  ultimately show ?thesis using True by (simp only: if_True simp_thms)
qed (auto simp: fully_materialized_def checked_add_def)

section \<open>Holding a materialised range\<close>

lemma materialize_range_fields:
  "materialize_range index count fl fs = (r, fl', fs') \<Longrightarrow>
     fl_residencies fl' = fl_residencies fl \<and> fl_pages fl' = fl_pages fl \<and> fl_next fl' = fl_next fl
     \<and> fl_transferable fl' = fl_transferable fl"
  by (auto simp: materialize_range_def split: option.splits if_splits flat_source.splits prod.splits)

definition residencies_ok :: "flat \<Rightarrow> bool" where
  "residencies_ok fl \<longleftrightarrow> (\<forall>e \<in> set (fl_residencies fl). re_id e < fl_next fl)"

text \<open>A managed source with pages 0 and 3 resident and page 2 moved away, used by the instances below.\<close>

definition sample_flat :: flat where
  "sample_flat = \<lparr>fl_pages = 8, fl_source = Managed [(0, SResident 40), (2, SMissing), (3, SResident 43)],
     fl_residencies = [], fl_next = 5, fl_transferable = True\<rparr>"

lemma sample_table: "fl_source sample_flat = Managed [(0, SResident 40), (2, SMissing), (3, SResident 43)]"
  and sample_table_ok: "table_ok [(0, SResident 40), (2, SMissing), (3, SResident 43)]"
  by (simp_all add: sample_flat_def)

lemma release_last:
  assumes "\<forall>e \<in> set es. re_id e \<noteq> re_id x" and "fl_residencies fl = es @ [x]"
  shows "flat_release (re_id x) fl = Some (fl\<lparr>fl_residencies := es\<rparr>)"
proof -
  have "position (\<lambda>e. re_id e = re_id x) (es @ [x]) = Some (length es)"
    using assms(1) by (induction es) auto
  then show ?thesis using vec_remove_split [of es x "[]"] assms(2) by (simp add: flat_release_def)
qed

lemma flat_reside_fresh:
  assumes "residencies_ok fl" and "flat_reside mem index count fl = (Inr i, fl')"
  shows "i = fl_next fl \<and> (\<forall>e \<in> set (fl_residencies fl). re_id e \<noteq> i) \<and> fl_source fl' = fl_source fl
    \<and> fl_residencies fl' = fl_residencies fl @ [\<lparr>re_id = i, re_index = index, re_count = count\<rparr>]
    \<and> fl_next fl' = fl_next fl + 1"
  using assms
  by (auto simp: flat_reside_def residencies_ok_def checked_add_def split: if_splits option.splits)

lemma flat_reside_error:
  "flat_reside mem index count fl = (Inl e, fl') \<Longrightarrow> fl' = fl"
  by (auto simp: flat_reside_def split: if_splits option.splits)

text \<open>
  C21: asking a range for its pages never panics: either it fails and leaves the list
  of residencies exactly as it was, or it returns a fresh residency that is appended
  to the list and pins every page of the range; identities stay below the counter.
\<close>

theorem range_materialize_total:
  assumes "residencies_ok fl"
  shows "\<exists>res fl' fs'. range_materialize mem r fl fs = Some (res, fl', fs') \<and> residencies_ok fl'
    \<and> (\<forall>e. res = Inl e \<longrightarrow> fl_residencies fl' = fl_residencies fl)
    \<and> (\<forall>i. res = Inr i \<longrightarrow> i = fl_next fl
        \<and> fl_residencies fl' = fl_residencies fl
            @ [\<lparr>re_id = i, re_index = fr_index r, re_count = fr_count r\<rparr>]
        \<and> (\<forall>p. fr_index r \<le> p \<and> p < fr_index r + fr_count r \<longrightarrow> flat_is_pinned fl' p 1))"
proof -
  obtain a fl1 where a: "flat_reside mem (fr_index r) (fr_count r) fl = (a, fl1)" by fastforce
  show ?thesis
  proof (cases a)
    case (Inl e)
    with a flat_reside_error have "fl1 = fl" by blast
    with a Inl assms show ?thesis by (auto simp: range_materialize_def)
  next
    case (Inr i)
    let ?x = "\<lparr>re_id = i, re_index = fr_index r, re_count = fr_count r\<rparr>"
    have f: "i = fl_next fl" "\<forall>e \<in> set (fl_residencies fl). re_id e \<noteq> i"
      "fl_residencies fl1 = fl_residencies fl @ [?x]" "fl_next fl1 = fl_next fl + 1"
      using flat_reside_fresh [OF assms] a Inr by auto
    obtain b fl2 fs2 where b: "materialize_range (fr_index r) (fr_count r) fl1 fs = (b, fl2, fs2)"
      by (cases "materialize_range (fr_index r) (fr_count r) fl1 fs") auto
    note g = materialize_range_fields [OF b]
    have rel: "flat_release i fl2 = Some (fl2\<lparr>fl_residencies := fl_residencies fl\<rparr>)"
      using release_last [of "fl_residencies fl" ?x fl2] f g by simp
    have ok: "\<forall>e \<in> set (fl_residencies fl). re_id e < fl_next fl2"
      using assms f g by (auto simp: residencies_ok_def)
    have pin: "flat_is_pinned fl2 p 1" if "fr_index r \<le> p \<and> p < fr_index r + fr_count r" for p
      using that f g by (auto simp: flat_is_pinned_def)
    show ?thesis
      using a b Inr rel ok f g pin
      by (cases b) (auto simp: range_materialize_def residencies_ok_def)
  qed
qed

section \<open>Instances\<close>


theorem fully_materialized_iff_witness:
  "fully_materialized 3 1 sample_flat = Inr True \<and> fully_materialized 2 2 sample_flat = Inr False
     \<and> fully_materialized 5 4 sample_flat = Inl FOutOfRange"
proof -
  let ?t = "[(0, SResident 40), (2, SMissing), (3, SResident 43)]"
  have r1: "(\<forall>p. 3 \<le> p \<and> p < 3 + (1::nat) \<longrightarrow> resident ?t p) \<longleftrightarrow> True"
    using le_antisym by (fastforce simp: resident_def)
  have "\<not> resident ?t 2" by (simp add: resident_def)
  then have r2: "(\<forall>p. 2 \<le> p \<and> p < 2 + (2::nat) \<longrightarrow> resident ?t p) \<longleftrightarrow> False" by force
  show ?thesis
    unfolding fully_materialized_iff [OF sample_table sample_table_ok] r1 r2
    by (simp add: USIZE_def sample_flat_def)
qed

theorem range_materialize_total_witness:
  "residencies_ok sample_flat \<and>
   (\<exists>res fl' fs'. range_materialize (\<lambda>_. True) \<lparr>fr_flat = 7, fr_index = 0, fr_count = 4\<rparr> sample_flat [50]
      = Some (res, fl', fs') \<and> residencies_ok fl')"
proof -
  have "residencies_ok sample_flat" by (simp add: residencies_ok_def sample_flat_def)
  then show ?thesis
    using range_materialize_total [of sample_flat "\<lambda>_. True" "\<lparr>fr_flat = 7, fr_index = 0, fr_count = 4\<rparr>" "[50]"]
    by blast
qed

end
