(* ===== verification/Transaction.thy ===== *)
theory Transaction
  imports Flat
begin

text \<open>
  Handing one page of a source over to another (\<open>kernel/src/core/memory/flat/transaction.rs\<close>
  and the errors of \<open>kernel/src/core/memory/transfer/\<close>). A transaction claims the slot it
  takes from and the slot it gives to, and later either commits or is dropped, which
  rolls both slots back.

  Sources are shared and the two ends may be the same one, so they live in a store from
  identities to sources. Custody words and the counter of transactions are part of the
  state. The closure \<open>prepare\<close> that a claim runs is represented by its result; it does
  not touch sources. A failing assertion is the result \<open>None\<close>.
\<close>

section \<open>Data\<close>

datatype transfer_error = TOutOfMemory | TOutOfRange | TSourceEmpty | TDestinationOccupied | TNotTransferable | TBusy

record world =
  w_flat :: "nat \<Rightarrow> flat"
  w_custody :: custodies
  w_next :: nat

record transaction =
  tx_source :: nat
  tx_source_page :: nat
  tx_target :: nat
  tx_target_page :: nat
  tx_id :: nat
  tx_committed :: bool

definition put_flat :: "nat \<Rightarrow> flat \<Rightarrow> world \<Rightarrow> world" where
  "put_flat i fl w = w\<lparr>w_flat := (w_flat w)(i := fl)\<rparr>"

definition put_slot :: "nat \<Rightarrow> nat \<Rightarrow> page_slot \<Rightarrow> slot_table \<Rightarrow> flat \<Rightarrow> flat" where
  "put_slot at page s tab fl = fl\<lparr>fl_source := Managed (tab[at := (page, s)])\<rparr>"

section \<open>Checks\<close>

definition owns :: "flat_range \<Rightarrow> nat \<Rightarrow> bool" where
  "owns r page \<longleftrightarrow> page \<ge> fr_index r \<and> page - fr_index r < fr_count r"

definition next_transaction :: "world \<Rightarrow> transfer_error + nat \<times> world" where
  "next_transaction w =
     (case next_id (w_next w) of
        None \<Rightarrow> Inl TOutOfMemory
      | Some i \<Rightarrow> Inr (i, w\<lparr>w_next := i + 1\<rparr>))"

definition plain_origin :: "flat \<Rightarrow> transfer_error + unit" where
  "plain_origin fl = (if \<not> fl_transferable fl then Inl TNotTransferable else Inr ())"

definition pinned :: "flat \<Rightarrow> nat \<Rightarrow> bool" where
  "pinned fl page = flat_is_pinned fl page 1"

definition source_ready :: "flat \<Rightarrow> nat \<Rightarrow> transfer_error + unit" where
  "source_ready fl page =
     rbind (plain_origin fl) (\<lambda>_.
       if pinned fl page then Inl TBusy
       else case fl_source fl of
              Borrowed _ \<Rightarrow> Inl TNotTransferable
            | Managed tab \<Rightarrow>
                (case spot tab page of (at, present) \<Rightarrow>
                   if \<not> present then Inl TSourceEmpty
                   else case snd (tab ! at) of
                          SResident _ \<Rightarrow> Inr ()
                        | SMissing \<Rightarrow> Inl TSourceEmpty
                        | SMoving _ _ \<Rightarrow> Inl TBusy
                        | SReserved _ _ \<Rightarrow> Inl TBusy))"

definition target_ready :: "flat \<Rightarrow> nat \<Rightarrow> transfer_error + bool" where
  "target_ready fl page =
     rbind (plain_origin fl) (\<lambda>_.
       if pinned fl page then Inl TBusy
       else case fl_source fl of
              Borrowed _ \<Rightarrow> Inl TNotTransferable
            | Managed tab \<Rightarrow>
                (case spot tab page of (at, present) \<Rightarrow>
                   if \<not> present then Inr False
                   else case snd (tab ! at) of
                          SResident _ \<Rightarrow> Inl TDestinationOccupied
                        | SMissing \<Rightarrow> Inr True
                        | SMoving _ _ \<Rightarrow> Inl TBusy
                        | SReserved _ _ \<Rightarrow> Inl TBusy))"

definition reserve_room :: "(nat \<Rightarrow> bool) \<Rightarrow> flat \<Rightarrow> nat \<Rightarrow> transfer_error + unit" where
  "reserve_room mem fl page =
     (case fl_source fl of
        Borrowed _ \<Rightarrow> Inl TNotTransferable
      | Managed tab \<Rightarrow>
          (case spot tab page of (at, present) \<Rightarrow>
             if present then Inr () else if mem 0 then Inr () else Inl TOutOfMemory))"

section \<open>Taking the slots\<close>

definition claim_source ::
  "flat \<Rightarrow> nat \<Rightarrow> nat \<Rightarrow> custodies \<Rightarrow> (transfer_error + flat \<times> custodies) option" where
  "claim_source fl page i c =
     (case fl_source fl of
        Borrowed _ \<Rightarrow> None
      | Managed tab \<Rightarrow>
          (case spot tab page of (at, present) \<Rightarrow>
             if \<not> present then None
             else case snd (tab ! at) of
                    SResident frame \<Rightarrow>
                      (case custody_enter frame c of
                         (False, c') \<Rightarrow> Some (Inl (if c' frame = Aliased then TNotTransferable else TBusy))
                       | (True, c') \<Rightarrow> Some (Inr (put_slot at page (SMoving frame i) tab fl, c')))
                  | _ \<Rightarrow> None))"

definition claim_target :: "flat \<Rightarrow> nat \<Rightarrow> nat \<Rightarrow> bool \<Rightarrow> flat option" where
  "claim_target fl page i was_missing =
     (case fl_source fl of
        Borrowed _ \<Rightarrow> None
      | Managed tab \<Rightarrow>
          (case spot tab page of (at, present) \<Rightarrow>
             if present then
               if was_missing \<and> snd (tab ! at) = SMissing
               then Some (put_slot at page (SReserved i was_missing) tab fl) else None
             else if was_missing then None
             else Some (fl\<lparr>fl_source := Managed (vec_insert at (page, SReserved i False) tab)\<rparr>)))"

section \<open>Finishing\<close>

definition settle_source :: "flat \<Rightarrow> nat \<Rightarrow> nat \<Rightarrow> (nat \<times> flat) option" where
  "settle_source fl page i =
     (case fl_source fl of
        Borrowed _ \<Rightarrow> None
      | Managed tab \<Rightarrow>
          (case spot tab page of (at, present) \<Rightarrow>
             if \<not> present then None
             else case snd (tab ! at) of
                    SMoving frame t \<Rightarrow>
                      if t = i then Some (frame, put_slot at page SMissing tab fl) else None
                  | _ \<Rightarrow> None))"

definition settle_target :: "flat \<Rightarrow> nat \<Rightarrow> nat \<Rightarrow> nat \<Rightarrow> custodies \<Rightarrow> (flat \<times> custodies) option" where
  "settle_target fl page i frame c =
     (case fl_source fl of
        Borrowed _ \<Rightarrow> None
      | Managed tab \<Rightarrow>
          (case spot tab page of (at, present) \<Rightarrow>
             if \<not> present then None
             else case snd (tab ! at) of
                    SReserved t _ \<Rightarrow>
                      if t = i then
                        map_option (\<lambda>c'. (put_slot at page (SResident frame) tab fl, c')) (custody_leave frame c)
                      else None
                  | _ \<Rightarrow> None))"

definition rollback_source :: "flat \<Rightarrow> nat \<Rightarrow> nat \<Rightarrow> custodies \<Rightarrow> (flat \<times> custodies) option" where
  "rollback_source fl page i c =
     (case fl_source fl of
        Borrowed _ \<Rightarrow> None
      | Managed tab \<Rightarrow>
          (case spot tab page of (at, present) \<Rightarrow>
             if \<not> present then None
             else case snd (tab ! at) of
                    SMoving frame t \<Rightarrow>
                      if t = i then
                        map_option (\<lambda>c'. (put_slot at page (SResident frame) tab fl, c')) (custody_leave frame c)
                      else None
                  | _ \<Rightarrow> None))"

definition rollback_target :: "flat \<Rightarrow> nat \<Rightarrow> nat \<Rightarrow> flat option" where
  "rollback_target fl page i =
     (case fl_source fl of
        Borrowed _ \<Rightarrow> None
      | Managed tab \<Rightarrow>
          (case spot tab page of (at, present) \<Rightarrow>
             if \<not> present then None
             else case snd (tab ! at) of
                    SReserved t was_missing \<Rightarrow>
                      if t = i then
                        Some (if was_missing then put_slot at page SMissing tab fl
                              else fl\<lparr>fl_source := Managed (vec_remove at tab)\<rparr>)
                      else None
                  | _ \<Rightarrow> None))"

section \<open>Transactions\<close>

definition tx_claim ::
  "(nat \<Rightarrow> bool) \<Rightarrow> transfer_error + 'c \<Rightarrow> flat_range \<Rightarrow> nat \<Rightarrow> flat_range \<Rightarrow> nat \<Rightarrow> world
     \<Rightarrow> ((transfer_error + transaction \<times> 'c) \<times> world) option" where
  "tx_claim mem prepare source source_page target target_page w =
     (if \<not> owns source source_page \<or> \<not> owns target target_page then None
      else let s = fr_flat source; t = fr_flat target in
        if s = t \<and> source_page = target_page then Some (Inl TDestinationOccupied, w)
        else case next_transaction w of
          Inl e \<Rightarrow> Some (Inl e, w)
        | Inr (i, w1) \<Rightarrow>
            (case rbind (source_ready (w_flat w1 s) source_page) (\<lambda>_.
                  rbind (target_ready (w_flat w1 t) target_page) (\<lambda>was_missing.
                  rbind (reserve_room mem (w_flat w1 t) target_page) (\<lambda>_.
                  rbind prepare (\<lambda>carried. Inr (was_missing, carried))))) of
               Inl e \<Rightarrow> Some (Inl e, w1)
             | Inr (was_missing, carried) \<Rightarrow>
                 (case claim_source (w_flat w1 s) source_page i (w_custody w1) of
                    None \<Rightarrow> None
                  | Some (Inl e) \<Rightarrow> Some (Inl e, w1)
                  | Some (Inr (fl, c)) \<Rightarrow>
                      let w2 = (put_flat s fl w1)\<lparr>w_custody := c\<rparr> in
                      map_option (\<lambda>fl'. (Inr (\<lparr>tx_source = s, tx_source_page = source_page, tx_target = t,
                           tx_target_page = target_page, tx_id = i, tx_committed = False\<rparr>, carried),
                           put_flat t fl' w2))
                        (claim_target (w_flat w2 t) target_page i was_missing))))"

definition tx_carrier :: "transaction \<Rightarrow> world \<Rightarrow> nat option" where
  "tx_carrier tx w =
     (case fl_source (w_flat w (tx_source tx)) of
        Borrowed _ \<Rightarrow> None
      | Managed tab \<Rightarrow>
          (case spot tab (tx_source_page tx) of (at, present) \<Rightarrow>
             if \<not> present then None
             else case snd (tab ! at) of
                    SMoving frame t \<Rightarrow> if t = tx_id tx then Some frame else None
                  | _ \<Rightarrow> None))"

definition tx_settle :: "transaction \<Rightarrow> world \<Rightarrow> world option" where
  "tx_settle tx w =
     (case settle_source (w_flat w (tx_source tx)) (tx_source_page tx) (tx_id tx) of
        None \<Rightarrow> None
      | Some (frame, fl) \<Rightarrow>
          let w1 = put_flat (tx_source tx) fl w in
          map_option (\<lambda>(fl', c). (put_flat (tx_target tx) fl' w1)\<lparr>w_custody := c\<rparr>)
            (settle_target (w_flat w1 (tx_target tx)) (tx_target_page tx) (tx_id tx) frame (w_custody w1)))"

definition tx_drop :: "transaction \<Rightarrow> world \<Rightarrow> world option" where
  "tx_drop tx w =
     (if tx_committed tx then Some w
      else case rollback_source (w_flat w (tx_source tx)) (tx_source_page tx) (tx_id tx) (w_custody w) of
        None \<Rightarrow> None
      | Some (fl, c) \<Rightarrow>
          let w1 = (put_flat (tx_source tx) fl w)\<lparr>w_custody := c\<rparr> in
          map_option (\<lambda>fl'. put_flat (tx_target tx) fl' w1)
            (rollback_target (w_flat w1 (tx_target tx)) (tx_target_page tx) (tx_id tx)))"

definition tx_commit :: "transaction \<Rightarrow> world \<Rightarrow> world option" where
  "tx_commit tx w = Option.bind (tx_settle tx w) (tx_drop (tx\<lparr>tx_committed := True\<rparr>))"

section \<open>Stores of slots\<close>

text \<open>
  What a claim and its undoing rely on, whatever the store: writes are read back, writes
  to different keys commute, and a write is undone by writing the old value or by
  clearing the key again.
\<close>

locale slot_store =
  fixes good :: "'t \<Rightarrow> bool" and valid :: "'t \<Rightarrow> 'k \<Rightarrow> bool" and look :: "'t \<Rightarrow> 'k \<Rightarrow> 's option"
    and put :: "'k \<Rightarrow> 's \<Rightarrow> 't \<Rightarrow> 't" and del :: "'k \<Rightarrow> 't \<Rightarrow> 't"
  assumes put_keeps: "good t \<Longrightarrow> valid t k \<Longrightarrow> good (put k s t)"
    and valid_put: "valid t k \<Longrightarrow> valid (put k s t) k' = valid t k'"
    and look_put: "good t \<Longrightarrow> valid t k \<Longrightarrow> look (put k s t) = (look t)(k \<mapsto> s)"
    and put_put: "good t \<Longrightarrow> valid t k \<Longrightarrow> put k s (put k s' t) = put k s t"
    and put_same: "good t \<Longrightarrow> valid t k \<Longrightarrow> look t k = Some s \<Longrightarrow> put k s t = t"
    and del_put: "good t \<Longrightarrow> valid t k \<Longrightarrow> look t k = None \<Longrightarrow> del k (put k s t) = t"
    and put_swap: "good t \<Longrightarrow> valid t k \<Longrightarrow> valid t k' \<Longrightarrow> k \<noteq> k' \<Longrightarrow> put k s (put k' s' t) = put k' s' (put k s t)"
begin

lemma two_back:
  assumes "good t" and "valid t a" and "valid t b" and "a \<noteq> b" and "look t a = Some x"
  shows "put a x (put b v (put a u t)) = put b v t"
proof -
  have "put a x (put b v (put a u t)) = put b v (put a x (put a u t))"
    using assms by (intro put_swap put_keeps) (simp_all add: valid_put)
  also have "put a x (put a u t) = t" using assms by (simp add: put_put put_same)
  finally show ?thesis .
qed

lemma two_back_fresh:
  assumes "good t" and "valid t a" and "valid t b" and "a \<noteq> b" and "look t a = Some x" and "look t b = None"
  shows "del b (put a x (put b v (put a u t))) = t"
  using assms by (simp add: two_back del_put)

lemma two_back_kept:
  assumes "good t" and "valid t a" and "valid t b" and "a \<noteq> b" and "look t a = Some x" and "look t b = Some y"
  shows "put b y (put a x (put b v (put a u t))) = t"
  using assms by (simp add: two_back put_put put_same)

lemma two_moved:
  assumes "good t" and "valid t a" and "valid t b" and "a \<noteq> b"
  shows "look (put b z (put a y (put b v (put a u t)))) = (look t)(a \<mapsto> y, b \<mapsto> z)"
  using assms by (simp add: look_put put_keeps valid_put fun_eq_iff)

end

sublocale page_map \<subseteq> one_table: slot_store ok "\<lambda>_ _. True" look put del
proof
  show "put k s (put k s' t) = put k s t" if "ok t" for t k s s'
    by (rule ext) (use that in \<open>auto simp: put_good look_put\<close>)
  show "put k s t = t" if "ok t" "look t k = Some s" for t k s
    by (rule ext) (use that in \<open>auto simp: put_good look_put fun_eq_iff\<close>)
qed (simp_all add: put_good look_put del_back put_swap)

text \<open>The slots of all sources, by source and page.\<close>

definition tab_of :: "flat \<Rightarrow> slot_table" where
  "tab_of fl = (case fl_source fl of Managed tab \<Rightarrow> tab | Borrowed _ \<Rightarrow> [])"

definition fput :: "nat \<Rightarrow> page_slot \<Rightarrow> flat \<Rightarrow> flat" where
  "fput p s fl = fl\<lparr>fl_source := Managed (tab_put p s (tab_of fl))\<rparr>"

definition fdel :: "nat \<Rightarrow> flat \<Rightarrow> flat" where
  "fdel p fl = fl\<lparr>fl_source := Managed (tab_del p (tab_of fl))\<rparr>"

definition wok :: "world \<Rightarrow> bool" where
  "wok w \<longleftrightarrow> (\<forall>i. table_ok (tab_of (w_flat w i)))"

definition managed :: "world \<Rightarrow> nat \<times> nat \<Rightarrow> bool" where
  "managed w k \<longleftrightarrow> \<not> flat_is_borrowed (w_flat w (fst k))"

definition wslot :: "world \<Rightarrow> nat \<times> nat \<Rightarrow> page_slot option" where
  "wslot w k = map_of (tab_of (w_flat w (fst k))) (snd k)"

definition wput :: "nat \<times> nat \<Rightarrow> page_slot \<Rightarrow> world \<Rightarrow> world" where
  "wput k s w = put_flat (fst k) (fput (snd k) s (w_flat w (fst k))) w"

definition wdel :: "nat \<times> nat \<Rightarrow> world \<Rightarrow> world" where
  "wdel k w = put_flat (fst k) (fdel (snd k) (w_flat w (fst k))) w"

lemma tab_of_simps [simp]:
  "tab_of (fput p s fl) = tab_put p s (tab_of fl)" "tab_of (fdel p fl) = tab_del p (tab_of fl)"
  "fl_source fl = Managed tab \<Longrightarrow> tab_of fl = tab"
  by (simp_all add: tab_of_def fput_def fdel_def)

lemma borrowed_put [simp]:
  "\<not> flat_is_borrowed (fput p s fl)" "\<not> flat_is_borrowed (fdel p fl)"
  by (simp_all add: flat_is_borrowed_def fput_def fdel_def)

lemma put_flat_simps [simp]:
  "w_flat (put_flat i fl w) = (w_flat w)(i := fl)" "w_custody (put_flat i fl w) = w_custody w"
  "w_next (put_flat i fl w) = w_next w"
  by (simp_all add: put_flat_def)

lemma world_eqI: "w_flat w = w_flat v \<Longrightarrow> w_custody w = w_custody v \<Longrightarrow> w_next w = w_next v \<Longrightarrow> w = (v :: world)"
  by (cases w, cases v) simp

lemma flat_managed: "\<not> flat_is_borrowed fl \<Longrightarrow> fl\<lparr>fl_source := Managed (tab_of fl)\<rparr> = fl"
  by (cases fl) (auto simp: flat_is_borrowed_def tab_of_def split: flat_source.splits)

lemmas store_defs = wok_def managed_def wslot_def wput_def wdel_def fun_eq_iff

interpretation ws: slot_store wok managed wslot wput wdel
proof
  fix t k s s' k'
  assume t: "wok t" "managed t k"
  then have tab: "table_ok (tab_of (w_flat t (fst k)))" by (simp add: wok_def)
  show "wok (wput k s t)" using t by (simp add: store_defs slot_map.put_good)
  show "wslot (wput k s t) = (wslot t)(k \<mapsto> s)" using tab by (cases k) (auto simp: store_defs slot_map.look_put)
  show "wput k s (wput k s' t) = wput k s t"
    by (rule world_eqI) (use tab slot_map.one_table.put_put in \<open>auto simp: store_defs fput_def tab_of_def [of "_\<lparr>fl_source := _\<rparr>"]\<close>)
  show "wput k s t = t" if "wslot t k = Some s"
    by (rule world_eqI) (use tab t that slot_map.one_table.put_same in \<open>auto simp: store_defs fput_def flat_managed\<close>)
  show "wdel k (wput k s t) = t" if "wslot t k = None"
    by (rule world_eqI) (use tab t that slot_map.del_back in \<open>auto simp: store_defs fput_def fdel_def flat_managed tab_of_def [of "_\<lparr>fl_source := _\<rparr>"]\<close>)
  show "wput k s (wput k' s' t) = wput k' s' (wput k s t)" if "managed t k'" "k \<noteq> k'"
    by (rule world_eqI) (use tab that slot_map.put_swap in
      \<open>cases k; cases k'; auto simp: store_defs fput_def tab_of_def [of "_\<lparr>fl_source := _\<rparr>"]\<close>)+
qed (simp add: store_defs)

section \<open>The steps of a transaction on the store\<close>

lemma put_slot_present: "fl_source fl = Managed tab \<Longrightarrow> spot tab page = (at, True) \<Longrightarrow> put_slot at page s tab fl = fput page s fl"
  by (simp add: put_slot_def fput_def tab_put_def)

lemma spot_look:
  assumes "table_ok (tab_of fl)" and "fl_source fl = Managed tab"
  obtains at s where "spot tab page = (at, True)" and "snd (tab ! at) = s" and "map_of (tab_of fl) page = Some s"
    | at where "spot tab page = (at, False)" and "map_of (tab_of fl) page = None"
  using assms spot_map_of(1) [of tab page] by (cases "spot tab page") (auto split: if_splits)

lemma source_ready_ok:
  assumes "table_ok (tab_of fl)" and "source_ready fl page = Inr u"
  shows "\<not> flat_is_borrowed fl" and "\<exists>f. map_of (tab_of fl) page = Some (SResident f)"
proof -
  obtain tab where tab: "fl_source fl = Managed tab"
    using assms(2) by (auto simp: source_ready_def plain_origin_def split: if_splits flat_source.splits)
  then show "\<not> flat_is_borrowed fl" by (simp add: flat_is_borrowed_def)
  show "\<exists>f. map_of (tab_of fl) page = Some (SResident f)"
    using assms(2) by (cases rule: spot_look [OF assms(1) tab, of page])
      (auto simp: source_ready_def plain_origin_def tab split: if_splits page_slot.splits)
qed

lemma target_ready_ok:
  assumes "table_ok (tab_of fl)" and "target_ready fl page = Inr m"
  shows "\<not> flat_is_borrowed fl" and "map_of (tab_of fl) page = (if m then Some SMissing else None)"
proof -
  obtain tab where tab: "fl_source fl = Managed tab"
    using assms(2) by (auto simp: target_ready_def plain_origin_def split: if_splits flat_source.splits)
  then show "\<not> flat_is_borrowed fl" by (simp add: flat_is_borrowed_def)
  show "map_of (tab_of fl) page = (if m then Some SMissing else None)"
    using assms(2) by (cases rule: spot_look [OF assms(1) tab, of page])
      (auto simp: target_ready_def plain_origin_def tab split: if_splits page_slot.splits)
qed

lemma spot_found:
  assumes "table_ok (tab_of fl)" and "map_of (tab_of fl) page = Some s"
  obtains tab at where "fl_source fl = Managed tab" and "spot tab page = (at, True)" and "snd (tab ! at) = s"
proof -
  obtain tab where tab: "fl_source fl = Managed tab" using assms(2) by (auto simp: tab_of_def split: flat_source.splits)
  then show thesis using assms that by (cases rule: spot_look [OF assms(1) tab, of page]) auto
qed

lemma spot_free:
  assumes "table_ok (tab_of fl)" and "\<not> flat_is_borrowed fl" and "map_of (tab_of fl) page = None"
  obtains tab at where "fl_source fl = Managed tab" and "spot tab page = (at, False)"
proof -
  obtain tab where tab: "fl_source fl = Managed tab" using assms(2) by (auto simp: flat_is_borrowed_def split: flat_source.splits)
  then show thesis using assms that by (cases rule: spot_look [OF assms(1) tab, of page]) auto
qed

lemma claim_source_eq:
  assumes "table_ok (tab_of fl)" and "map_of (tab_of fl) page = Some (SResident f)"
  shows "claim_source fl page i c =
    Some (if c f = Sole then Inr (fput page (SMoving f i) fl, c(f := InTransit))
          else Inl (if c f = Aliased then TNotTransferable else TBusy))"
  by (rule spot_found [OF assms]) (simp add: claim_source_def custody_enter_def put_slot_present)

lemma claim_target_eq:
  assumes "table_ok (tab_of fl)" and "\<not> flat_is_borrowed fl" and "map_of (tab_of fl) page = (if m then Some SMissing else None)"
  shows "claim_target fl page i m = Some (fput page (SReserved i m) fl)"
proof (cases m)
  case True
  with assms(3) have "map_of (tab_of fl) page = Some SMissing" by simp
  from spot_found [OF assms(1) this] obtain tab at where "fl_source fl = Managed tab" "spot tab page = (at, True)" "snd (tab ! at) = SMissing" .
  with True show ?thesis by (simp add: claim_target_def put_slot_present)
next
  case False
  with assms(3) have "map_of (tab_of fl) page = None" by simp
  from spot_free [OF assms(1,2) this] obtain tab at where "fl_source fl = Managed tab" "spot tab page = (at, False)" .
  with False show ?thesis by (simp add: claim_target_def fput_def tab_put_def)
qed

lemma finish_source_eq:
  assumes "table_ok (tab_of fl)" and "map_of (tab_of fl) page = Some (SMoving f i)"
  shows "settle_source fl page i = Some (f, fput page SMissing fl)"
    and "c f = InTransit \<Longrightarrow> rollback_source fl page i c = Some (fput page (SResident f) fl, c(f := Sole))"
proof -
  from spot_found [OF assms] obtain tab at where t: "fl_source fl = Managed tab" "spot tab page = (at, True)" "snd (tab ! at) = SMoving f i" .
  show "settle_source fl page i = Some (f, fput page SMissing fl)"
    using t by (simp add: settle_source_def put_slot_present)
  show "rollback_source fl page i c = Some (fput page (SResident f) fl, c(f := Sole))" if "c f = InTransit"
    using t that by (simp add: rollback_source_def put_slot_present custody_leave_def)
qed

lemma finish_target_eq:
  assumes "table_ok (tab_of fl)" and "map_of (tab_of fl) page = Some (SReserved i m)"
  shows "c f = InTransit \<Longrightarrow> settle_target fl page i f c = Some (fput page (SResident f) fl, c(f := Sole))"
    and "rollback_target fl page i = Some (if m then fput page SMissing fl else fdel page fl)"
proof -
  from spot_found [OF assms] obtain tab at where t: "fl_source fl = Managed tab" "spot tab page = (at, True)" "snd (tab ! at) = SReserved i m" .
  show "settle_target fl page i f c = Some (fput page (SResident f) fl, c(f := Sole))" if "c f = InTransit"
    using t that by (simp add: settle_target_def put_slot_present custody_leave_def)
  show "rollback_target fl page i = Some (if m then fput page SMissing fl else fdel page fl)"
    using t by (simp add: rollback_target_def put_slot_present fdel_def tab_del_def)
qed

definition src_key :: "transaction \<Rightarrow> nat \<times> nat" where
  "src_key tx = (tx_source tx, tx_source_page tx)"

definition tgt_key :: "transaction \<Rightarrow> nat \<times> nat" where
  "tgt_key tx = (tx_target tx, tx_target_page tx)"

text \<open>A transaction between its claim and its end, holding frame \<open>f\<close>.\<close>

definition pending :: "world \<Rightarrow> transaction \<Rightarrow> nat \<Rightarrow> bool \<Rightarrow> bool" where
  "pending w tx f m \<longleftrightarrow> wslot w (src_key tx) = Some (SMoving f (tx_id tx)) \<and> wslot w (tgt_key tx) = Some (SReserved (tx_id tx) m)
     \<and> w_custody w f = InTransit \<and> \<not> tx_committed tx"

lemma wput_custody: "wput k s (w\<lparr>w_custody := c\<rparr>) = (wput k s w)\<lparr>w_custody := c\<rparr>"
  "wdel k (w\<lparr>w_custody := c\<rparr>) = (wdel k w)\<lparr>w_custody := c\<rparr>"
  "wput k s (w\<lparr>w_next := n\<rparr>) = (wput k s w)\<lparr>w_next := n\<rparr>" "wdel k (w\<lparr>w_next := n\<rparr>) = (wdel k w)\<lparr>w_next := n\<rparr>"
  "wslot (w\<lparr>w_custody := c\<rparr>) = wslot w" "wslot (w\<lparr>w_next := n\<rparr>) = wslot w"
  "wok (w\<lparr>w_custody := c\<rparr>) = wok w" "wok (w\<lparr>w_next := n\<rparr>) = wok w"
  "managed (w\<lparr>w_custody := c\<rparr>) = managed w" "managed (w\<lparr>w_next := n\<rparr>) = managed w"
  by (simp_all add: store_defs put_flat_def)

lemma wput_fields [simp]:
  "w_custody (wput k s w) = w_custody w" "w_next (wput k s w) = w_next w"
  "w_custody (wdel k w) = w_custody w" "w_next (wdel k w) = w_next w"
  by (simp_all add: wput_def wdel_def)

lemma pending_managed: "pending w tx f m \<Longrightarrow> managed w (src_key tx) \<and> managed w (tgt_key tx)"
  by (auto simp: pending_def managed_def wslot_def tab_of_def flat_is_borrowed_def split: flat_source.splits)

lemma pending_apart: "pending w tx f m \<Longrightarrow> src_key tx \<noteq> tgt_key tx"
  by (auto simp: pending_def)

lemma commit_pending:
  assumes "wok w" and "pending w tx f m"
  shows "tx_commit tx w = Some ((wput (tgt_key tx) (SResident f) (wput (src_key tx) SMissing w))\<lparr>w_custody := (w_custody w)(f := Sole)\<rparr>)"
proof -
  let ?w = "wput (src_key tx) SMissing w"
  have t: "table_ok (tab_of (w_flat w (tx_source tx)))" "wok ?w" "table_ok (tab_of (w_flat ?w (tx_target tx)))"
    using assms ws.put_keeps pending_managed by (auto simp: wok_def)
  have s: "settle_source (w_flat w (tx_source tx)) (tx_source_page tx) (tx_id tx)
      = Some (f, fput (tx_source_page tx) SMissing (w_flat w (tx_source tx)))"
    using assms(2) by (intro finish_source_eq(1) [OF t(1)]) (auto simp: pending_def wslot_def src_key_def)
  have "wslot ?w (tgt_key tx) = Some (SReserved (tx_id tx) m)"
    using assms pending_apart [OF assms(2)] pending_managed by (simp add: ws.look_put) (simp add: pending_def)
  then have "settle_target (w_flat ?w (tx_target tx)) (tx_target_page tx) (tx_id tx) f (w_custody w)
      = Some (fput (tx_target_page tx) (SResident f) (w_flat ?w (tx_target tx)), (w_custody w)(f := Sole))"
    using assms(2) by (intro finish_target_eq(1) [OF t(3)]) (auto simp: pending_def wslot_def tgt_key_def)
  then show ?thesis
    using s by (simp add: tx_commit_def tx_settle_def tx_drop_def Let_def wput_def src_key_def tgt_key_def)
qed

lemma drop_pending:
  assumes "wok w" and "pending w tx f m"
  shows "tx_drop tx w = Some ((if m then wput (tgt_key tx) SMissing else wdel (tgt_key tx))
    ((wput (src_key tx) (SResident f) w)\<lparr>w_custody := (w_custody w)(f := Sole)\<rparr>))"
proof -
  let ?w = "wput (src_key tx) (SResident f) w"
  have t: "table_ok (tab_of (w_flat w (tx_source tx)))" "wok ?w" "table_ok (tab_of (w_flat ?w (tx_target tx)))"
    using assms ws.put_keeps pending_managed by (auto simp: wok_def)
  have s: "rollback_source (w_flat w (tx_source tx)) (tx_source_page tx) (tx_id tx) (w_custody w)
      = Some (fput (tx_source_page tx) (SResident f) (w_flat w (tx_source tx)), (w_custody w)(f := Sole))"
    using assms(2) by (intro finish_source_eq(2) [OF t(1)]) (auto simp: pending_def wslot_def src_key_def)
  have "wslot ?w (tgt_key tx) = Some (SReserved (tx_id tx) m)"
    using assms pending_apart [OF assms(2)] pending_managed by (simp add: ws.look_put) (simp add: pending_def)
  then have "rollback_target (w_flat ?w (tx_target tx)) (tx_target_page tx) (tx_id tx)
      = Some (if m then fput (tx_target_page tx) SMissing (w_flat ?w (tx_target tx)) else fdel (tx_target_page tx) (w_flat ?w (tx_target tx)))"
    by (intro finish_target_eq(2) [OF t(3)]) (auto simp: wslot_def tgt_key_def)
  then show ?thesis
    using s assms(2) by (auto simp: pending_def tx_drop_def Let_def wput_def wdel_def src_key_def tgt_key_def)
qed

section \<open>Claims\<close>

text \<open>The state after a claim that took frame \<open>f\<close> for the target slot, a tombstone when \<open>m\<close>.\<close>

definition claimed :: "world \<Rightarrow> transaction \<Rightarrow> nat \<Rightarrow> bool \<Rightarrow> world" where
  "claimed w tx f m = (wput (tgt_key tx) (SReserved (tx_id tx) m) (wput (src_key tx) (SMoving f (tx_id tx)) w))
     \<lparr>w_custody := (w_custody w)(f := InTransit), w_next := tx_id tx + 1\<rparr>"

definition claimable :: "world \<Rightarrow> transaction \<Rightarrow> nat \<Rightarrow> bool \<Rightarrow> bool" where
  "claimable w tx f m \<longleftrightarrow> wok w \<and> managed w (src_key tx) \<and> managed w (tgt_key tx) \<and> src_key tx \<noteq> tgt_key tx
     \<and> wslot w (src_key tx) = Some (SResident f) \<and> wslot w (tgt_key tx) = (if m then Some SMissing else None)
     \<and> w_custody w f = Sole \<and> \<not> tx_committed tx"

lemma claimed_pending:
  assumes "claimable w tx f m"
  shows "wok (claimed w tx f m)" and "pending (claimed w tx f m) tx f m"
  using assms
  by (auto simp: claimable_def claimed_def pending_def wput_custody ws.look_put ws.put_keeps ws.valid_put)

lemma claim_cases:
  assumes w: "wok w" and own: "owns source sp" "owns target tp"
  obtains (refused) e w' where "tx_claim mem prepare source sp target tp w = Some (Inl e, w')"
      and "w_flat w' = w_flat w" and "w_custody w' = w_custody w"
    | (taken) tx c f m where "tx_claim mem prepare source sp target tp w = Some (Inr (tx, c), claimed w tx f m)"
      and "claimable w tx f m" and "src_key tx = (fr_flat source, sp)" and "tgt_key tx = (fr_flat target, tp)"
      and "tx_id tx = w_next w" and "prepare = Inr c"
proof -
  let ?s = "fr_flat source" and ?t = "fr_flat target"
  show thesis
  proof (cases "?s = ?t \<and> sp = tp")
    case True
    then show thesis using own by (intro refused [of TDestinationOccupied w]) (auto simp: tx_claim_def Let_def)
  next
    case apart: False
    show thesis
    proof (cases "next_transaction w")
      case (Inl e)
      then show thesis using own apart by (intro refused [of e w]) (auto simp: tx_claim_def Let_def)
    next
      case (Inr iw)
      then have iw: "iw = (w_next w, w\<lparr>w_next := w_next w + 1\<rparr>)"
        by (auto simp: next_transaction_def next_id_def split: option.splits if_splits)
      let ?w = "w\<lparr>w_next := w_next w + 1\<rparr>" and ?i = "w_next w"
      let ?ready = "rbind (source_ready (w_flat w ?s) sp) (\<lambda>_.
                  rbind (target_ready (w_flat w ?t) tp) (\<lambda>was_missing.
                  rbind (reserve_room mem (w_flat w ?t) tp) (\<lambda>_.
                  rbind prepare (\<lambda>carried. Inr (was_missing, carried)))))"
      have tab: "table_ok (tab_of (w_flat w j))" for j using w by (simp add: wok_def)
      show thesis
      proof (cases ?ready)
        case (Inl e)
        then show thesis using own apart Inr iw by (intro refused [of e ?w]) (auto simp: tx_claim_def Let_def)
      next
        case (Inr mc)
        obtain m c where mc: "mc = (m, c)" by (cases mc)
        have ready: "source_ready (w_flat w ?s) sp = Inr ()" "target_ready (w_flat w ?t) tp = Inr m" "prepare = Inr c"
          using Inr mc by (auto simp: result_simps)
        obtain f where f: "map_of (tab_of (w_flat w ?s)) sp = Some (SResident f)"
          and sb: "\<not> flat_is_borrowed (w_flat w ?s)" using source_ready_ok [OF tab ready(1)] by blast
        note tr = target_ready_ok [OF tab ready(2)]
        note cs = claim_source_eq [OF tab f, of ?i "w_custody w"]
        show thesis
        proof (cases "w_custody w f = Sole")
          case False
          then show thesis using own apart \<open>next_transaction w = Inr iw\<close> iw Inr mc cs
            by (intro refused [of "if w_custody w f = Aliased then TNotTransferable else TBusy" ?w]) (auto simp: tx_claim_def Let_def)
        next
          case True
          let ?tx = "\<lparr>tx_source = ?s, tx_source_page = sp, tx_target = ?t, tx_target_page = tp, tx_id = ?i, tx_committed = False\<rparr>"
          let ?v = "(put_flat ?s (fput sp (SMoving f ?i) (w_flat w ?s)) ?w)\<lparr>w_custody := (w_custody w)(f := InTransit)\<rparr>"
          have "wok (wput (?s, sp) (SMoving f ?i) w)" using w sb by (intro ws.put_keeps) (auto simp: managed_def)
          then have tabv: "table_ok (tab_of (w_flat ?v ?t))" by (auto simp: wok_def wput_def)
          have lookv: "map_of (tab_of (w_flat ?v ?t)) tp = (if m then Some SMissing else None)"
            using tr(2) apart by (auto simp: slot_map.look_put [OF tab])
          have "\<not> flat_is_borrowed (w_flat ?v ?t)" using tr(1) by simp
          from claim_target_eq [OF tabv this lookv, of ?i]
          have "tx_claim mem prepare source sp target tp w = Some (Inr (?tx, c), put_flat ?t (fput tp (SReserved ?i m) (w_flat ?v ?t)) ?v)"
            using own apart \<open>next_transaction w = Inr iw\<close> iw Inr mc cs True by (auto simp: tx_claim_def Let_def)
          moreover have "put_flat ?t (fput tp (SReserved ?i m) (w_flat ?v ?t)) ?v = claimed w ?tx f m"
            by (rule world_eqI) (auto simp: claimed_def wput_def src_key_def tgt_key_def)
          moreover have "claimable w ?tx f m"
            using w sb tr f True apart by (simp add: claimable_def managed_def wslot_def src_key_def tgt_key_def)
          ultimately show thesis using ready(3) by (intro taken [of ?tx c f m]) (simp_all add: src_key_def tgt_key_def)
        qed
      qed
    qed
  qed
qed

lemma claim_taken:
  assumes "wok w" and "tx_claim mem prepare source sp target tp w = Some (Inr (tx, c), w')"
  obtains f m where "w' = claimed w tx f m" and "claimable w tx f m" and "src_key tx = (fr_flat source, sp)"
    and "tgt_key tx = (fr_flat target, tp)" and "tx_id tx = w_next w"
proof -
  have "owns source sp" "owns target tp" using assms(2) by (auto simp: tx_claim_def split: if_splits)
  from claim_cases [OF assms(1) this, of mem prepare] show thesis
    using assms(2) that by cases auto
qed

lemma managed_next: "claimable w tx f m \<Longrightarrow>
    managed (w\<lparr>w_next := n\<rparr>) (src_key tx) \<and> managed (w\<lparr>w_next := n\<rparr>) (tgt_key tx) \<and> wok (w\<lparr>w_next := n\<rparr>)"
  by (simp add: claimable_def wput_custody)

lemma custody_back: "claimable w tx f m \<Longrightarrow> (w_custody w)(f := InTransit, f := Sole) = w_custody w"
  by (auto simp: claimable_def)

text \<open>
  C32: a claim of two pages inside their windows never panics, keeps every source well
  formed, and when it is refused it leaves every slot and every custody as it was.
\<close>

theorem claim_total:
  assumes "wok w" and "owns source sp" and "owns target tp"
  shows "\<exists>r w'. tx_claim mem prepare source sp target tp w = Some (r, w') \<and> wok w'
    \<and> (\<forall>e. r = Inl e \<longrightarrow> w_flat w' = w_flat w \<and> w_custody w' = w_custody w)"
  by (cases rule: claim_cases [OF assms, of mem prepare])
    (use assms(1) claimed_pending(1) in \<open>auto simp: wok_def\<close>)

text \<open>
  C31: dropping a transaction that was claimed gives back the state before the claim, the
  counter of transactions apart: both slots, fresh or tombstone, and the custody.
\<close>

theorem claim_then_drop:
  assumes w: "wok w" and cl: "tx_claim mem prepare source sp target tp w = Some (Inr (tx, c), w')"
  shows "tx_drop tx w' = Some (w\<lparr>w_next := w_next w + 1\<rparr>)"
proof -
  obtain f m where t: "w' = claimed w tx f m" "claimable w tx f m" "tx_id tx = w_next w"
    by (rule claim_taken [OF w cl])
  let ?a = "src_key tx" and ?b = "tgt_key tx"
  note C = t(2) [unfolded claimable_def]
  note undo = ws.two_back_fresh [of w ?a ?b] ws.two_back_kept [of w ?a ?b]
  have "tx_drop tx w' = Some ((if m then wput ?b SMissing else wdel ?b)
      ((wput ?a (SResident f) w')\<lparr>w_custody := (w_custody w')(f := Sole)\<rparr>))"
    unfolding t(1) by (rule drop_pending [OF claimed_pending [OF t(2)]])
  also have "\<dots> = Some (w\<lparr>w_next := w_next w + 1\<rparr>)"
    using C undo(1) [of "SResident f" "SReserved (tx_id tx) m" "SMoving f (tx_id tx)"]
      undo(2) [of "SResident f" SMissing "SReserved (tx_id tx) m" "SMoving f (tx_id tx)"] custody_back [OF t(2)] t(3)
    by (cases m) (auto simp: t(1) claimed_def wput_custody intro!: world_eqI)
  finally show ?thesis .
qed

text \<open>
  C30: committing a transaction that was claimed never panics and moves exactly one frame:
  the source slot held it and becomes a tombstone, the target slot holds it, every other
  slot and every custody is as before the claim, and while the transaction was pending
  its carrier was that frame.
\<close>

theorem claim_then_commit:
  assumes w: "wok w" and cl: "tx_claim mem prepare source sp target tp w = Some (Inr (tx, c), w')"
  shows "\<exists>f w''. tx_commit tx w' = Some w'' \<and> tx_carrier tx w' = Some f \<and> wok w''
    \<and> wslot w (fr_flat source, sp) = Some (SResident f)
    \<and> wslot w'' = (wslot w)((fr_flat source, sp) \<mapsto> SMissing, (fr_flat target, tp) \<mapsto> SResident f)
    \<and> w_custody w'' = w_custody w"
proof -
  obtain f m where t: "w' = claimed w tx f m" "claimable w tx f m" "src_key tx = (fr_flat source, sp)" "tgt_key tx = (fr_flat target, tp)"
    by (rule claim_taken [OF w cl])
  let ?a = "src_key tx" and ?b = "tgt_key tx"
  note C = t(2) [unfolded claimable_def] and P = claimed_pending [OF t(2)]
  let ?w = "(wput ?b (SResident f) (wput ?a SMissing w'))\<lparr>w_custody := (w_custody w')(f := Sole)\<rparr>"
  have run: "tx_commit tx w' = Some ?w" unfolding t(1) by (rule commit_pending [OF P])
  have "map_of (tab_of (w_flat w' (tx_source tx))) (tx_source_page tx) = Some (SMoving f (tx_id tx))"
    using P(2) unfolding t(1) by (simp add: pending_def wslot_def src_key_def)
  moreover have "table_ok (tab_of (w_flat w' (tx_source tx)))" using P(1) unfolding t(1) by (simp add: wok_def)
  ultimately obtain tab at where "fl_source (w_flat w' (tx_source tx)) = Managed tab" "spot tab (tx_source_page tx) = (at, True)"
    "snd (tab ! at) = SMoving f (tx_id tx)" using spot_found by metis
  then have carrier: "tx_carrier tx w' = Some f" by (simp add: tx_carrier_def)
  have "wok ?w" using P(1) pending_managed [OF P(2)] unfolding t(1) by (simp add: wput_custody ws.put_keeps ws.valid_put)
  moreover have "wslot ?w = (wslot w)(?a \<mapsto> SMissing, ?b \<mapsto> SResident f)"
    using C ws.two_moved [of w ?a ?b] by (simp add: t(1) claimed_def wput_custody)
  moreover have "w_custody ?w = w_custody w" using custody_back [OF t(2)] by (simp add: t(1) claimed_def)
  ultimately show ?thesis using run carrier C t(3,4) by auto
qed

section \<open>An instance\<close>

definition sample_world :: world where
  "sample_world = \<lparr>w_flat = (\<lambda>_. sample_flat), w_custody = (\<lambda>_. Sole), w_next = 7\<rparr>"

definition sample_range :: "nat \<Rightarrow> flat_range" where
  "sample_range i = \<lparr>fr_flat = i, fr_index = 0, fr_count = 8\<rparr>"

lemma sample_wok: "wok sample_world"
  using sample_table sample_table_ok by (simp add: wok_def sample_world_def)

lemma sample_owns: "owns (sample_range i) 0" "owns (sample_range i) 2"
  by (simp_all add: owns_def sample_range_def)

lemma sample_claim:
  "\<exists>tx w'. tx_claim (\<lambda>_. True) (Inr ()) (sample_range 1) 0 (sample_range 1) 2 sample_world = Some (Inr (tx, ()), w')"
  by (simp add: tx_claim_def sample_owns next_transaction_def next_id_def sample_world_def sample_range_def sample_flat_def
      ISIZE_MAX_def Let_def source_ready_def target_ready_def reserve_room_def plain_origin_def pinned_def flat_is_pinned_def spot_def
      claim_source_def claim_target_def custody_enter_def put_slot_def put_flat_def owns_def partition_point_def)

theorem claim_total_witness:
  "\<exists>r w'. tx_claim (\<lambda>_. True) (Inr ()) (sample_range 1) 0 (sample_range 1) 2 sample_world = Some (r, w') \<and> wok w'"
  using claim_total [OF sample_wok sample_owns, of "\<lambda>_. True" "Inr ()" 1 1] by blast

theorem claim_then_drop_witness:
  "\<exists>tx w'. tx_claim (\<lambda>_. True) (Inr ()) (sample_range 1) 0 (sample_range 1) 2 sample_world = Some (Inr (tx, ()), w')
     \<and> tx_drop tx w' = Some (sample_world\<lparr>w_next := 8\<rparr>)"
proof -
  obtain tx w' where c: "tx_claim (\<lambda>_. True) (Inr ()) (sample_range 1) 0 (sample_range 1) 2 sample_world = Some (Inr (tx, ()), w')"
    using sample_claim by blast
  have "w_next sample_world + 1 = 8" by (simp add: sample_world_def)
  with claim_then_drop [OF sample_wok c] c show ?thesis by simp
qed

theorem claim_then_commit_witness:
  "\<exists>tx w' w''. tx_claim (\<lambda>_. True) (Inr ()) (sample_range 1) 0 (sample_range 1) 2 sample_world = Some (Inr (tx, ()), w')
     \<and> tx_commit tx w' = Some w'' \<and> wslot w'' (1, 2) = Some (SResident 40) \<and> wslot w'' (1, 0) = Some SMissing"
proof -
  obtain tx w' where c: "tx_claim (\<lambda>_. True) (Inr ()) (sample_range 1) 0 (sample_range 1) 2 sample_world = Some (Inr (tx, ()), w')"
    using sample_claim by blast
  have s: "fr_flat (sample_range 1) = 1" "wslot sample_world (1, 0) = Some (SResident 40)"
    by (simp_all add: sample_range_def wslot_def sample_world_def sample_flat_def tab_of_def)
  obtain f w'' where r: "tx_commit tx w' = Some w''" "wslot sample_world (1, 0) = Some (SResident f)"
    "wslot w'' = (wslot sample_world)((1, 0) \<mapsto> SMissing, (1, 2) \<mapsto> SResident f)"
    using claim_then_commit [OF sample_wok c] s(1) by auto
  then have "f = 40" using s(2) by simp
  with c r show ?thesis by auto
qed

end
