(* ===== verification/Lisp_Text.thy ===== *)
theory Lisp_Text
  imports Prelude
begin

text \<open>
  Text, spans, diagnostics and string literals of the Lisp library
  (\<open>crates/lisp/src/source.rs\<close>, \<open>diagnostic.rs\<close>, \<open>syntax/lexer.rs\<close>).

  A Rust \<open>str\<close> is the list of its UTF-8 bytes. The loops over \<open>chars\<close> in these files
  only compare with ASCII characters, and no byte of a longer character is ASCII, so
  they are loops over the bytes. A slice out of range or inside a character is a panic,
  the result \<open>None\<close>.
\<close>

section \<open>UTF-8\<close>

definition byte_of :: "char \<Rightarrow> nat" where
  "byte_of c = of_char c"

definition is_continuation :: "char \<Rightarrow> bool" where
  "is_continuation c \<longleftrightarrow> 0x80 \<le> byte_of c \<and> byte_of c < 0xC0"

definition is_char_boundary :: "string \<Rightarrow> nat \<Rightarrow> bool" where
  "is_char_boundary text i \<longleftrightarrow>
     i = 0 \<or> (if i \<ge> length text then i = length text else \<not> is_continuation (text ! i))"

primrec floor_char_boundary :: "string \<Rightarrow> nat \<Rightarrow> nat" where
  "floor_char_boundary text 0 = 0"
| "floor_char_boundary text (Suc i) =
     (if is_char_boundary text (Suc i) then Suc i else floor_char_boundary text i)"

definition char_count :: "string \<Rightarrow> nat" where
  "char_count s = length (filter (\<lambda>c. \<not> is_continuation c) s)"

definition str_slice :: "string \<Rightarrow> nat \<Rightarrow> nat \<Rightarrow> string option" where
  "str_slice text a b =
     (if a \<le> b \<and> b \<le> length text \<and> is_char_boundary text a \<and> is_char_boundary text b
      then Some (take (b - a) (drop a text)) else None)"

text \<open>The check of \<open>String::from_utf8\<close>, after the table of well-formed byte sequences.\<close>

definition byte_in :: "nat \<Rightarrow> nat \<Rightarrow> char \<Rightarrow> bool" where
  "byte_in lo hi c \<longleftrightarrow> lo \<le> byte_of c \<and> byte_of c \<le> hi"

fun utf8_valid :: "string \<Rightarrow> bool" where
  "utf8_valid [] = True"
| "utf8_valid (a # s) =
     (if byte_of a < 0x80 then utf8_valid s
      else case s of
             [] \<Rightarrow> False
           | b # s2 \<Rightarrow>
               if byte_in 0xC2 0xDF a then is_continuation b \<and> utf8_valid s2
               else case s2 of
                      [] \<Rightarrow> False
                    | c # s3 \<Rightarrow>
                        if byte_in 0xE0 0xEF a then
                          byte_in (if byte_of a = 0xE0 then 0xA0 else 0x80) (if byte_of a = 0xED then 0x9F else 0xBF) b
                          \<and> is_continuation c \<and> utf8_valid s3
                        else case s3 of
                               [] \<Rightarrow> False
                             | d # s4 \<Rightarrow>
                                 byte_in 0xF0 0xF4 a
                                 \<and> byte_in (if byte_of a = 0xF0 then 0x90 else 0x80) (if byte_of a = 0xF4 then 0x8F else 0xBF) b
                                 \<and> is_continuation c \<and> is_continuation d \<and> utf8_valid s4)"

declare utf8_valid.simps(2) [simp del]

section \<open>Sources and diagnostics\<close>

record source =
  so_name :: string
  so_text :: string

record span =
  sp_start :: nat
  sp_end :: nat

definition span_new :: "nat \<Rightarrow> nat \<Rightarrow> span" where
  "span_new a b = \<lparr>sp_start = a, sp_end = b\<rparr>"

definition span_default :: span where
  "span_default = span_new 0 0"

definition ch_newline :: char where
  "ch_newline = CHR 0x0A"

definition location :: "source \<Rightarrow> nat \<Rightarrow> nat \<times> nat" where
  "location s offset =
     (let text = so_text s;
          prefix = take (min (min offset (length text)) (floor_char_boundary text (min offset (length text)))) text;
          row = length (filter (\<lambda>b. b = ch_newline) prefix) + 1;
          col = char_count (rev (takeWhile (\<lambda>b. b \<noteq> ch_newline) (rev prefix))) + 1
      in (row, col))"

datatype error_kind =
    ELexical | ESyntax | EUnbound | EArity | EType | EArithmetic | EResourceLimit
  | ECancelled | EHost | EBusy | EStaleCall | EStaleValue

record diagnostic =
  dg_kind :: error_kind
  dg_message :: string
  dg_source :: source
  dg_span :: span
  dg_trace :: "(source \<times> span) list"

definition diagnostic_new :: "error_kind \<Rightarrow> string \<Rightarrow> source \<Rightarrow> span \<Rightarrow> diagnostic" where
  "diagnostic_new k m s sp = \<lparr>dg_kind = k, dg_message = m, dg_source = s, dg_span = sp, dg_trace = []\<rparr>"

section \<open>String literals\<close>

definition ch_backslash :: char where
  "ch_backslash = CHR 0x5C"

definition ch_dquote :: char where
  "ch_dquote = CHR 0x22"

definition ch_return :: char where
  "ch_return = CHR 0x0D"

definition ch_tab :: char where
  "ch_tab = CHR 0x09"

definition escape_char :: "char \<Rightarrow> char option" where
  "escape_char c =
     (if c = CHR ''n'' then Some ch_newline else if c = CHR ''r'' then Some ch_return
      else if c = CHR ''t'' then Some ch_tab else if c = ch_dquote then Some ch_dquote
      else if c = ch_backslash then Some ch_backslash else None)"

fun unescape :: "string \<Rightarrow> string option" where
  "unescape [] = Some []"
| "unescape (c # cs) =
     (if c \<noteq> ch_backslash then map_option (\<lambda>r. c # r) (unescape cs)
      else case cs of
             [] \<Rightarrow> None
           | e # rest \<Rightarrow> (case escape_char e of
                            None \<Rightarrow> None
                          | Some o' \<Rightarrow> map_option (\<lambda>r. o' # r) (unescape rest)))"

definition lexer_string :: "source \<Rightarrow> span \<Rightarrow> (diagnostic + string) option" where
  "lexer_string s sp =
     (if sp_end sp = 0 then None
      else case str_slice (so_text s) (sp_start sp + 1) (sp_end sp - 1) of
             None \<Rightarrow> None
           | Some raw \<Rightarrow>
               Some (ok_or (unescape raw) (diagnostic_new ELexical ''invalid string escape'' s sp)))"

text \<open>
  The callback of the lexer after an opening quote: whether the literal is closed, and
  how many bytes of the remainder it takes.
\<close>

fun quoted_loop :: "bool \<Rightarrow> nat \<Rightarrow> string \<Rightarrow> bool \<times> nat" where
  "quoted_loop escaped index [] = (False, index)"
| "quoted_loop escaped index (b # bs) =
     (if \<not> escaped \<and> b = ch_dquote then (True, index + 1)
      else quoted_loop (if escaped then False else b = ch_backslash) (index + 1) bs)"

definition quoted :: "string \<Rightarrow> bool \<times> nat" where
  "quoted remainder = quoted_loop False 0 remainder"

fun escapes_ok :: "string \<Rightarrow> bool" where
  "escapes_ok [] = True"
| "escapes_ok (c # cs) =
     (if c \<noteq> ch_backslash then escapes_ok cs
      else case cs of [] \<Rightarrow> True | e # rest \<Rightarrow> escape_char e \<noteq> None \<and> escapes_ok rest)"

definition unfinished :: "source \<Rightarrow> span \<Rightarrow> (diagnostic + unit) option" where
  "unfinished s sp =
     map_option (\<lambda>raw. if escapes_ok raw then Inr ()
                       else Inl (diagnostic_new ELexical ''invalid string escape'' s sp))
       (str_slice (so_text s) (sp_start sp + 1) (sp_end sp))"

text \<open>How \<open>Engine::display\<close> writes the characters of a string object.\<close>

definition escaped_char :: "char \<Rightarrow> string" where
  "escaped_char c =
     (if c = ch_dquote then [ch_backslash, ch_dquote] else if c = ch_backslash then [ch_backslash, ch_backslash]
      else if c = ch_newline then [ch_backslash, CHR ''n''] else if c = ch_return then [ch_backslash, CHR ''r'']
      else if c = ch_tab then [ch_backslash, CHR ''t''] else [c])"

definition escape :: "string \<Rightarrow> string" where
  "escape s = concat (map escaped_char s)"

section \<open>Integers\<close>

definition I64_MIN :: int where "I64_MIN = - (2 ^ 63)"
definition I64_MAX :: int where "I64_MAX = 2 ^ 63 - 1"

definition checked_i64 :: "int \<Rightarrow> int option" where
  "checked_i64 n = (if I64_MIN \<le> n \<and> n \<le> I64_MAX then Some n else None)"

definition digit_of :: "char \<Rightarrow> int option" where
  "digit_of c = (if 48 \<le> byte_of c \<and> byte_of c \<le> 57 then Some (int (byte_of c) - 48) else None)"

fun parse_digits :: "int \<Rightarrow> string \<Rightarrow> int option" where
  "parse_digits acc [] = Some acc"
| "parse_digits acc (c # cs) =
     (case digit_of c of None \<Rightarrow> None | Some d \<Rightarrow> parse_digits (10 * acc + d) cs)"

text \<open>\<open>str::parse::<i64>\<close>: an optional sign, at least one digit, a value in range.\<close>

definition parse_i64 :: "string \<Rightarrow> int option" where
  "parse_i64 s =
     (case s of
        [] \<Rightarrow> None
      | c # cs \<Rightarrow>
          if c = CHR ''-'' then
            (if cs = [] then None else Option.bind (parse_digits 0 cs) (\<lambda>n. checked_i64 (- n)))
          else if c = CHR ''+'' then
            (if cs = [] then None else Option.bind (parse_digits 0 cs) checked_i64)
          else Option.bind (parse_digits 0 s) checked_i64)"

section \<open>Literals round trip\<close>

lemmas ch_defs = ch_newline_def ch_backslash_def ch_dquote_def ch_return_def ch_tab_def

lemma unescape_escaped: "unescape (escaped_char c @ s) = map_option (\<lambda>r. c # r) (unescape s)"
  by (auto simp: escaped_char_def escape_char_def ch_defs)

lemma unescape_escape: "unescape (escape s) = Some s"
  by (induction s) (simp_all add: escape_def unescape_escaped)

lemma quoted_escaped:
  "quoted_loop False i (escaped_char c @ s) = quoted_loop False (i + length (escaped_char c)) s"
  by (auto simp: escaped_char_def ch_defs)

lemma quoted_escape: "quoted_loop False i (escape s @ ch_dquote # rest) = (True, i + length (escape s) + 1)"
proof (induction s arbitrary: i)
  case (Cons c s)
  show ?case using Cons [of "i + length (escaped_char c)"] quoted_escaped [of i c "escape s @ ch_dquote # rest"]
    by (simp add: escape_def)
qed (simp add: escape_def)

section \<open>Character boundaries\<close>

lemma utf8_head: "utf8_valid (a # s) \<Longrightarrow> \<not> is_continuation a"
  by (auto simp: utf8_valid.simps(2) is_continuation_def byte_in_def split: list.splits if_splits)

text \<open>A valid text is a sequence of characters, each a lead byte and its continuation bytes.\<close>

lemma utf8_split:
  assumes "utf8_valid (a # s)"
  obtains cs rest where "s = cs @ rest" and "\<forall>c \<in> set cs. is_continuation c" and "utf8_valid rest"
    and "byte_of a < 0x80 \<Longrightarrow> cs = []" and "length cs \<le> 3"
proof (cases "byte_of a < 0x80")
  case True
  then show thesis using assms by (intro that [of "[]" s]) (auto simp: utf8_valid.simps(2))
next
  case a: False
  have cont: "is_continuation b" if "byte_in lo hi b" "0x80 \<le> lo" "hi \<le> 0xBF" for lo hi b
    using that by (auto simp: byte_in_def is_continuation_def)
  obtain b s2 where s: "s = b # s2" using assms a by (auto simp: utf8_valid.simps(2) split: list.splits)
  show thesis
  proof (cases "byte_in 0xC2 0xDF a")
    case True
    then show thesis using assms a s by (intro that [of "[b]" s2]) (auto simp: utf8_valid.simps(2))
  next
    case na: False
    obtain c s3 where s2: "s2 = c # s3" using assms a s na by (auto simp: utf8_valid.simps(2) split: list.splits)
    show thesis
    proof (cases "byte_in 0xE0 0xEF a")
      case True
      then show thesis using assms a s na s2
        by (intro that [of "[b, c]" s3]) (auto simp: utf8_valid.simps(2) intro: cont split: if_splits)
    next
      case False
      then show thesis using assms a s na s2
        by (cases s3) (auto simp: utf8_valid.simps(2) byte_in_def is_continuation_def intro!: that [of "[b, c, hd s3]" "tl s3"] split: if_splits)
    qed
  qed
qed

lemma ascii_then_boundary:
  "utf8_valid t \<Longrightarrow> i < length t \<Longrightarrow> byte_of (t ! i) < 0x80 \<Longrightarrow> is_char_boundary t (i + 1)"
proof (induction "length t" arbitrary: t i rule: less_induct)
  case less
  obtain a s where t: "t = a # s" using less.prems(2) by (cases t) auto
  obtain cs rest where cs: "s = cs @ rest" "\<forall>c \<in> set cs. is_continuation c" "utf8_valid rest" "byte_of a < 0x80 \<Longrightarrow> cs = []"
    using utf8_split [OF less.prems(1) [unfolded t]] by metis
  show ?case
  proof (cases "i \<le> length cs")
    case True
    show ?thesis
    proof (cases i)
      case 0
      then have "cs = []" using less.prems(3) cs(4) t by simp
      then show ?thesis using 0 cs t utf8_head by (cases rest) (auto simp: is_char_boundary_def)
    next
      case (Suc j)
      then have "t ! i \<in> set cs" using True t cs(1) by (simp add: nth_append)
      then show ?thesis using cs(2) less.prems(3) by (auto simp: is_continuation_def)
    qed
  next
    case False
    then obtain k where k: "i = Suc (length cs) + k" by (metis add_Suc le_Suc_ex not_less_eq_eq)
    have "t ! i = rest ! k" "k < length rest" using k t cs(1) less.prems(2) by (simp_all add: nth_append)
    then have "is_char_boundary rest (k + 1)" using less.hyps [of rest k] cs t less.prems(3) by simp
    then show ?thesis using k t cs(1) by (auto simp: is_char_boundary_def nth_append split: if_splits)
  qed
qed

text \<open>A boundary is never more than three bytes back.\<close>

lemma boundary_near:
  "utf8_valid t \<Longrightarrow> i \<le> length t \<Longrightarrow> \<exists>j \<le> i. i \<le> j + 3 \<and> is_char_boundary t j"
proof (induction "length t" arbitrary: t i rule: less_induct)
  case less
  show ?case
  proof (cases t)
    case (Cons a s)
    obtain cs rest where cs: "s = cs @ rest" "utf8_valid rest" "length cs \<le> 3"
      using utf8_split [OF less.prems(1) [unfolded Cons]] by metis
    show ?thesis
    proof (cases "i \<le> length cs")
      case True
      then show ?thesis using cs(3) by (intro exI [of _ 0]) (simp add: is_char_boundary_def)
    next
      case False
      then obtain k where k: "i = Suc (length cs) + k" by (metis add_Suc le_Suc_ex not_less_eq_eq)
      have "k \<le> length rest" using k Cons cs(1) less.prems(2) by simp
      then obtain j where j: "j \<le> k" "k \<le> j + 3" "is_char_boundary rest j" using less.hyps [of rest k] cs(1,2) Cons by auto
      have "is_char_boundary t (Suc (length cs) + j)"
        using j(3) Cons cs utf8_head by (cases rest) (auto simp: is_char_boundary_def nth_append nth_Cons' split: if_splits)
      then show ?thesis using j k by (intro exI [of _ "Suc (length cs) + j"]) simp
    qed
  qed (use less.prems in \<open>auto simp: is_char_boundary_def\<close>)
qed

lemma floor_boundary: "is_char_boundary t (floor_char_boundary t i)" and floor_le: "floor_char_boundary t i \<le> i"
  by (induction i) (auto simp: is_char_boundary_def)

lemma floor_above: "j \<le> i \<Longrightarrow> is_char_boundary t j \<Longrightarrow> j \<le> floor_char_boundary t i"
  by (induction i) (auto simp: le_Suc_eq)

lemma floor_near: "utf8_valid t \<Longrightarrow> i \<le> length t \<Longrightarrow> i \<le> floor_char_boundary t i + 3"
  using boundary_near [of t i] floor_above by (meson add_le_mono1 le_trans)

lemma floor_fixed: "is_char_boundary t i \<Longrightarrow> floor_char_boundary t i = i"
  by (cases i) auto

lemma char_count_append: "char_count (a @ b) = char_count a + char_count b"
  by (simp add: char_count_def)

section \<open>Printing a string and reading it back\<close>

lemma escape_head: "utf8_valid s \<Longrightarrow> \<not> is_continuation (hd (escape s @ [ch_dquote]))"
proof (cases s)
  case (Cons c cs)
  assume "utf8_valid s"
  then have "\<not> is_continuation c" using Cons utf8_head by blast
  then show ?thesis using Cons by (auto simp: escape_def escaped_char_def is_continuation_def byte_of_def ch_backslash_def)
qed (simp add: escape_def is_continuation_def byte_of_def ch_dquote_def)

text \<open>
  C34: the printed form of a string is one closed string literal, whatever follows it, and
  reading that literal gives the string back.
\<close>

theorem literal_roundtrip:
  assumes "utf8_valid s"
  shows "quoted (escape s @ ch_dquote # rest) = (True, length (escape s) + 1)
    \<and> lexer_string \<lparr>so_name = name, so_text = ch_dquote # escape s @ ch_dquote # rest\<rparr> (span_new 0 (length (escape s) + 2)) = Some (Inr s)"
proof
  let ?t = "ch_dquote # escape s @ ch_dquote # rest" and ?n = "length (escape s)"
  show "quoted (escape s @ ch_dquote # rest) = (True, ?n + 1)" using quoted_escape [of 0 s rest] by (simp add: quoted_def)
  have "?t ! 1 = hd (escape s @ [ch_dquote])" by (cases "escape s") auto
  then have first: "is_char_boundary ?t 1" using escape_head [OF assms] by (auto simp: is_char_boundary_def)
  have "?t ! (?n + 1) = ch_dquote" by (simp add: nth_append)
  then have last: "is_char_boundary ?t (?n + 1)" by (simp add: is_char_boundary_def is_continuation_def byte_of_def ch_dquote_def)
  have "str_slice ?t 1 (?n + 1) = Some (escape s)" using first last by (simp add: str_slice_def)
  then show "lexer_string \<lparr>so_name = name, so_text = ?t\<rparr> (span_new 0 (?n + 2)) = Some (Inr s)"
    by (simp add: lexer_string_def span_new_def unescape_escape ok_or_def)
qed

theorem literal_roundtrip_witness:
  "quoted (escape [CHR ''a'', ch_dquote, ch_newline] @ ch_dquote # ''x'') = (True, 6)
   \<and> lexer_string \<lparr>so_name = ''t'', so_text = ch_dquote # escape [CHR ''a'', ch_dquote, ch_newline] @ ch_dquote # ''x''\<rparr> (span_new 0 7)
     = Some (Inr [CHR ''a'', ch_dquote, ch_newline])"
proof -
  have v: "utf8_valid [CHR ''a'', ch_dquote, ch_newline]"
    by (simp add: utf8_valid.simps byte_of_def ch_dquote_def ch_newline_def)
  have n: "length (escape [CHR ''a'', ch_dquote, ch_newline]) = 5" by (simp add: escape_def escaped_char_def ch_defs)
  show ?thesis using literal_roundtrip [OF v, of "''x''" "''t''"] by (simp add: n)
qed

end
