(* ===== verification/Lisp_Reader.thy ===== *)
theory Lisp_Reader
  imports Lisp_Text
begin

text \<open>
  The reader of the Lisp library (\<open>crates/lisp/src/syntax/reader.rs\<close>): tokens to an arena
  of nodes.

  The lexer is generated by the Logos package from the patterns in \<open>syntax/lexer.rs\<close>; the
  tokens it yields, with their spans, are an argument. The stack of open frames is a list
  with the innermost frame first; the arena is a list in the order of insertion. A failing
  index or slice is the result \<open>None\<close>.
\<close>

section \<open>Data\<close>

datatype token =
    TOpen | TShut | TQuote | TDot | TTrue | TFalse | TBytes | TInteger | TString bool | TSymbol

datatype atom = AInteger int | ABoolean bool | AString string | ASymbol string | ABytes string

datatype datum = DAtom atom | DList "nat list" "nat option" | DQuote nat

record node =
  nd_datum :: datum
  nd_span :: span

record form =
  fm_source :: source
  fm_nodes :: "node list"
  fm_root :: nat
  fm_depth :: nat

definition form_span :: "form \<Rightarrow> span" where
  "form_span f = nd_span (fm_nodes f ! fm_root f)"

datatype read_state = Complete form nat | More | End

record reader =
  rd_input_limit :: nat
  rd_depth_limit :: nat

definition reader_default :: reader where
  "reader_default = \<lparr>rd_input_limit = 64 * 1024, rd_depth_limit = 1024\<rparr>"

datatype read_frame = FQuote span | FList span "nat list" "nat option" bool bool

datatype outcome = Halt "diagnostic + read_state" | Go "read_frame list" "node list" nat

section \<open>Reading\<close>

text \<open>The bytes of a byte literal; the error names the first item that is not a byte.\<close>

fun literal_bytes :: "source \<Rightarrow> node list \<Rightarrow> nat list \<Rightarrow> (diagnostic + string) option" where
  "literal_bytes s nodes [] = Some (Inr [])"
| "literal_bytes s nodes (i # items) =
     (if i \<ge> length nodes then None
      else case nd_datum (nodes ! i) of
             DAtom (AInteger n) \<Rightarrow>
               if 0 \<le> n \<and> n \<le> 255 then
                 map_option (\<lambda>r. rbind r (\<lambda>out. Inr (char_of (nat n) # out))) (literal_bytes s nodes items)
               else Some (Inl (diagnostic_new EType ''byte literal requires integers from 0 to 255'' s (nd_span (nodes ! i))))
           | _ \<Rightarrow> Some (Inl (diagnostic_new EType ''byte literal requires integers from 0 to 255'' s (nd_span (nodes ! i)))))"

text \<open>The loop that hands a finished node to the innermost frame.\<close>

fun attach :: "source \<Rightarrow> span \<Rightarrow> nat \<Rightarrow> nat \<Rightarrow> read_frame list \<Rightarrow> node list \<Rightarrow> outcome option" where
  "attach s sp depth i [] nodes =
     (if i \<ge> length nodes then None
      else Some (Halt (Inr (Complete \<lparr>fm_source = s, fm_nodes = nodes, fm_root = i, fm_depth = depth\<rparr>
                               (sp_end (nd_span (nodes ! i)))))))"
| "attach s sp depth i (FQuote start # frames) nodes =
     (if i \<ge> length nodes then None
      else attach s sp depth (length nodes) frames
             (nodes @ [\<lparr>nd_datum = DQuote i, nd_span = span_new (sp_start start) (sp_end (nd_span (nodes ! i)))\<rparr>]))"
| "attach s sp depth i (FList start items tail dot bytes # frames) nodes =
     (if dot then
        if tail \<noteq> None then Some (Halt (Inl (diagnostic_new ESyntax ''more than one dotted tail'' s sp)))
        else Some (Go (FList start items (Some i) dot bytes # frames) nodes depth)
      else Some (Go (FList start (items @ [i]) tail dot bytes # frames) nodes depth))"

definition finish_node ::
  "source \<Rightarrow> span \<Rightarrow> nat \<Rightarrow> read_frame list \<Rightarrow> node list \<Rightarrow> node \<Rightarrow> outcome option" where
  "finish_node s sp depth frames nodes nd = attach s sp depth (length nodes) frames (nodes @ [nd])"

definition open_frame ::
  "reader \<Rightarrow> source \<Rightarrow> span \<Rightarrow> nat \<Rightarrow> read_frame list \<Rightarrow> node list \<Rightarrow> read_frame \<Rightarrow> outcome option" where
  "open_frame r s sp depth frames nodes fr =
     (if length frames \<ge> rd_depth_limit r
      then Some (Halt (Inl (diagnostic_new EResourceLimit ''reader depth exceeded'' s sp)))
      else Some (Go (fr # frames) nodes (max depth (length (fr # frames)))))"

definition shut_frame ::
  "source \<Rightarrow> span \<Rightarrow> nat \<Rightarrow> read_frame list \<Rightarrow> node list \<Rightarrow> outcome option" where
  "shut_frame s sp depth frames nodes =
     (case frames of
        FList start items tail dot bytes # rest \<Rightarrow>
          if dot \<and> tail = None then Some (Halt (Inl (diagnostic_new ESyntax ''missing dotted tail'' s sp)))
          else (case (if bytes then map_option (\<lambda>r. rbind r (\<lambda>out. Inr (DAtom (ABytes out)))) (literal_bytes s nodes items)
                      else Some (Inr (DList items tail))) of
                  None \<Rightarrow> None
                | Some (Inl e) \<Rightarrow> Some (Halt (Inl e))
                | Some (Inr d) \<Rightarrow>
                    finish_node s sp depth rest nodes
                      \<lparr>nd_datum = d, nd_span = span_new (sp_start start) (sp_end sp)\<rparr>)
      | _ \<Rightarrow> Some (Halt (Inl (diagnostic_new ESyntax ''unexpected closing parenthesis'' s sp))))"

definition dot_frame :: "source \<Rightarrow> span \<Rightarrow> nat \<Rightarrow> read_frame list \<Rightarrow> node list \<Rightarrow> outcome option" where
  "dot_frame s sp depth frames nodes =
     (case frames of
        FList start items tail dot bytes # rest \<Rightarrow>
          if \<not> bytes \<and> items \<noteq> [] \<and> \<not> dot
          then Some (Go (FList start items tail True bytes # rest) nodes depth)
          else Some (Halt (Inl (diagnostic_new ESyntax ''misplaced dot'' s sp)))
      | _ \<Rightarrow> Some (Halt (Inl (diagnostic_new ESyntax ''misplaced dot'' s sp))))"

text \<open>The atom of a token that is one.\<close>

definition token_atom :: "source \<Rightarrow> token \<Rightarrow> span \<Rightarrow> (diagnostic + atom) option" where
  "token_atom s tk sp =
     (case tk of
        TTrue \<Rightarrow> Some (Inr (ABoolean True))
      | TFalse \<Rightarrow> Some (Inr (ABoolean False))
      | TInteger \<Rightarrow>
          map_option (\<lambda>w. rbind (ok_or (parse_i64 w) (diagnostic_new EArithmetic ''integer outside i64 range'' s sp))
                           (\<lambda>n. Inr (AInteger n)))
            (str_slice (so_text s) (sp_start sp) (sp_end sp))
      | TString True \<Rightarrow> map_option (\<lambda>r. rbind r (\<lambda>w. Inr (AString w))) (lexer_string s sp)
      | TSymbol \<Rightarrow> map_option (\<lambda>w. Inr (ASymbol w)) (str_slice (so_text s) (sp_start sp) (sp_end sp))
      | _ \<Rightarrow> None)"

definition read_token ::
  "reader \<Rightarrow> source \<Rightarrow> bool \<Rightarrow> token option \<times> span \<Rightarrow> read_frame list \<Rightarrow> node list \<Rightarrow> nat \<Rightarrow> outcome option" where
  "read_token r s eof ts frames nodes depth =
     (case ts of (t, sp) \<Rightarrow>
        case t of
          None \<Rightarrow> Some (Halt (Inl (diagnostic_new ELexical ''unrecognized token'' s sp)))
        | Some tk \<Rightarrow>
            (case tk of
               TString False \<Rightarrow>
                 map_option (\<lambda>res. Halt (rbind res (\<lambda>_.
                     if eof then Inl (diagnostic_new ESyntax ''unfinished string'' s sp) else Inr More)))
                   (unfinished s sp)
             | TOpen \<Rightarrow> open_frame r s sp depth frames nodes (FList sp [] None False False)
             | TBytes \<Rightarrow> open_frame r s sp depth frames nodes (FList sp [] None False True)
             | TQuote \<Rightarrow> open_frame r s sp depth frames nodes (FQuote sp)
             | TDot \<Rightarrow> dot_frame s sp depth frames nodes
             | TShut \<Rightarrow> shut_frame s sp depth frames nodes
             | _ \<Rightarrow>
                 (case token_atom s tk sp of
                    None \<Rightarrow> None
                  | Some (Inl e) \<Rightarrow> Some (Halt (Inl e))
                  | Some (Inr a) \<Rightarrow> finish_node s sp depth frames nodes \<lparr>nd_datum = DAtom a, nd_span = sp\<rparr>)))"

fun read_loop ::
  "reader \<Rightarrow> source \<Rightarrow> bool \<Rightarrow> (token option \<times> span) list \<Rightarrow> read_frame list \<Rightarrow> node list \<Rightarrow> nat
     \<Rightarrow> (diagnostic + read_state) option" where
  "read_loop r s eof [] frames nodes depth =
     Some (if frames = [] then Inr End
           else if \<not> eof then Inr More
           else Inl (diagnostic_new ESyntax ''unfinished expression'' s
                       (span_new (length (so_text s)) (length (so_text s)))))"
| "read_loop r s eof (ts # toks) frames nodes depth =
     (case read_token r s eof ts frames nodes depth of
        None \<Rightarrow> None
      | Some (Halt res) \<Rightarrow> Some res
      | Some (Go frames' nodes' depth') \<Rightarrow> read_loop r s eof toks frames' nodes' depth')"

definition reader_read ::
  "reader \<Rightarrow> source \<Rightarrow> bool \<Rightarrow> (token option \<times> span) list \<Rightarrow> (diagnostic + read_state) option" where
  "reader_read r s eof toks =
     (if length (so_text s) > rd_input_limit r
      then Some (Inl (diagnostic_new EResourceLimit ''input limit exceeded'' s span_default))
      else read_loop r s eof toks [] [] 0)"

section \<open>The tree an arena holds\<close>

datatype sexp = SAtom atom | SList "sexp list" "sexp option" | SQuote sexp

definition node_children :: "node \<Rightarrow> nat list" where
  "node_children nd =
     (case nd_datum nd of
        DAtom _ \<Rightarrow> [] | DQuote j \<Rightarrow> [j]
      | DList items tail \<Rightarrow> items @ (case tail of None \<Rightarrow> [] | Some j \<Rightarrow> [j]))"

text \<open>Every node refers to earlier nodes only.\<close>

definition arena_ok :: "node list \<Rightarrow> bool" where
  "arena_ok nodes \<longleftrightarrow> (\<forall>i < length nodes. \<forall>j \<in> set (node_children (nodes ! i)). j < i)"

function tree :: "node list \<Rightarrow> nat \<Rightarrow> sexp" where
  "tree nodes i =
     (case nd_datum (nodes ! i) of
        DAtom a \<Rightarrow> SAtom a
      | DQuote j \<Rightarrow> SQuote (if j < i then tree nodes j else SAtom (ABoolean False))
      | DList items tail \<Rightarrow>
          SList (map (\<lambda>j. if j < i then tree nodes j else SAtom (ABoolean False)) items)
            (map_option (\<lambda>j. if j < i then tree nodes j else SAtom (ABoolean False)) tail))"
  by pat_completeness auto
termination by (relation "measure snd") auto

declare tree.simps [simp del]

lemma arena_child: "arena_ok nodes \<Longrightarrow> i < length nodes \<Longrightarrow> j \<in> set (node_children (nodes ! i)) \<Longrightarrow> j < i"
  by (auto simp: arena_ok_def)

lemma tree_atom: "nd_datum (nodes ! i) = DAtom a \<Longrightarrow> tree nodes i = SAtom a"
  by (simp add: tree.simps [of nodes i])

lemma tree_quote:
  "arena_ok nodes \<Longrightarrow> i < length nodes \<Longrightarrow> nd_datum (nodes ! i) = DQuote j \<Longrightarrow> tree nodes i = SQuote (tree nodes j)"
  using arena_child [of nodes i j] by (simp add: tree.simps [of nodes i] node_children_def)

lemma tree_list:
  assumes "arena_ok nodes" and "i < length nodes" and "nd_datum (nodes ! i) = DList items tail"
  shows "tree nodes i = SList (map (tree nodes) items) (map_option (tree nodes) tail)"
proof -
  have "\<forall>j \<in> set items. j < i" "\<forall>j. tail = Some j \<longrightarrow> j < i"
    using arena_child [OF assms(1,2)] assms(3) by (auto simp: node_children_def)
  then show ?thesis using assms(3) by (cases tail) (simp_all add: tree.simps [of nodes i])
qed

lemma tree_append: "arena_ok nodes \<Longrightarrow> i < length nodes \<Longrightarrow> tree (nodes @ ms) i = tree nodes i"
proof (induction i rule: less_induct)
  case (less i)
  have nth: "(nodes @ ms) ! i = nodes ! i" using less.prems by (simp add: nth_append)
  have child: "tree (nodes @ ms) j = tree nodes j" if "j \<in> set (node_children (nodes ! i))" for j
    using less arena_child [OF less.prems that] by simp
  show ?case
    unfolding tree.simps [of "nodes @ ms" i] tree.simps [of nodes i] nth
    using child by (auto simp: node_children_def split: datum.splits option.splits intro!: option.map_cong)
qed

lemma arena_append:
  "arena_ok nodes \<Longrightarrow> \<forall>j \<in> set (node_children nd). j < length nodes \<Longrightarrow> arena_ok (nodes @ [nd])"
  by (auto simp: arena_ok_def nth_append less_Suc_eq)

lemma tree_new:
  assumes "arena_ok nodes" and "\<forall>j \<in> set (node_children nd). j < length nodes"
  shows "nd_datum nd = DAtom a \<Longrightarrow> tree (nodes @ [nd]) (length nodes) = SAtom a"
    and "nd_datum nd = DQuote j \<Longrightarrow> tree (nodes @ [nd]) (length nodes) = SQuote (tree nodes j)"
    and "nd_datum nd = DList items tail \<Longrightarrow> tree (nodes @ [nd]) (length nodes) = SList (map (tree nodes) items) (map_option (tree nodes) tail)"
proof -
  note ok = arena_append [OF assms]
  show "nd_datum nd = DAtom a \<Longrightarrow> tree (nodes @ [nd]) (length nodes) = SAtom a" by (simp add: tree_atom)
  show "tree (nodes @ [nd]) (length nodes) = SQuote (tree nodes j)" if "nd_datum nd = DQuote j"
    using tree_quote [OF ok, of "length nodes" j] tree_append [OF assms(1), of j "[nd]"] assms(2) that by (simp add: node_children_def)
  show "tree (nodes @ [nd]) (length nodes) = SList (map (tree nodes) items) (map_option (tree nodes) tail)"
    if "nd_datum nd = DList items tail"
    using tree_list [OF ok, of "length nodes" items tail] tree_append [OF assms(1), of _ "[nd]"] assms(2) that
    by (cases tail) (auto simp: node_children_def)
qed

section \<open>The grammar\<close>

definition byte_item :: "char \<Rightarrow> sexp \<Rightarrow> bool" where
  "byte_item c x \<longleftrightarrow> x = SAtom (AInteger (int (of_char c)))"

text \<open>The tokens that spell a datum whose brackets and quotes nest at most \<open>d\<close> deep.\<close>

inductive spells :: "source \<Rightarrow> nat \<Rightarrow> (token option \<times> span) list \<Rightarrow> sexp \<Rightarrow> bool" for s where
  spells_atom: "token_atom s tk sp = Some (Inr a) \<Longrightarrow> spells s d [(Some tk, sp)] (SAtom a)"
| spells_quote: "spells s d ts x \<Longrightarrow> spells s (Suc d) ((Some TQuote, sp) # ts) (SQuote x)"
| spells_list: "list_all2 (spells s d) tss xs \<Longrightarrow>
    spells s (Suc d) ((Some TOpen, sp) # concat tss @ [(Some TShut, sp')]) (SList xs None)"
| spells_dotted: "list_all2 (spells s d) tss xs \<Longrightarrow> xs \<noteq> [] \<Longrightarrow> spells s d ts y \<Longrightarrow>
    spells s (Suc d) ((Some TOpen, sp) # concat tss @ (Some TDot, sp'') # ts @ [(Some TShut, sp')]) (SList xs (Some y))"
| spells_bytes: "list_all2 (spells s d) tss xs \<Longrightarrow> list_all2 byte_item out xs \<Longrightarrow>
    spells s (Suc d) ((Some TBytes, sp) # concat tss @ [(Some TShut, sp')]) (SAtom (ABytes out))"

lemma byte_item_char: "0 \<le> n \<Longrightarrow> n \<le> 255 \<Longrightarrow> byte_item (char_of (nat n)) (SAtom (AInteger n))"
  by (simp add: byte_item_def)

lemma literal_bytes_ok:
  assumes "arena_ok nodes"
  shows "\<forall>i \<in> set items. i < length nodes \<Longrightarrow>
    \<exists>r. literal_bytes s nodes items = Some r \<and> (\<forall>out. r = Inr out \<longleftrightarrow> list_all2 byte_item out (map (tree nodes) items))"
proof (induction items)
  case (Cons i items)
  obtain r where r: "literal_bytes s nodes items = Some r" "\<And>out. r = Inr out \<longleftrightarrow> list_all2 byte_item out (map (tree nodes) items)"
    using Cons by auto
  have i: "i < length nodes" using Cons.prems by simp
  show ?case
  proof (cases "\<exists>n. nd_datum (nodes ! i) = DAtom (AInteger n) \<and> 0 \<le> n \<and> n \<le> 255")
    case True
    then obtain n where n: "nd_datum (nodes ! i) = DAtom (AInteger n)" "0 \<le> n" "n \<le> 255" by blast
    have c: "byte_item c (tree nodes i) \<longleftrightarrow> c = char_of (nat n)" for c
      using n by (auto simp: tree_atom [OF n(1)] byte_item_def)
    show ?thesis using i n r c by (cases r) (auto simp: list_all2_Cons2)
  next
    case False
    then have "\<exists>e. literal_bytes s nodes (i # items) = Some (Inl e)"
      using i by (auto split: datum.splits atom.splits)
    moreover have "\<not> byte_item c (tree nodes i)" for c
    proof
      assume b: "byte_item c (tree nodes i)"
      then obtain n where "nd_datum (nodes ! i) = DAtom (AInteger n)" "n = int (of_char c)"
        by (auto simp: byte_item_def tree.simps [of nodes i] split: datum.splits)
      moreover have "0 \<le> int (of_char c)" "int (of_char c) \<le> int 255"
        unfolding of_nat_le_iff using nat_of_char_less_256 [of c] by linarith+
      ultimately show False using False by (metis of_nat_numeral)
    qed
    ultimately show ?thesis by (auto simp: list_all2_Cons2)
  qed
qed auto

section \<open>Every spelled datum is read\<close>

definition proceed ::
  "reader \<Rightarrow> source \<Rightarrow> bool \<Rightarrow> (token option \<times> span) list \<Rightarrow> outcome option \<Rightarrow> (diagnostic + read_state) option" where
  "proceed r s eof toks oc =
     (case oc of None \<Rightarrow> None | Some (Halt res) \<Rightarrow> Some res
               | Some (Go frames nodes depth) \<Rightarrow> read_loop r s eof toks frames nodes depth)"

lemma loop_proceed: "read_loop r s eof (ts # toks) frames nodes depth = proceed r s eof toks (read_token r s eof ts frames nodes depth)"
  by (simp add: proceed_def)

declare read_loop.simps(2) [simp del]

lemma proceed_simps [simp]:
  "proceed r s eof toks (Some (Halt res)) = Some res"
  "proceed r s eof toks (Some (Go frames nodes depth)) = read_loop r s eof toks frames nodes depth"
  by (simp_all add: proceed_def)

text \<open>Reading \<open>ts\<close> hands a node for \<open>x\<close> to the frames that were open.\<close>

definition yields ::
  "reader \<Rightarrow> source \<Rightarrow> bool \<Rightarrow> nat \<Rightarrow> (token option \<times> span) list \<Rightarrow> sexp \<Rightarrow> bool" where
  "yields r s eof d ts x \<longleftrightarrow> (\<forall>frames nodes depth rest.
     arena_ok nodes \<and> length frames + d \<le> rd_depth_limit r \<longrightarrow>
     (\<exists>ms i sp depth'. arena_ok (nodes @ ms) \<and> i < length (nodes @ ms) \<and> tree (nodes @ ms) i = x
        \<and> read_loop r s eof (ts @ rest) frames nodes depth
          = proceed r s eof rest (attach s sp depth' i frames (nodes @ ms))))"

lemma yieldsD:
  assumes "yields r s eof d ts x" and "arena_ok nodes" and "length frames + d \<le> rd_depth_limit r"
  obtains ms i sp depth' where "arena_ok (nodes @ ms)" and "i < length (nodes @ ms)" and "tree (nodes @ ms) i = x"
    and "read_loop r s eof (ts @ rest) frames nodes depth = proceed r s eof rest (attach s sp depth' i frames (nodes @ ms))"
  using assms unfolding yields_def by meson

text \<open>Items go to the open list one after the other.\<close>

lemma read_items:
  assumes "list_all2 (\<lambda>ts x. yields r s eof d ts x) tss xs" and "arena_ok nodes" and "Suc (length frames) + d \<le> rd_depth_limit r"
    and "\<forall>i \<in> set items. i < length nodes"
  shows "\<exists>ms new depth'. arena_ok (nodes @ ms) \<and> (\<forall>i \<in> set new. i < length (nodes @ ms)) \<and> map (tree (nodes @ ms)) new = xs
    \<and> read_loop r s eof (concat tss @ rest) (FList st items None False bytes # frames) nodes depth
      = read_loop r s eof rest (FList st (items @ new) None False bytes # frames) (nodes @ ms) depth'"
  using assms
proof (induction arbitrary: nodes items depth)
  case Nil
  then show ?case by (intro exI [of _ "[]"]) auto
next
  case (Cons ts tss x xs)
  obtain ms i sp depth1 where a: "arena_ok (nodes @ ms)" "i < length (nodes @ ms)" "tree (nodes @ ms) i = x"
    "read_loop r s eof (ts @ concat tss @ rest) (FList st items None False bytes # frames) nodes depth
       = proceed r s eof (concat tss @ rest) (attach s sp depth1 i (FList st items None False bytes # frames) (nodes @ ms))"
    by (rule yieldsD [OF Cons.hyps(1) Cons.prems(1), of "FList st items None False bytes # frames"])
      (use Cons.prems(2) in auto)
  obtain ms2 new depth2 where b: "arena_ok ((nodes @ ms) @ ms2)" "\<forall>i \<in> set new. i < length ((nodes @ ms) @ ms2)"
    "map (tree ((nodes @ ms) @ ms2)) new = xs"
    "read_loop r s eof (concat tss @ rest) (FList st (items @ [i]) None False bytes # frames) (nodes @ ms) depth1
      = read_loop r s eof rest (FList st ((items @ [i]) @ new) None False bytes # frames) ((nodes @ ms) @ ms2) depth2"
    using Cons.IH [OF a(1) Cons.prems(2), of "items @ [i]" depth1] Cons.prems(3) a(2) by fastforce
  have "tree ((nodes @ ms) @ ms2) i = x" using tree_append [OF a(1,2), of ms2] a(3) by simp
  with a b show ?case
    by (intro exI [of _ "ms @ ms2"] exI [of _ "i # new"] exI [of _ depth2]) auto
qed

lemma finish_yields:
  assumes "arena_ok nodes" and "\<forall>j \<in> set (node_children nd). j < length nodes" and "tree (nodes @ [nd]) (length nodes) = x"
    and "oc = finish_node s sp depth frames nodes nd"
  shows "\<exists>ms i sp depth'. arena_ok (nodes @ ms) \<and> i < length (nodes @ ms) \<and> tree (nodes @ ms) i = x
    \<and> proceed r s eof rest oc = proceed r s eof rest (attach s sp depth' i frames (nodes @ ms))"
  using assms arena_append
  by (intro exI [of _ "[nd]"] exI [of _ "length nodes"] exI [of _ sp] exI [of _ depth]) (simp add: finish_node_def)

lemma shut_yields:
  assumes ok: "arena_ok nodes" and items: "\<forall>i \<in> set items. i < length nodes" and tail: "\<forall>j. tail = Some j \<longrightarrow> j < length nodes"
    and dot: "dot \<longrightarrow> tail \<noteq> None"
    and x: "if bytes then tail = None \<and> (\<exists>out. list_all2 byte_item out (map (tree nodes) items) \<and> x = SAtom (ABytes out))
            else x = SList (map (tree nodes) items) (map_option (tree nodes) tail)"
  shows "\<exists>ms i sp depth'. arena_ok (nodes @ ms) \<and> i < length (nodes @ ms) \<and> tree (nodes @ ms) i = x
    \<and> read_loop r s eof ((Some TShut, sp0) # rest) (FList st items tail dot bytes # frames) nodes depth
      = proceed r s eof rest (attach s sp depth' i frames (nodes @ ms))"
proof (cases bytes)
  case True
  then obtain out where out: "list_all2 byte_item out (map (tree nodes) items)" "x = SAtom (ABytes out)" using x by auto
  then have "literal_bytes s nodes items = Some (Inr out)" using literal_bytes_ok [OF ok items, of s] by auto
  then show ?thesis unfolding loop_proceed using ok out dot x True
    by (intro finish_yields [where nd = "\<lparr>nd_datum = DAtom (ABytes out), nd_span = span_new (sp_start st) (sp_end sp0)\<rparr>"])
      (auto simp: node_children_def tree_new read_token_def shut_frame_def)
next
  case False
  let ?nd = "\<lparr>nd_datum = DList items tail, nd_span = span_new (sp_start st) (sp_end sp0)\<rparr>"
  have ch: "\<forall>j \<in> set (node_children ?nd). j < length nodes"
    using items tail by (auto simp: node_children_def split: option.splits)
  show ?thesis unfolding loop_proceed using False dot x
    by (intro finish_yields [OF ok ch]) (auto simp: tree_new(3) [OF ok ch] read_token_def shut_frame_def)
qed

lemma open_list:
  assumes "length frames < rd_depth_limit r"
  shows "read_loop r s eof ((Some TOpen, sp) # toks) frames nodes depth
      = read_loop r s eof toks (FList sp [] None False False # frames) nodes (max depth (Suc (length frames)))"
    and "read_loop r s eof ((Some TBytes, sp) # toks) frames nodes depth
      = read_loop r s eof toks (FList sp [] None False True # frames) nodes (max depth (Suc (length frames)))"
    and "read_loop r s eof ((Some TQuote, sp) # toks) frames nodes depth
      = read_loop r s eof toks (FQuote sp # frames) nodes (max depth (Suc (length frames)))"
  using assms by (simp_all add: loop_proceed read_token_def open_frame_def)

lemma dotted_tail:
  assumes "items \<noteq> []"
  shows "read_loop r s eof ((Some TDot, sp) # toks) (FList st items None False False # frames) nodes depth
    = read_loop r s eof toks (FList st items None True False # frames) nodes depth"
  using assms by (simp add: loop_proceed read_token_def dot_frame_def)

lemma atom_token: "token_atom s tk sp = Some res \<Longrightarrow> tk \<notin> {TOpen, TShut, TQuote, TDot, TBytes, TString False}"
  by (auto simp: token_atom_def split: token.splits bool.splits)

lemma spells_yields: "spells s d ts x \<Longrightarrow> yields r s eof d ts x"
proof (induction rule: spells.induct)
  case (spells_atom tk sp a d)
  have "read_token r s eof (Some tk, sp) frames nodes depth = finish_node s sp depth frames nodes \<lparr>nd_datum = DAtom a, nd_span = sp\<rparr>"
    for frames nodes depth
    using spells_atom atom_token [OF spells_atom] by (cases tk) (auto simp: read_token_def split: bool.splits)
  then show ?case unfolding yields_def append_Cons append_Nil loop_proceed
    by (intro allI impI finish_yields [where nd = "\<lparr>nd_datum = DAtom a, nd_span = sp\<rparr>"])
      (auto simp: node_children_def tree_new)
next
  case (spells_quote d ts x sp)
  show ?case
    unfolding yields_def
  proof (intro allI impI)
    fix frames :: "read_frame list" and nodes depth rest
    assume h: "arena_ok nodes \<and> length frames + Suc d \<le> rd_depth_limit r"
    obtain ms i sp1 depth1 where a: "arena_ok (nodes @ ms)" "i < length (nodes @ ms)" "tree (nodes @ ms) i = x"
      "read_loop r s eof (ts @ rest) (FQuote sp # frames) nodes (max depth (Suc (length frames)))
         = proceed r s eof rest (attach s sp1 depth1 i (FQuote sp # frames) (nodes @ ms))"
      by (rule yieldsD [OF spells_quote.IH, of nodes "FQuote sp # frames"]) (use h in auto)
    let ?nd = "\<lparr>nd_datum = DQuote i, nd_span = span_new (sp_start sp) (sp_end (nd_span ((nodes @ ms) ! i)))\<rparr>"
    have "arena_ok ((nodes @ ms) @ [?nd])" "tree ((nodes @ ms) @ [?nd]) (length (nodes @ ms)) = SQuote x"
      using a arena_append [OF a(1), of ?nd] tree_new(2) [OF a(1), of ?nd i] by (auto simp: node_children_def)
    then show "\<exists>ms i sp' depth'. arena_ok (nodes @ ms) \<and> i < length (nodes @ ms) \<and> tree (nodes @ ms) i = SQuote x
        \<and> read_loop r s eof (((Some TQuote, sp) # ts) @ rest) frames nodes depth
          = proceed r s eof rest (attach s sp' depth' i frames (nodes @ ms))"
      using a h by (intro exI [of _ "ms @ [?nd]"] exI [of _ "length (nodes @ ms)"] exI [of _ sp1] exI [of _ depth1])
        (simp add: open_list)
  qed
next
  case (spells_list d tss xs sp sp')
  show ?case
    unfolding yields_def
  proof (intro allI impI)
    fix frames :: "read_frame list" and nodes depth rest
    assume h: "arena_ok nodes \<and> length frames + Suc d \<le> rd_depth_limit r"
    have l: "list_all2 (\<lambda>ts x. yields r s eof d ts x) tss xs" using spells_list by (rule list_all2_mono) simp
    from read_items [OF l, of nodes frames "[]" "(Some TShut, sp') # rest" sp False "max depth (Suc (length frames))"] h
    obtain ms new depth1 where b: "arena_ok (nodes @ ms)" "\<forall>i \<in> set new. i < length (nodes @ ms)" "map (tree (nodes @ ms)) new = xs"
      "read_loop r s eof (concat tss @ (Some TShut, sp') # rest) (FList sp [] None False False # frames) nodes (max depth (Suc (length frames)))
        = read_loop r s eof ((Some TShut, sp') # rest) (FList sp new None False False # frames) (nodes @ ms) depth1" by auto
    from shut_yields [OF b(1,2), of None False False "SList xs None" r s eof sp' rest sp frames depth1] b(3)
    obtain ms2 i sp2 depth2 where "arena_ok ((nodes @ ms) @ ms2)" "i < length ((nodes @ ms) @ ms2)" "tree ((nodes @ ms) @ ms2) i = SList xs None"
      "read_loop r s eof ((Some TShut, sp') # rest) (FList sp new None False False # frames) (nodes @ ms) depth1
        = proceed r s eof rest (attach s sp2 depth2 i frames ((nodes @ ms) @ ms2))" by auto
    with b(4) h show "\<exists>ms i sp'' depth'. arena_ok (nodes @ ms) \<and> i < length (nodes @ ms) \<and> tree (nodes @ ms) i = SList xs None
        \<and> read_loop r s eof (((Some TOpen, sp) # concat tss @ [(Some TShut, sp')]) @ rest) frames nodes depth
          = proceed r s eof rest (attach s sp'' depth' i frames (nodes @ ms))"
      by (intro exI [of _ "ms @ ms2"] exI [of _ i] exI [of _ sp2] exI [of _ depth2]) (simp add: open_list)
  qed
next
  case (spells_dotted d tss xs ts y sp sp'' sp')
  show ?case
    unfolding yields_def
  proof (intro allI impI)
    fix frames :: "read_frame list" and nodes depth rest
    assume h: "arena_ok nodes \<and> length frames + Suc d \<le> rd_depth_limit r"
    let ?rest = "(Some TDot, sp'') # ts @ (Some TShut, sp') # rest"
    have l: "list_all2 (\<lambda>ts x. yields r s eof d ts x) tss xs" using spells_dotted(1) by (rule list_all2_mono) simp
    from read_items [OF l, of nodes frames "[]" ?rest sp False "max depth (Suc (length frames))"] h
    obtain ms new depth1 where b: "arena_ok (nodes @ ms)" "\<forall>i \<in> set new. i < length (nodes @ ms)" "map (tree (nodes @ ms)) new = xs"
      "read_loop r s eof (concat tss @ ?rest) (FList sp [] None False False # frames) nodes (max depth (Suc (length frames)))
        = read_loop r s eof ?rest (FList sp new None False False # frames) (nodes @ ms) depth1" by auto
    have ne: "new \<noteq> []" using b(3) spells_dotted.hyps by auto
    obtain ms1 j sp1 depth2 where c: "arena_ok ((nodes @ ms) @ ms1)" "j < length ((nodes @ ms) @ ms1)" "tree ((nodes @ ms) @ ms1) j = y"
      "read_loop r s eof (ts @ (Some TShut, sp') # rest) (FList sp new None True False # frames) (nodes @ ms) depth1
         = proceed r s eof ((Some TShut, sp') # rest) (attach s sp1 depth2 j (FList sp new None True False # frames) ((nodes @ ms) @ ms1))"
      by (rule yieldsD [OF spells_dotted.IH(2) b(1), of "FList sp new None True False # frames"]) (use h in auto)
    have new: "\<forall>i \<in> set new. i < length ((nodes @ ms) @ ms1)" "map (tree ((nodes @ ms) @ ms1)) new = xs"
      using b(2,3) tree_append [OF b(1), of _ ms1] by auto
    from shut_yields [OF c(1) new(1), of "Some j" True False "SList xs (Some y)" r s eof sp' rest sp frames depth2] new(2) c(2,3)
    obtain ms2 i sp2 depth3 where "arena_ok (((nodes @ ms) @ ms1) @ ms2)" "i < length (((nodes @ ms) @ ms1) @ ms2)"
      "tree (((nodes @ ms) @ ms1) @ ms2) i = SList xs (Some y)"
      "read_loop r s eof ((Some TShut, sp') # rest) (FList sp new (Some j) True False # frames) ((nodes @ ms) @ ms1) depth2
        = proceed r s eof rest (attach s sp2 depth3 i frames (((nodes @ ms) @ ms1) @ ms2))" by auto
    with b(4) c(4) h ne show "\<exists>ms i sp3 depth'. arena_ok (nodes @ ms) \<and> i < length (nodes @ ms) \<and> tree (nodes @ ms) i = SList xs (Some y)
        \<and> read_loop r s eof (((Some TOpen, sp) # concat tss @ (Some TDot, sp'') # ts @ [(Some TShut, sp')]) @ rest) frames nodes depth
          = proceed r s eof rest (attach s sp3 depth' i frames (nodes @ ms))"
      by (intro exI [of _ "ms @ ms1 @ ms2"] exI [of _ i] exI [of _ sp2] exI [of _ depth3]) (simp add: open_list dotted_tail)
  qed
next
  case (spells_bytes d tss xs out sp sp')
  show ?case
    unfolding yields_def
  proof (intro allI impI)
    fix frames :: "read_frame list" and nodes depth rest
    assume h: "arena_ok nodes \<and> length frames + Suc d \<le> rd_depth_limit r"
    have l: "list_all2 (\<lambda>ts x. yields r s eof d ts x) tss xs" using spells_bytes(1) by (rule list_all2_mono) simp
    from read_items [OF l, of nodes frames "[]" "(Some TShut, sp') # rest" sp True "max depth (Suc (length frames))"] h
    obtain ms new depth1 where b: "arena_ok (nodes @ ms)" "\<forall>i \<in> set new. i < length (nodes @ ms)" "map (tree (nodes @ ms)) new = xs"
      "read_loop r s eof (concat tss @ (Some TShut, sp') # rest) (FList sp [] None False True # frames) nodes (max depth (Suc (length frames)))
        = read_loop r s eof ((Some TShut, sp') # rest) (FList sp new None False True # frames) (nodes @ ms) depth1" by auto
    from shut_yields [OF b(1,2), of None False True "SAtom (ABytes out)" r s eof sp' rest sp frames depth1] b(3) spells_bytes(2)
    obtain ms2 i sp2 depth2 where "arena_ok ((nodes @ ms) @ ms2)" "i < length ((nodes @ ms) @ ms2)" "tree ((nodes @ ms) @ ms2) i = SAtom (ABytes out)"
      "read_loop r s eof ((Some TShut, sp') # rest) (FList sp new None False True # frames) (nodes @ ms) depth1
        = proceed r s eof rest (attach s sp2 depth2 i frames ((nodes @ ms) @ ms2))" by auto
    with b(4) h show "\<exists>ms i sp'' depth'. arena_ok (nodes @ ms) \<and> i < length (nodes @ ms) \<and> tree (nodes @ ms) i = SAtom (ABytes out)
        \<and> read_loop r s eof (((Some TBytes, sp) # concat tss @ [(Some TShut, sp')]) @ rest) frames nodes depth
          = proceed r s eof rest (attach s sp'' depth' i frames (nodes @ ms))"
      by (intro exI [of _ "ms @ ms2"] exI [of _ i] exI [of _ sp2] exI [of _ depth2]) (simp add: open_list)
  qed
qed

section \<open>Only spelled data are read\<close>

text \<open>The tokens consumed so far, as the open frames remember them.\<close>

definition list_toks ::
  "source \<Rightarrow> nat \<Rightarrow> (nat \<Rightarrow> sexp) \<Rightarrow> span \<Rightarrow> nat list \<Rightarrow> nat option \<Rightarrow> bool \<Rightarrow> bool \<Rightarrow> (token option \<times> span) list \<Rightarrow> bool" where
  "list_toks s d tr st items tail dot bytes ts \<longleftrightarrow>
     (\<exists>tss. list_all2 (spells s d) tss (map tr items)
       \<and> (if dot then \<not> bytes \<and> items \<noteq> []
            \<and> (\<exists>sp tt. (case tail of None \<Rightarrow> tt = [] | Some j \<Rightarrow> spells s d tt (tr j))
                 \<and> ts = (Some TOpen, st) # concat tss @ (Some TDot, sp) # tt)
          else tail = None \<and> ts = (Some (if bytes then TBytes else TOpen), st) # concat tss))"

fun stacked :: "source \<Rightarrow> nat \<Rightarrow> node list \<Rightarrow> read_frame list \<Rightarrow> (token option \<times> span) list \<Rightarrow> bool" where
  "stacked s L nodes [] pre \<longleftrightarrow> pre = []"
| "stacked s L nodes (FQuote sp # fs) pre \<longleftrightarrow> length fs < L \<and> (\<exists>p. stacked s L nodes fs p \<and> pre = p @ [(Some TQuote, sp)])"
| "stacked s L nodes (FList st items tail dot bytes # fs) pre \<longleftrightarrow>
     length fs < L \<and> (\<forall>i \<in> set items. i < length nodes) \<and> (\<forall>j. tail = Some j \<longrightarrow> j < length nodes)
   \<and> (\<exists>p ts. stacked s L nodes fs p \<and> list_toks s (L - Suc (length fs)) (tree nodes) st items tail dot bytes ts \<and> pre = p @ ts)"

lemma list_toks_cong:
  assumes "\<forall>i \<in> set items. tr' i = tr i" and "\<forall>j. tail = Some j \<longrightarrow> tr' j = tr j"
  shows "list_toks s d tr' st items tail dot bytes ts = list_toks s d tr st items tail dot bytes ts"
proof -
  have "map tr' items = map tr items" using assms(1) by simp
  then show ?thesis unfolding list_toks_def using assms(2) by (cases tail) (simp_all only: option.case simp_thms)
qed

lemma list_toks_item:
  assumes "list_toks s d tr st items None False bytes ts" and "spells s d tt (tr i)"
  shows "list_toks s d tr st (items @ [i]) None False bytes (ts @ tt)"
proof -
  obtain tss where "list_all2 (spells s d) tss (map tr items)" "ts = (Some (if bytes then TBytes else TOpen), st) # concat tss"
    using assms(1) by (auto simp: list_toks_def)
  then show ?thesis unfolding list_toks_def using assms(2) by (intro exI [of _ "tss @ [tt]"]) (simp add: list_all2_appendI)
qed

lemma list_toks_tail:
  assumes "list_toks s d tr st items None True bytes ts" and "spells s d tt (tr i)"
  shows "list_toks s d tr st items (Some i) True bytes (ts @ tt)"
  using assms by (auto simp: list_toks_def)

lemma list_toks_dot:
  assumes "list_toks s d tr st items None False False ts" and "items \<noteq> []"
  shows "list_toks s d tr st items None True False (ts @ [(Some TDot, sp)])"
  using assms by (auto simp: list_toks_def)

lemma stacked_append: "arena_ok nodes \<Longrightarrow> stacked s L nodes fs pre \<Longrightarrow> stacked s L (nodes @ ms) fs pre"
proof (induction fs arbitrary: pre)
  case (Cons f fs)
  show ?case
  proof (cases f)
    case (FQuote sp)
    then show ?thesis using Cons by auto
  next
    case (FList st items tail dot bytes)
    then have b: "\<forall>i \<in> set items. i < length nodes" "\<forall>j. tail = Some j \<longrightarrow> j < length nodes" using Cons.prems by auto
    then have "list_toks s d (tree (nodes @ ms)) st items tail dot bytes ts = list_toks s d (tree nodes) st items tail dot bytes ts" for d ts
      using tree_append [OF Cons.prems(1)] by (intro list_toks_cong) auto
    then show ?thesis using Cons FList b by auto
  qed
qed simp

lemma stacked_length: "stacked s L nodes fs pre \<Longrightarrow> length fs \<le> L"
  by (induction s L nodes fs pre rule: stacked.induct) auto

definition read_ok :: "source \<Rightarrow> nat \<Rightarrow> (token option \<times> span) list \<Rightarrow> outcome option \<Rightarrow> bool" where
  "read_ok s L pre oc \<longleftrightarrow>
     (\<forall>fs nodes depth. oc = Some (Go fs nodes depth) \<longrightarrow> arena_ok nodes \<and> stacked s L nodes fs pre)
   \<and> (\<forall>f c. oc = Some (Halt (Inr (Complete f c))) \<longrightarrow>
        arena_ok (fm_nodes f) \<and> fm_root f < length (fm_nodes f) \<and> spells s L pre (tree (fm_nodes f) (fm_root f)))"

lemma read_ok_error [simp]: "read_ok s L pre (Some (Halt (Inl e)))" "read_ok s L pre (Some (Halt (Inr More)))" "read_ok s L pre None"
  by (simp_all add: read_ok_def)

lemma attach_ok:
  "arena_ok nodes \<Longrightarrow> i < length nodes \<Longrightarrow> stacked s L nodes fs pre \<Longrightarrow> spells s (L - length fs) ts (tree nodes i) \<Longrightarrow>
     read_ok s L (pre @ ts) (attach s sp depth i fs nodes) \<and> attach s sp depth i fs nodes \<noteq> None"
proof (induction s sp depth i fs nodes arbitrary: pre ts rule: attach.induct)
  case (1 s sp depth i nodes)
  then show ?case by (simp add: read_ok_def)
next
  case (2 s sp depth i start fs nodes)
  let ?nd = "\<lparr>nd_datum = DQuote i, nd_span = span_new (sp_start start) (sp_end (nd_span (nodes ! i)))\<rparr>"
  obtain p where p: "stacked s L nodes fs p" "pre = p @ [(Some TQuote, start)]" "length fs < L" using 2(4) by auto
  have ch: "\<forall>j \<in> set (node_children ?nd). j < length nodes" using 2(3) by (simp add: node_children_def)
  have x: "tree (nodes @ [?nd]) (length nodes) = SQuote (tree nodes i)" using tree_new(2) [OF 2(2) ch] by simp
  have "spells s (Suc (L - Suc (length fs))) ((Some TQuote, start) # ts) (SQuote (tree nodes i))"
    using 2(5) by (intro spells_quote) simp
  then have "spells s (L - length fs) ((Some TQuote, start) # ts) (tree (nodes @ [?nd]) (length nodes))" using p(3) x by (simp add: Suc_diff_Suc)
  from 2(1) [OF _ arena_append [OF 2(2) ch] _ stacked_append [OF 2(2) p(1)] this] 2(3) p(2) show ?case by simp
next
  case (3 s sp depth i start items tail dot bytes fs nodes)
  obtain p u where p: "stacked s L nodes fs p" "list_toks s (L - Suc (length fs)) (tree nodes) start items tail dot bytes u" "pre = p @ u"
    using 3(3) by auto
  have sp: "spells s (L - Suc (length fs)) ts (tree nodes i)" using 3(4) by simp
  show ?case
  proof (cases dot)
    case True
    then show ?thesis using p 3(1-3) list_toks_tail [of s _ "tree nodes" _ _ _ _ ts i, OF _ sp] by (cases tail) (auto simp: read_ok_def)
  next
    case False
    then have "tail = None" using p(2) by (auto simp: list_toks_def)
    then show ?thesis using False p 3(1-3) list_toks_item [of s _ "tree nodes" _ _ _ _ ts i, OF _ sp] by (auto simp: read_ok_def)
  qed
qed

lemma finish_ok:
  assumes "arena_ok nodes" and "\<forall>j \<in> set (node_children nd). j < length nodes" and "stacked s L nodes fs pre"
    and "spells s (L - length fs) ts (tree (nodes @ [nd]) (length nodes))"
  shows "read_ok s L (pre @ ts) (finish_node s sp depth fs nodes nd) \<and> finish_node s sp depth fs nodes nd \<noteq> None"
  unfolding finish_node_def
  by (rule attach_ok [OF arena_append [OF assms(1,2)] _ stacked_append [OF assms(1,3)] assms(4)]) simp

lemma shut_ok:
  assumes ok: "arena_ok nodes" and st: "stacked s L nodes frames pre"
  shows "read_ok s L (pre @ [(Some TShut, sp)]) (shut_frame s sp depth frames nodes) \<and> shut_frame s sp depth frames nodes \<noteq> None"
proof (cases frames)
  case (Cons f fs)
  show ?thesis
  proof (cases f)
    case (FList start items tail dot bytes)
    let ?d = "L - Suc (length fs)"
    have b: "\<forall>i \<in> set items. i < length nodes" "\<forall>j. tail = Some j \<longrightarrow> j < length nodes" and L: "Suc ?d = L - length fs"
      using st Cons FList by auto
    obtain p u where p: "stacked s L nodes fs p" "list_toks s ?d (tree nodes) start items tail dot bytes u" "pre = p @ u"
      using st Cons FList by auto
    have list: "read_ok s L (pre @ [(Some TShut, sp)]) (finish_node s sp depth fs nodes nd) \<and> finish_node s sp depth fs nodes nd \<noteq> None"
      if "\<forall>j \<in> set (node_children nd). j < length nodes" "spells s (Suc ?d) (u @ [(Some TShut, sp)]) (tree (nodes @ [nd]) (length nodes))" for nd
      using finish_ok [OF ok that(1) p(1), of "u @ [(Some TShut, sp)]" sp depth] that(2) L p(3) by simp
    show ?thesis
    proof (cases "dot \<and> tail = None")
      case True
      then show ?thesis using Cons FList by (simp add: shut_frame_def)
    next
      case False
      obtain tss where tss: "list_all2 (spells s ?d) tss (map (tree nodes) items)"
        and t0: "if dot then \<not> bytes \<and> items \<noteq> [] \<and> (\<exists>sp tt. (case tail of None \<Rightarrow> tt = [] | Some j \<Rightarrow> spells s ?d tt (tree nodes j))
               \<and> u = (Some TOpen, start) # concat tss @ (Some TDot, sp) # tt)
           else tail = None \<and> u = (Some (if bytes then TBytes else TOpen), start) # concat tss"
        using p(2) unfolding list_toks_def by (elim exE conjE)
      have t2: "if dot then \<not> bytes \<and> items \<noteq> [] \<and> (\<exists>sp tt j. tail = Some j \<and> spells s ?d tt (tree nodes j) \<and> u = (Some TOpen, start) # concat tss @ (Some TDot, sp) # tt)
         else tail = None \<and> u = (Some (if bytes then TBytes else TOpen), start) # concat tss"
        using t0 False by (cases dot; cases tail) auto
      note tss = tss t2
      show ?thesis
      proof (cases bytes)
        case True
        then have nd: "\<not> dot" "tail = None" "u = (Some TBytes, start) # concat tss" using tss(2) by (auto split: if_splits)
        obtain r where r: "literal_bytes s nodes items = Some r" "\<And>out. r = Inr out \<longleftrightarrow> list_all2 byte_item out (map (tree nodes) items)"
          using literal_bytes_ok [OF ok b(1), of s] by blast
        show ?thesis
        proof (cases r)
          case (Inl e)
          then show ?thesis using r Cons FList True nd by (simp add: shut_frame_def)
        next
          case (Inr out)
          let ?nd = "\<lparr>nd_datum = DAtom (ABytes out), nd_span = span_new (sp_start start) (sp_end sp)\<rparr>"
          have "list_all2 byte_item out (map (tree nodes) items)" by (rule r(2) [THEN iffD1, OF Inr])
          from spells_bytes [OF tss(1) this, of start sp] nd(3)
          have "spells s (Suc ?d) (u @ [(Some TShut, sp)]) (SAtom (ABytes out))" by simp
          then have "spells s (Suc ?d) (u @ [(Some TShut, sp)]) (tree (nodes @ [?nd]) (length nodes))"
            using tree_new(1) [OF ok, of ?nd] by (simp add: node_children_def)
          then show ?thesis using list [of ?nd] r(1) Inr Cons FList True nd by (simp add: shut_frame_def node_children_def)
        qed
      next
        case nb: False
        let ?nd = "\<lparr>nd_datum = DList items tail, nd_span = span_new (sp_start start) (sp_end sp)\<rparr>"
        have ch: "\<forall>j \<in> set (node_children ?nd). j < length nodes" using b by (auto simp: node_children_def split: option.splits)
        have "spells s (Suc ?d) (u @ [(Some TShut, sp)]) (SList (map (tree nodes) items) (map_option (tree nodes) tail))"
        proof (cases dot)
          case True
          then obtain sd tt j where "tail = Some j" "spells s ?d tt (tree nodes j)" "u = (Some TOpen, start) # concat tss @ (Some TDot, sd) # tt" "items \<noteq> []"
            using tss(2) by auto
          then show ?thesis using spells_dotted [OF tss(1), of tt "tree nodes j" start sd sp] by simp
        next
          case False
          then show ?thesis using spells_list [OF tss(1), of start sp] tss(2) nb by simp
        qed
        then show ?thesis using list [OF ch] tree_new(3) [OF ok ch] Cons FList nb False by (simp add: shut_frame_def)
      qed
    qed
  qed (simp add: Cons shut_frame_def)
qed (simp add: shut_frame_def)

lemma open_ok:
  assumes "arena_ok nodes" and "stacked s (rd_depth_limit r) nodes frames pre"
  shows "read_ok s (rd_depth_limit r) (pre @ [(Some TOpen, sp)]) (open_frame r s sp depth frames nodes (FList sp [] None False False))"
    and "read_ok s (rd_depth_limit r) (pre @ [(Some TBytes, sp)]) (open_frame r s sp depth frames nodes (FList sp [] None False True))"
    and "read_ok s (rd_depth_limit r) (pre @ [(Some TQuote, sp)]) (open_frame r s sp depth frames nodes (FQuote sp))"
  using assms by (auto simp: open_frame_def read_ok_def list_toks_def)

lemma dot_ok:
  assumes "arena_ok nodes" and "stacked s L nodes frames pre"
  shows "read_ok s L (pre @ [(Some TDot, sp)]) (dot_frame s sp depth frames nodes) \<and> dot_frame s sp depth frames nodes \<noteq> None"
proof (cases "\<exists>st items tail fs. frames = FList st items tail False False # fs \<and> items \<noteq> []")
  case True
  then obtain st items tail fs where f: "frames = FList st items tail False False # fs" "items \<noteq> []" by blast
  obtain p u where p: "stacked s L nodes fs p" "list_toks s (L - Suc (length fs)) (tree nodes) st items tail False False u" "pre = p @ u"
    using assms(2) f by auto
  then have t: "tail = None" by (auto simp: list_toks_def)
  have "stacked s L nodes (FList st items tail True False # fs) (pre @ [(Some TDot, sp)])"
    using assms(2) f p(1,3) list_toks_dot [OF p(2) [unfolded t] f(2), of sp] t by auto
  then show ?thesis using assms(1) f by (simp add: dot_frame_def read_ok_def)
next
  case False
  then have "\<exists>e. dot_frame s sp depth frames nodes = Some (Halt (Inl e))"
    by (auto simp: dot_frame_def split: list.splits read_frame.splits)
  then show ?thesis by auto
qed

lemma token_ok:
  assumes ok: "arena_ok nodes" and st: "stacked s (rd_depth_limit r) nodes frames pre"
  shows "read_ok s (rd_depth_limit r) (pre @ [ts]) (read_token r s eof ts frames nodes depth)"
proof -
  obtain t sp where ts: "ts = (t, sp)" by (cases ts)
  show ?thesis
  proof (cases t)
    case (Some tk)
    show ?thesis
    proof (cases "tk \<in> {TOpen, TShut, TQuote, TDot, TBytes, TString False}")
      case True
      show ?thesis
      proof (cases "tk = TString False")
        case True
        then show ?thesis using ts Some
          by (cases "unfinished s sp"; cases "the (unfinished s sp)"; cases eof) (simp_all add: read_token_def)
      next
        case False
        with True show ?thesis using open_ok [OF ok st] dot_ok [OF ok st] shut_ok [OF ok st] ts Some
          by (elim insertE) (simp_all add: read_token_def)
      qed
    next
      case False
      show ?thesis
      proof (cases "token_atom s tk sp")
        case None
        then show ?thesis using False ts Some by (cases tk) (auto simp: read_token_def split: bool.splits)
      next
        case res: (Some res)
        show ?thesis
        proof (cases res)
          case (Inl e)
          then show ?thesis using False ts Some res by (cases tk) (auto simp: read_token_def split: bool.splits)
        next
          case (Inr a)
          let ?nd = "\<lparr>nd_datum = DAtom a, nd_span = sp\<rparr>"
          have "read_token r s eof ts frames nodes depth = finish_node s sp depth frames nodes ?nd"
            using False ts Some res Inr by (cases tk) (auto simp: read_token_def split: bool.splits)
          moreover have "spells s (rd_depth_limit r - length frames) [ts] (tree (nodes @ [?nd]) (length nodes))"
            using spells_atom [of s tk sp a] res Inr tree_new(1) [OF ok, of ?nd a] ts Some by (simp add: node_children_def)
          ultimately show ?thesis using finish_ok [OF ok _ st, of ?nd "[ts]" sp depth] by (simp add: node_children_def)
        qed
      qed
    qed
  qed (simp add: ts read_token_def)
qed

lemma loop_sound:
  "arena_ok nodes \<Longrightarrow> stacked s (rd_depth_limit r) nodes frames pre \<Longrightarrow>
     read_loop r s eof toks frames nodes depth = Some (Inr (Complete f c)) \<Longrightarrow>
     \<exists>p q. toks = p @ q \<and> arena_ok (fm_nodes f) \<and> fm_root f < length (fm_nodes f)
       \<and> spells s (rd_depth_limit r) (pre @ p) (tree (fm_nodes f) (fm_root f))"
proof (induction toks arbitrary: frames nodes depth pre)
  case Nil
  then show ?case by (simp split: if_splits)
next
  case (Cons ts toks)
  note ok = token_ok [OF Cons.prems(1,2), of ts eof depth]
  show ?case
  proof (cases "read_token r s eof ts frames nodes depth")
    case None
    then show ?thesis using Cons.prems(3) by (simp add: loop_proceed proceed_def)
  next
    case (Some oc)
    show ?thesis
    proof (cases oc)
      case (Halt res)
      then have "res = Inr (Complete f c)" using Cons.prems(3) Some by (simp add: loop_proceed)
      then show ?thesis using ok Some Halt by (intro exI [of _ "[ts]"] exI [of _ toks]) (simp add: read_ok_def)
    next
      case (Go frames' nodes' depth')
      then have "read_loop r s eof toks frames' nodes' depth' = Some (Inr (Complete f c))"
        using Cons.prems(3) Some by (simp add: loop_proceed)
      with Cons.IH [of nodes' frames' "pre @ [ts]" depth'] ok Some Go obtain p q where
        "toks = p @ q" "arena_ok (fm_nodes f)" "fm_root f < length (fm_nodes f)"
        "spells s (rd_depth_limit r) ((pre @ [ts]) @ p) (tree (fm_nodes f) (fm_root f))" by (auto simp: read_ok_def)
      then show ?thesis by (intro exI [of _ "ts # p"] exI [of _ q]) simp
    qed
  qed
qed

lemma reader_completes:
  assumes "length (so_text s) \<le> rd_input_limit r" and "spells s (rd_depth_limit r) p x"
  shows "\<exists>f c. reader_read r s eof (p @ q) = Some (Inr (Complete f c)) \<and> arena_ok (fm_nodes f)
      \<and> fm_root f < length (fm_nodes f) \<and> tree (fm_nodes f) (fm_root f) = x"
proof -
  obtain ms i sp depth' where y: "arena_ok ([] @ ms)" "i < length ([] @ ms)" "tree ([] @ ms) i = x"
    "read_loop r s eof (p @ q) [] [] 0 = proceed r s eof q (attach s sp depth' i [] ([] @ ms))"
    by (rule yieldsD [OF spells_yields [OF assms(2), of r eof], of "[]" "[]"]) (simp_all add: arena_ok_def)
  then show ?thesis using assms(1) by (simp add: reader_read_def)
qed

text \<open>
  C33: the reader completes a form exactly when a prefix of the tokens spells a datum
  whose brackets and quotes nest no deeper than the limit, and the arena it returns
  holds that datum.
\<close>

theorem reader_correct:
  "(\<exists>f c. reader_read r s eof toks = Some (Inr (Complete f c)) \<and> arena_ok (fm_nodes f)
      \<and> fm_root f < length (fm_nodes f) \<and> tree (fm_nodes f) (fm_root f) = x)
   = (length (so_text s) \<le> rd_input_limit r \<and> (\<exists>p q. toks = p @ q \<and> spells s (rd_depth_limit r) p x))"
proof
  assume "\<exists>f c. reader_read r s eof toks = Some (Inr (Complete f c)) \<and> arena_ok (fm_nodes f)
      \<and> fm_root f < length (fm_nodes f) \<and> tree (fm_nodes f) (fm_root f) = x"
  then obtain f c where f: "reader_read r s eof toks = Some (Inr (Complete f c))" "tree (fm_nodes f) (fm_root f) = x" by blast
  then have run: "length (so_text s) \<le> rd_input_limit r" "read_loop r s eof toks [] [] 0 = Some (Inr (Complete f c))"
    by (auto simp: reader_read_def split: if_splits)
  then show "length (so_text s) \<le> rd_input_limit r \<and> (\<exists>p q. toks = p @ q \<and> spells s (rd_depth_limit r) p x)"
    using loop_sound [OF _ _ run(2), of "[]"] f(2) by (auto simp: arena_ok_def [of "[]"])
next
  assume "length (so_text s) \<le> rd_input_limit r \<and> (\<exists>p q. toks = p @ q \<and> spells s (rd_depth_limit r) p x)"
  then show "\<exists>f c. reader_read r s eof toks = Some (Inr (Complete f c)) \<and> arena_ok (fm_nodes f)
      \<and> fm_root f < length (fm_nodes f) \<and> tree (fm_nodes f) (fm_root f) = x"
    using reader_completes by blast
qed

section \<open>Reading never panics\<close>

text \<open>
  What the reader relies on in the lexer: the text is valid, the span of a token is not
  empty, lies in the text and ends at character boundaries, and a string token begins
  with a quote and, when it is closed, ends with another one.
\<close>

definition scan_ok :: "source \<Rightarrow> (token option \<times> span) list \<Rightarrow> bool" where
  "scan_ok s toks \<longleftrightarrow> utf8_valid (so_text s) \<and> (\<forall>(t, sp) \<in> set toks.
     sp_start sp < sp_end sp \<and> sp_end sp \<le> length (so_text s)
   \<and> is_char_boundary (so_text s) (sp_start sp) \<and> is_char_boundary (so_text s) (sp_end sp)
   \<and> (\<forall>b. t = Some (TString b) \<longrightarrow> so_text s ! sp_start sp = ch_dquote
        \<and> (b \<longrightarrow> sp_start sp + 2 \<le> sp_end sp \<and> so_text s ! (sp_end sp - 1) = ch_dquote)))"

lemma dquote_byte: "byte_of ch_dquote = 34"
  by (simp add: byte_of_def ch_dquote_def)

lemma scan_tokens:
  assumes "scan_ok s toks" and "(Some tk, sp) \<in> set toks"
  shows "tk \<notin> {TOpen, TShut, TQuote, TDot, TBytes, TString False} \<Longrightarrow> token_atom s tk sp \<noteq> None"
    and "tk = TString False \<Longrightarrow> unfinished s sp \<noteq> None"
proof -
  let ?t = "so_text s"
  have v: "utf8_valid ?t" and sp: "sp_start sp < sp_end sp" "sp_end sp \<le> length ?t"
    "is_char_boundary ?t (sp_start sp)" "is_char_boundary ?t (sp_end sp)"
    and str: "\<And>b. tk = TString b \<Longrightarrow> ?t ! sp_start sp = ch_dquote \<and> (b \<longrightarrow> sp_start sp + 2 \<le> sp_end sp \<and> ?t ! (sp_end sp - 1) = ch_dquote)"
    using assms by (auto simp: scan_ok_def)
  have slice: "str_slice ?t (sp_start sp) (sp_end sp) \<noteq> None" using sp by (simp add: str_slice_def)
  have start: "is_char_boundary ?t (sp_start sp + 1)" if "tk = TString b" for b
    using ascii_then_boundary [OF v, of "sp_start sp"] str [OF that] sp dquote_byte by simp
  have "lexer_string s sp \<noteq> None" if "tk = TString True"
  proof -
    have e: "sp_start sp + 2 \<le> sp_end sp" "?t ! (sp_end sp - 1) = ch_dquote" using str [OF that] by auto
    then have "is_char_boundary ?t (sp_end sp - 1)"
      using sp by (auto simp: is_char_boundary_def is_continuation_def dquote_byte)
    moreover have "sp_start sp + 1 \<le> sp_end sp - 1" "sp_end sp - 1 \<le> length ?t" using e sp by linarith+
    ultimately show ?thesis using e start [OF that] by (simp add: lexer_string_def str_slice_def)
  qed
  then show "token_atom s tk sp \<noteq> None" if "tk \<notin> {TOpen, TShut, TQuote, TDot, TBytes, TString False}"
    using that slice by (cases tk) (auto simp: token_atom_def split: bool.splits)
  show "unfinished s sp \<noteq> None" if "tk = TString False"
    using start [OF that] sp by (simp add: unfinished_def str_slice_def)
qed

lemma token_total:
  assumes ok: "arena_ok nodes" and st: "stacked s (rd_depth_limit r) nodes frames pre" and sc: "scan_ok s toks" "ts \<in> set toks"
  shows "read_token r s eof ts frames nodes depth \<noteq> None"
proof -
  obtain t sp where ts: "ts = (t, sp)" by (cases ts)
  show ?thesis
  proof (cases t)
    case (Some tk)
    note sc = scan_tokens [OF sc(1), of tk sp] sc(2)
    show ?thesis
    proof (cases "tk \<in> {TOpen, TShut, TQuote, TDot, TBytes, TString False}")
      case True
      then show ?thesis using sc ts Some dot_ok [OF ok st, of sp depth] shut_ok [OF ok st, of sp depth]
        by (elim insertE) (simp_all add: read_token_def open_frame_def)
    next
      case False
      then obtain res where res: "token_atom s tk sp = Some res" using sc ts Some by auto
      show ?thesis
      proof (cases res)
        case (Inl e)
        then show ?thesis using False ts Some res by (cases tk) (auto simp: read_token_def split: bool.splits)
      next
        case (Inr a)
        let ?nd = "\<lparr>nd_datum = DAtom a, nd_span = sp\<rparr>"
        have "read_token r s eof ts frames nodes depth = finish_node s sp depth frames nodes ?nd"
          using False ts Some res Inr by (cases tk) (auto simp: read_token_def split: bool.splits)
        moreover have "spells s (rd_depth_limit r - length frames) [ts] (tree (nodes @ [?nd]) (length nodes))"
          using spells_atom [of s tk sp a] res Inr tree_new(1) [OF ok, of ?nd a] ts Some by (simp add: node_children_def)
        ultimately show ?thesis using finish_ok [OF ok _ st, of ?nd "[ts]" sp depth] by (simp add: node_children_def)
      qed
    qed
  qed (simp add: ts read_token_def)
qed

lemma loop_total:
  "arena_ok nodes \<Longrightarrow> stacked s (rd_depth_limit r) nodes frames pre \<Longrightarrow> scan_ok s all \<Longrightarrow> set toks \<subseteq> set all \<Longrightarrow>
     read_loop r s eof toks frames nodes depth \<noteq> None"
proof (induction toks arbitrary: frames nodes depth pre)
  case (Cons ts toks)
  have "ts \<in> set all" using Cons.prems(4) by simp
  from token_total [OF Cons.prems(1-3) this] obtain oc where oc: "read_token r s eof ts frames nodes depth = Some oc" by auto
  show ?case
  proof (cases oc)
    case (Go frames' nodes' depth')
    then have "arena_ok nodes'" "stacked s (rd_depth_limit r) nodes' frames' (pre @ [ts])"
      using token_ok [OF Cons.prems(1,2), of ts eof depth] oc by (auto simp: read_ok_def)
    from Cons.IH [OF this Cons.prems(3)] Cons.prems(4) oc Go show ?thesis by (simp add: loop_proceed)
  qed (simp add: loop_proceed oc)
qed simp

text \<open>
  C35: on the tokens of a valid text the reader never panics: no index and no slice is
  out of range, whatever the tokens are and wherever the input stops.
\<close>

theorem reader_total:
  assumes "scan_ok s toks"
  shows "\<exists>res. reader_read r s eof toks = Some res"
  using loop_total [of "[]" s r "[]" "[]" toks toks eof 0] assms by (auto simp: reader_read_def arena_ok_def)

theorem reader_total_witness:
  "\<exists>res. reader_read reader_default \<lparr>so_name = ''t'', so_text = ''(a)''\<rparr> True
     [(Some TOpen, span_new 0 1), (Some TSymbol, span_new 1 2), (Some TShut, span_new 2 3)] = Some res"
  by (rule reader_total)
    (simp add: scan_ok_def span_new_def is_char_boundary_def is_continuation_def byte_of_def utf8_valid.simps)

end
