(* ===== verification/Lisp_Lower.thy ===== *)
theory Lisp_Lower
  imports Lisp_Reader
begin

text \<open>
  Lowering a form to core expressions (\<open>crates/lisp/src/syntax/lower.rs\<close>): names become
  slots of enclosing scopes, special forms become expressions of an arena.

  The code walks the form with a stack of pending work instead of recursion; the stack
  is a list with its top first. An index out of range, or more results taken than there
  are, is a panic, the result \<open>None\<close> of a step. The loop itself need not end on an
  arbitrary arena, so it is a partial function whose outer \<open>None\<close> is not returning.
\<close>

section \<open>Data\<close>

datatype binding = Local nat nat | Global string

datatype expr =
    XLiteral atom | XQuote nat | XReference binding | XIf nat nat nat | XSequence "nat list"
  | XLambda nat nat | XCall nat "nat list" | XDefine string nat | XAssign binding nat

record expression =
  ex_expr :: expr
  ex_span :: span

record lisp_module =
  md_form :: form
  md_expressions :: "expression list"
  md_root :: nat

record scope_frame =
  sf_parent :: "nat option"
  sf_names :: "string list"

datatype build =
    BIf | BSequence nat | BLambda nat | BCall nat | BDefine string | BAssign binding | BLet nat

datatype work = Visit nat "nat option" bool | Build build span

record lower_state =
  lw_work :: "work list"
  lw_scopes :: "scope_frame list"
  lw_results :: "nat list"
  lw_expressions :: "expression list"

section \<open>Helpers\<close>

definition symbol_at :: "form \<Rightarrow> nat \<Rightarrow> string option option" where
  "symbol_at fm i =
     (if i \<ge> length (fm_nodes fm) then None
      else Some (case nd_datum (fm_nodes fm ! i) of DAtom (ASymbol s) \<Rightarrow> Some s | _ \<Rightarrow> None))"

definition list_at :: "form \<Rightarrow> nat \<Rightarrow> nat list option option" where
  "list_at fm i =
     (if i \<ge> length (fm_nodes fm) then None
      else Some (case nd_datum (fm_nodes fm ! i) of DList items None \<Rightarrow> Some items | _ \<Rightarrow> None))"

text \<open>
  The search through the enclosing scopes. A scope is pushed after its parent, so at most
  as many rounds as there are scopes are needed; the fuel is one more than that.
\<close>

primrec binding_loop :: "nat \<Rightarrow> string \<Rightarrow> scope_frame list \<Rightarrow> nat option \<Rightarrow> nat \<Rightarrow> binding option" where
  "binding_loop 0 name scopes scope depth = None"
| "binding_loop (Suc fuel) name scopes scope depth =
     (case scope of
        None \<Rightarrow> Some (Global name)
      | Some index \<Rightarrow>
          if index \<ge> length scopes then None
          else case position (\<lambda>s. s = name) (sf_names (scopes ! index)) of
                 Some slot \<Rightarrow> Some (Local depth slot)
               | None \<Rightarrow> binding_loop fuel name scopes (sf_parent (scopes ! index)) (depth + 1))"

definition binding_of :: "string \<Rightarrow> scope_frame list \<Rightarrow> nat option \<Rightarrow> binding option" where
  "binding_of name scopes scope = binding_loop (length scopes + 1) name scopes scope 0"

definition node_error :: "form \<Rightarrow> nat \<Rightarrow> string \<Rightarrow> diagnostic" where
  "node_error fm i message = diagnostic_new ESyntax message (fm_source fm) (nd_span (fm_nodes fm ! i))"

fun parameters_loop :: "form \<Rightarrow> nat list \<Rightarrow> string list \<Rightarrow> (diagnostic + string list) option" where
  "parameters_loop fm [] params = Some (Inr params)"
| "parameters_loop fm (i # ids) params =
     (case symbol_at fm i of
        None \<Rightarrow> None
      | Some None \<Rightarrow> Some (Inl (node_error fm i ''parameter must be a symbol''))
      | Some (Some name) \<Rightarrow>
          if name \<in> set params then Some (Inl (node_error fm i ''duplicate parameter''))
          else parameters_loop fm ids (params @ [name]))"

definition parameters :: "form \<Rightarrow> nat list \<Rightarrow> (diagnostic + string list) option" where
  "parameters fm ids = parameters_loop fm ids []"

definition push_expr :: "expr \<Rightarrow> span \<Rightarrow> lower_state \<Rightarrow> nat \<times> lower_state" where
  "push_expr e sp st =
     (length (lw_expressions st), st\<lparr>lw_expressions := lw_expressions st @ [\<lparr>ex_expr = e, ex_span = sp\<rparr>]\<rparr>)"

definition emit :: "expr \<Rightarrow> span \<Rightarrow> lower_state \<Rightarrow> lower_state" where
  "emit e sp st = (case push_expr e sp st of (i, st') \<Rightarrow> st'\<lparr>lw_results := lw_results st' @ [i]\<rparr>)"

definition push_work :: "work \<Rightarrow> lower_state \<Rightarrow> lower_state" where
  "push_work t st = st\<lparr>lw_work := t # lw_work st\<rparr>"

definition visits :: "nat list \<Rightarrow> nat option \<Rightarrow> bool \<Rightarrow> lower_state \<Rightarrow> lower_state" where
  "visits ids scope outer st = st\<lparr>lw_work := map (\<lambda>i. Visit i scope outer) ids @ lw_work st\<rparr>"

definition push_scope :: "nat option \<Rightarrow> string list \<Rightarrow> lower_state \<Rightarrow> nat option \<times> lower_state" where
  "push_scope scope names st =
     (Some (length (lw_scopes st)), st\<lparr>lw_scopes := lw_scopes st @ [\<lparr>sf_parent = scope, sf_names = names\<rparr>]\<rparr>)"

text \<open>The names and values of the entries of a \<open>let\<close>.\<close>

fun let_entries :: "form \<Rightarrow> nat \<Rightarrow> nat list \<Rightarrow> (diagnostic + nat list \<times> nat list) option" where
  "let_entries fm i [] = Some (Inr ([], []))"
| "let_entries fm i (entry # entries) =
     (case list_at fm entry of
        None \<Rightarrow> None
      | Some (Some [n, v]) \<Rightarrow>
          try_bind (let_entries fm i entries) (\<lambda>(names, values). Some (Inr (n # names, v # values)))
      | Some _ \<Rightarrow> Some (Inl (node_error fm i ''let binding requires a name and value'')))"

section \<open>Visiting a node\<close>

definition lower_if :: "form \<Rightarrow> nat \<Rightarrow> nat list \<Rightarrow> nat option \<Rightarrow> lower_state \<Rightarrow> (diagnostic + lower_state) option" where
  "lower_if fm i items scope st =
     (if length items \<noteq> 4 then Some (Inl (node_error fm i ''if takes test, consequent and alternative''))
      else Some (Inr (visits (tl items) scope False (push_work (Build BIf (nd_span (fm_nodes fm ! i))) st))))"

definition lower_lambda :: "form \<Rightarrow> nat \<Rightarrow> nat list \<Rightarrow> nat option \<Rightarrow> lower_state \<Rightarrow> (diagnostic + lower_state) option" where
  "lower_lambda fm i items scope st =
     (let sp = nd_span (fm_nodes fm ! i) in
      if length items < 3 then Some (Inl (node_error fm i ''lambda requires parameters and a body''))
      else case list_at fm (items ! 1) of
             None \<Rightarrow> None
           | Some None \<Rightarrow> Some (Inl (node_error fm i ''lambda parameters must be a proper list''))
           | Some (Some ids) \<Rightarrow>
               try_bind (parameters fm ids) (\<lambda>params.
                 case push_scope scope params st of (inner, st') \<Rightarrow>
                   Some (Inr (visits (drop 2 items) inner False
                     (push_work (Build (BSequence (length items - 2)) sp)
                       (push_work (Build (BLambda (length params)) sp) st'))))))"

definition lower_define ::
  "form \<Rightarrow> nat \<Rightarrow> nat list \<Rightarrow> nat option \<Rightarrow> bool \<Rightarrow> lower_state \<Rightarrow> (diagnostic + lower_state) option" where
  "lower_define fm i items scope outer st =
     (let sp = nd_span (fm_nodes fm ! i) in
      if \<not> outer then Some (Inl (node_error fm i ''define is restricted to top level''))
      else if length items < 3 then Some (Inl (node_error fm i ''define requires a name and value''))
      else case symbol_at fm (items ! 1) of
             None \<Rightarrow> None
           | Some (Some name) \<Rightarrow>
               if length items \<noteq> 3 then Some (Inl (node_error fm i ''define takes one value''))
               else Some (Inr (push_work (Visit (items ! 2) scope False) (push_work (Build (BDefine name) sp) st)))
           | Some None \<Rightarrow>
               (case list_at fm (items ! 1) of
                  None \<Rightarrow> None
                | Some (Some (h # ids)) \<Rightarrow>
                    (case symbol_at fm h of
                       None \<Rightarrow> None
                     | Some None \<Rightarrow> Some (Inl (node_error fm i ''function name must be a symbol''))
                     | Some (Some name) \<Rightarrow>
                         try_bind (parameters fm ids) (\<lambda>params.
                           case push_scope scope params st of (inner, st') \<Rightarrow>
                             Some (Inr (visits (drop 2 items) inner False
                               (push_work (Build (BSequence (length items - 2)) sp)
                                 (push_work (Build (BLambda (length params)) sp)
                                   (push_work (Build (BDefine name) sp) st')))))))
                | Some _ \<Rightarrow> Some (Inl (node_error fm i ''invalid function definition''))))"

definition lower_set :: "form \<Rightarrow> nat \<Rightarrow> nat list \<Rightarrow> nat option \<Rightarrow> lower_state \<Rightarrow> (diagnostic + lower_state) option" where
  "lower_set fm i items scope st =
     (if length items \<noteq> 3 then Some (Inl (node_error fm i ''set! takes a name and value''))
      else case symbol_at fm (items ! 1) of
             None \<Rightarrow> None
           | Some None \<Rightarrow> Some (Inl (node_error fm i ''set! target must be a symbol''))
           | Some (Some name) \<Rightarrow>
               (case binding_of name (lw_scopes st) scope of
                  None \<Rightarrow> None
                | Some b \<Rightarrow>
                    Some (Inr (push_work (Visit (items ! 2) scope False)
                      (push_work (Build (BAssign b) (nd_span (fm_nodes fm ! i))) st)))))"

definition lower_let :: "form \<Rightarrow> nat \<Rightarrow> nat list \<Rightarrow> nat option \<Rightarrow> lower_state \<Rightarrow> (diagnostic + lower_state) option" where
  "lower_let fm i items scope st =
     (let sp = nd_span (fm_nodes fm ! i) in
      if length items < 3 then Some (Inl (node_error fm i ''let requires bindings and a body''))
      else case list_at fm (items ! 1) of
             None \<Rightarrow> None
           | Some None \<Rightarrow> Some (Inl (node_error fm i ''let bindings must be a proper list''))
           | Some (Some entries) \<Rightarrow>
               try_bind (let_entries fm i entries) (\<lambda>(names, values).
                 try_bind (parameters fm names) (\<lambda>params.
                   case push_scope scope params st of (inner, st') \<Rightarrow>
                     Some (Inr (visits values scope False (visits (drop 2 items) inner False
                       (push_work (Build (BSequence (length items - 2)) sp)
                         (push_work (Build (BLet (length entries)) sp) st'))))))))"

definition lower_visit ::
  "form \<Rightarrow> nat \<Rightarrow> nat option \<Rightarrow> bool \<Rightarrow> lower_state \<Rightarrow> (diagnostic + lower_state) option" where
  "lower_visit fm i scope outer st =
     (if i \<ge> length (fm_nodes fm) then None
      else let sp = nd_span (fm_nodes fm ! i) in
        case nd_datum (fm_nodes fm ! i) of
          DAtom (ASymbol s) \<Rightarrow>
            map_option (\<lambda>b. Inr (emit (XReference b) sp st)) (binding_of s (lw_scopes st) scope)
        | DAtom a \<Rightarrow> Some (Inr (emit (XLiteral a) sp st))
        | DQuote q \<Rightarrow> Some (Inr (emit (XQuote q) sp st))
        | DList items tail \<Rightarrow>
            if tail \<noteq> None then Some (Inl (node_error fm i ''application must be a proper list''))
            else if items = [] then Some (Inr (emit (XQuote i) sp st))
            else case symbol_at fm (items ! 0) of
                   None \<Rightarrow> None
                 | Some name \<Rightarrow>
                     if name = Some ''quote'' then
                       (if length items \<noteq> 2 then Some (Inl (node_error fm i ''quote takes one datum''))
                        else Some (Inr (emit (XQuote (items ! 1)) sp st)))
                     else if name = Some ''if'' then lower_if fm i items scope st
                     else if name = Some ''begin'' then
                       Some (Inr (visits (tl items) scope outer (push_work (Build (BSequence (length items - 1)) sp) st)))
                     else if name = Some ''lambda'' then lower_lambda fm i items scope st
                     else if name = Some ''define'' then lower_define fm i items scope outer st
                     else if name = Some ''set!'' then lower_set fm i items scope st
                     else if name = Some ''let'' then lower_let fm i items scope st
                     else Some (Inr (visits items scope False (push_work (Build (BCall (length items - 1)) sp) st))))"

section \<open>Building an expression\<close>

definition build_count :: "build \<Rightarrow> nat" where
  "build_count b = (case b of BIf \<Rightarrow> 3 | BSequence n \<Rightarrow> n | BCall n \<Rightarrow> n + 1 | BLet n \<Rightarrow> n + 1 | _ \<Rightarrow> 1)"

definition lower_build :: "build \<Rightarrow> span \<Rightarrow> lower_state \<Rightarrow> lower_state option" where
  "lower_build b sp st =
     (let n = length (lw_results st); count = build_count b in
      if count > n then None
      else let parts = drop (n - count) (lw_results st);
               st1 = st\<lparr>lw_results := take (n - count) (lw_results st)\<rparr> in
        Some (case b of
                BIf \<Rightarrow> emit (XIf (parts ! 0) (parts ! 1) (parts ! 2)) sp st1
              | BSequence _ \<Rightarrow> emit (XSequence parts) sp st1
              | BLambda params \<Rightarrow> emit (XLambda params (parts ! 0)) sp st1
              | BCall _ \<Rightarrow> emit (XCall (parts ! 0) (tl parts)) sp st1
              | BDefine name \<Rightarrow> emit (XDefine name (parts ! 0)) sp st1
              | BAssign bd \<Rightarrow> emit (XAssign bd (parts ! 0)) sp st1
              | BLet params \<Rightarrow>
                  (case push_expr (XLambda params (parts ! params)) sp st1 of (function, st2) \<Rightarrow>
                     emit (XCall function (take params parts)) sp st2)))"

section \<open>The loop\<close>

definition lower_step :: "form \<Rightarrow> work \<Rightarrow> lower_state \<Rightarrow> (diagnostic + lower_state) option" where
  "lower_step fm t st =
     (case t of
        Visit i scope outer \<Rightarrow> lower_visit fm i scope outer st
      | Build b sp \<Rightarrow> map_option Inr (lower_build b sp st))"

partial_function (option) lower_loop :: "form \<Rightarrow> lower_state \<Rightarrow> (diagnostic + lower_state) option option" where
  "lower_loop fm st =
     (case lw_work st of
        [] \<Rightarrow> Some (Some (Inr st))
      | t # w \<Rightarrow>
          (case lower_step fm t (st\<lparr>lw_work := w\<rparr>) of
             None \<Rightarrow> Some None
           | Some (Inl e) \<Rightarrow> Some (Some (Inl e))
           | Some (Inr st') \<Rightarrow> lower_loop fm st'))"

definition lower_start :: "form \<Rightarrow> lower_state" where
  "lower_start fm = \<lparr>lw_work = [Visit (fm_root fm) None True], lw_scopes = [], lw_results = [], lw_expressions = []\<rparr>"

definition lower_form :: "form \<Rightarrow> (diagnostic + lisp_module) option option" where
  "lower_form fm =
     (case lower_loop fm (lower_start fm) of
        None \<Rightarrow> None
      | Some None \<Rightarrow> Some None
      | Some (Some (Inl e)) \<Rightarrow> Some (Some (Inl e))
      | Some (Some (Inr st)) \<Rightarrow>
          Some (if lw_results st = [] then None
                else Some (Inr \<lparr>md_form = fm, md_expressions = lw_expressions st, md_root = hd (lw_results st)\<rparr>)))"

section \<open>Core expressions as trees\<close>

datatype core =
    CLit atom | CQuote sexp | CRef binding | CIf core core core | CSeq "core list"
  | CLam nat core | CCall core "core list" | CDef string core | CSet binding core

fun expr_children :: "expr \<Rightarrow> nat list" where
  "expr_children (XIf a b c) = [a, b, c]"
| "expr_children (XSequence ps) = ps"
| "expr_children (XLambda _ b) = [b]"
| "expr_children (XCall f as) = f # as"
| "expr_children (XDefine _ v) = [v]"
| "expr_children (XAssign _ v) = [v]"
| "expr_children _ = []"

definition exprs_ok :: "expression list \<Rightarrow> bool" where
  "exprs_ok es \<longleftrightarrow> (\<forall>i < length es. \<forall>j \<in> set (expr_children (ex_expr (es ! i))). j < i)"

fun core_expr :: "node list \<Rightarrow> (nat \<Rightarrow> core) \<Rightarrow> expr \<Rightarrow> core" where
  "core_expr nodes g (XLiteral a) = CLit a"
| "core_expr nodes g (XQuote q) = CQuote (tree nodes q)"
| "core_expr nodes g (XReference b) = CRef b"
| "core_expr nodes g (XIf a b c) = CIf (g a) (g b) (g c)"
| "core_expr nodes g (XSequence ps) = CSeq (map g ps)"
| "core_expr nodes g (XLambda n b) = CLam n (g b)"
| "core_expr nodes g (XCall f as) = CCall (g f) (map g as)"
| "core_expr nodes g (XDefine s v) = CDef s (g v)"
| "core_expr nodes g (XAssign b v) = CSet b (g v)"

function core_of :: "node list \<Rightarrow> expression list \<Rightarrow> nat \<Rightarrow> core" where
  "core_of nodes es i = core_expr nodes (\<lambda>j. if j < i then core_of nodes es j else CSeq []) (ex_expr (es ! i))"
  by pat_completeness auto
termination by (relation "measure (\<lambda>(nodes, es, i). i)") auto

declare core_of.simps [simp del]

lemma core_expr_cong: "\<forall>j \<in> set (expr_children e). g j = h j \<Longrightarrow> core_expr nodes g e = core_expr nodes h e"
  by (cases e) auto

lemma core_unfold:
  "exprs_ok es \<Longrightarrow> i < length es \<Longrightarrow> core_of nodes es i = core_expr nodes (core_of nodes es) (ex_expr (es ! i))"
  unfolding core_of.simps [of nodes es i] by (rule core_expr_cong) (auto simp: exprs_ok_def)

lemma core_append: "exprs_ok es \<Longrightarrow> i < length es \<Longrightarrow> core_of nodes (es @ ms) i = core_of nodes es i"
proof (induction i rule: less_induct)
  case (less i)
  have nth: "(es @ ms) ! i = es ! i" using less.prems by (simp add: nth_append)
  show ?case
    unfolding core_of.simps [of nodes "es @ ms" i] core_of.simps [of nodes es i] nth
    by (rule core_expr_cong) (use less in auto)
qed

lemma exprs_append:
  "exprs_ok es \<Longrightarrow> \<forall>j \<in> set (expr_children (ex_expr e)). j < length es \<Longrightarrow> exprs_ok (es @ [e])"
  by (auto simp: exprs_ok_def nth_append less_Suc_eq)

lemma core_new:
  assumes "exprs_ok es" and "\<forall>j \<in> set (expr_children (ex_expr e)). j < length es"
  shows "core_of nodes (es @ [e]) (length es) = core_expr nodes (core_of nodes es) (ex_expr e)"
  using core_unfold [OF exprs_append [OF assms], of "length es" nodes] core_append [OF assms(1), of _ nodes "[e]"] assms(2)
  by (auto intro: core_expr_cong)

section \<open>The reference compiler\<close>

fun sym_of :: "sexp \<Rightarrow> string option" where
  "sym_of (SAtom (ASymbol s)) = Some s"
| "sym_of _ = None"

fun plain_of :: "sexp \<Rightarrow> sexp list option" where
  "plain_of (SList xs None) = Some xs"
| "plain_of _ = None"

definition params_of :: "sexp list \<Rightarrow> string list option" where
  "params_of xs = (case those (map sym_of xs) of None \<Rightarrow> None | Some ns \<Rightarrow> if distinct ns then Some ns else None)"

fun entry_of :: "sexp \<Rightarrow> (sexp \<times> sexp) option" where
  "entry_of (SList [n, v] None) = Some (n, v)"
| "entry_of _ = None"

definition entries_of :: "sexp list \<Rightarrow> (sexp \<times> sexp) list option" where
  "entries_of xs = those (map entry_of xs)"

fun resolve_from :: "nat \<Rightarrow> string list list \<Rightarrow> string \<Rightarrow> binding" where
  "resolve_from d [] s = Global s"
| "resolve_from d (ns # sc) s =
     (case position (\<lambda>n. n = s) ns of Some slot \<Rightarrow> Local d slot | None \<Rightarrow> resolve_from (d + 1) sc s)"

abbreviation resolve :: "string list list \<Rightarrow> string \<Rightarrow> binding" where
  "resolve \<equiv> resolve_from 0"

lemma those_Some: "those xs = Some ys \<longleftrightarrow> xs = map Some ys"
  by (induction xs arbitrary: ys) (auto split: option.splits)

lemma those_None: "those xs = None \<longleftrightarrow> None \<in> set xs"
  by (induction xs) (auto split: option.splits)

lemma list_element_size: "x \<in> set xs \<Longrightarrow> size x < Suc (size_list size xs)"
  by (induction xs) auto

lemma entry_size: "entry_of x = Some (n, v) \<Longrightarrow> size v < size x"
  by (cases x rule: entry_of.cases) auto

lemma plain_size: "plain_of x = Some xs \<Longrightarrow> y \<in> set xs \<Longrightarrow> size y < size x"
  using list_element_size [of y xs] by (cases x rule: plain_of.cases) (auto intro: less_SucI)

lemma entries_size:
  assumes "entries_of xs = Some es" and "(n, v) \<in> set es" and "plain_of b = Some xs"
  shows "size v < size b"
proof -
  obtain x where "x \<in> set xs" "entry_of x = Some (n, v)"
    using assms(1,2) by (auto simp: entries_of_def those_Some) (metis imageE image_eqI list.set_map)
  then show ?thesis using entry_size plain_size [OF assms(3)] by fastforce
qed

function compile :: "string list list \<Rightarrow> bool \<Rightarrow> sexp \<Rightarrow> core option" where
  "compile sc outer (SAtom a) = Some (case a of ASymbol s \<Rightarrow> CRef (resolve sc s) | _ \<Rightarrow> CLit a)"
| "compile sc outer (SQuote y) = Some (CQuote y)"
| "compile sc outer (SList xs (Some t)) = None"
| "compile sc outer (SList [] None) = Some (CQuote (SList [] None))"
| "compile sc outer (SList (h # xs) None) =
     (let k = sym_of h in
      if k = Some ''quote'' then (case xs of [y] \<Rightarrow> Some (CQuote y) | _ \<Rightarrow> None)
      else if k = Some ''if'' then
        (case xs of [a, b, c] \<Rightarrow>
           (case (compile sc False a, compile sc False b, compile sc False c) of
              (Some a', Some b', Some c') \<Rightarrow> Some (CIf a' b' c') | _ \<Rightarrow> None)
         | _ \<Rightarrow> None)
      else if k = Some ''begin'' then map_option CSeq (those (map (compile sc outer) xs))
      else if k = Some ''lambda'' then
        (case xs of ps # b # body \<Rightarrow>
           (case Option.bind (plain_of ps) params_of of
              Some ns \<Rightarrow> map_option (\<lambda>cs. CLam (length ns) (CSeq cs)) (those (map (compile (ns # sc) False) (b # body)))
            | None \<Rightarrow> None)
         | _ \<Rightarrow> None)
      else if k = Some ''define'' then
        (if \<not> outer then None
         else case xs of
                n # v # rest \<Rightarrow>
                  (case sym_of n of
                     Some name \<Rightarrow> if rest = [] then map_option (CDef name) (compile sc False v) else None
                   | None \<Rightarrow>
                       (case plain_of n of
                          Some (f # ids) \<Rightarrow>
                            (case (sym_of f, params_of ids) of
                               (Some name, Some ns) \<Rightarrow>
                                 map_option (\<lambda>cs. CDef name (CLam (length ns) (CSeq cs)))
                                   (those (map (compile (ns # sc) False) (v # rest)))
                             | _ \<Rightarrow> None)
                        | _ \<Rightarrow> None))
              | _ \<Rightarrow> None)
      else if k = Some ''set!'' then
        (case xs of [n, v] \<Rightarrow>
           (case sym_of n of Some name \<Rightarrow> map_option (CSet (resolve sc name)) (compile sc False v) | None \<Rightarrow> None)
         | _ \<Rightarrow> None)
      else if k = Some ''let'' then
        (case xs of bs # b # body \<Rightarrow>
           (case Option.bind (plain_of bs) entries_of of
              Some es \<Rightarrow>
                (case params_of (map fst es) of
                   Some ns \<Rightarrow>
                     (case (those (map (\<lambda>e. compile sc False (snd e)) es), those (map (compile (ns # sc) False) (b # body))) of
                        (Some vs, Some cs) \<Rightarrow> Some (CCall (CLam (length ns) (CSeq cs)) vs)
                      | _ \<Rightarrow> None)
                 | None \<Rightarrow> None)
            | None \<Rightarrow> None)
         | _ \<Rightarrow> None)
      else (case (compile sc False h, those (map (compile sc False) xs)) of
              (Some f, Some as) \<Rightarrow> Some (CCall f as) | _ \<Rightarrow> None))"
  by pat_completeness auto
termination
  by (relation "measure (\<lambda>(sc, outer, x). size x)")
    (auto simp: bind_eq_Some_conv dest: list_element_size entries_size intro: less_SucI less_trans)

section \<open>The helpers on an arena\<close>

declare compile.simps [simp del]

abbreviation ftree :: "form \<Rightarrow> nat \<Rightarrow> sexp" where
  "ftree fm \<equiv> tree (fm_nodes fm)"

lemma symbol_at_tree: "i < length (fm_nodes fm) \<Longrightarrow> symbol_at fm i = Some (sym_of (ftree fm i))"
  by (auto simp: symbol_at_def tree.simps [of _ i] split: datum.splits atom.splits)

lemma list_at_tree:
  assumes "arena_ok (fm_nodes fm)" and "i < length (fm_nodes fm)"
  obtains (plain) items where "list_at fm i = Some (Some items)" and "plain_of (ftree fm i) = Some (map (ftree fm) items)"
      and "\<forall>j \<in> set items. j < i"
    | (other) "list_at fm i = Some None" and "plain_of (ftree fm i) = None"
proof (cases "nd_datum (fm_nodes fm ! i)")
  case (DList items tail)
  have "\<forall>j \<in> set items. j < i" using arena_child [OF assms] DList by (auto simp: node_children_def)
  then show thesis using DList assms plain other tree_list [OF assms DList] by (cases tail) (auto simp: list_at_def)
qed (use assms other in \<open>auto simp: list_at_def tree.simps [of _ i]\<close>)

definition syntax_error :: "(diagnostic + 'a) option \<Rightarrow> bool" where
  "syntax_error r \<longleftrightarrow> (\<exists>e. r = Some (Inl e) \<and> dg_kind e = ESyntax)"

lemma node_error_kind [simp]: "dg_kind (node_error fm i m) = ESyntax"
  by (simp add: node_error_def diagnostic_new_def)

lemma syntax_error_simps [simp]:
  "syntax_error (Some (Inl (node_error fm i m)))" "\<not> syntax_error (Some (Inr a))" "\<not> syntax_error None"
  "syntax_error r \<Longrightarrow> syntax_error (try_bind r f)"
  by (auto simp: syntax_error_def)

lemma parameters_loop_spec:
  "\<forall>i \<in> set ids. i < length (fm_nodes fm) \<Longrightarrow> distinct params \<Longrightarrow>
     (case those (map sym_of (map (ftree fm) ids)) of
        Some ns \<Rightarrow> if distinct (params @ ns) then parameters_loop fm ids params = Some (Inr (params @ ns))
                   else syntax_error (parameters_loop fm ids params)
      | None \<Rightarrow> syntax_error (parameters_loop fm ids params))"
proof (induction ids arbitrary: params)
  case (Cons i ids)
  have i: "symbol_at fm i = Some (sym_of (ftree fm i))" using Cons.prems(1) by (simp add: symbol_at_tree)
  show ?case
  proof (cases "sym_of (ftree fm i)")
    case (Some name)
    show ?thesis
    proof (cases "name \<in> set params")
      case True
      then show ?thesis using i Some by (auto split: option.splits)
    next
      case False
      then show ?thesis using Cons.IH [of "params @ [name]"] Cons.prems i Some by (auto split: option.splits if_splits)
    qed
  qed (use i in simp)
qed simp

lemma parameters_spec:
  assumes "\<forall>i \<in> set ids. i < length (fm_nodes fm)"
  shows "case params_of (map (ftree fm) ids) of
      Some ns \<Rightarrow> parameters fm ids = Some (Inr ns) \<and> length ns = length ids
    | None \<Rightarrow> syntax_error (parameters fm ids)"
proof (cases "those (map sym_of (map (ftree fm) ids))")
  case (Some ns)
  then have "length ns = length ids" by (metis those_Some length_map)
  then show ?thesis using parameters_loop_spec [OF assms, of "[]"] Some by (simp add: params_of_def parameters_def)
qed (use parameters_loop_spec [OF assms, of "[]"] in \<open>simp add: params_of_def parameters_def\<close>)

lemma entry_of_list: "entry_of (SList xs None) = (case xs of [n, v] \<Rightarrow> Some (n, v) | _ \<Rightarrow> None)"
  by (cases xs rule: remdups_adj.cases) (auto split: list.splits)

lemma let_entries_spec:
  assumes ok: "arena_ok (fm_nodes fm)"
  shows "\<forall>j \<in> set entries. j < length (fm_nodes fm) \<Longrightarrow>
     (case entries_of (map (ftree fm) entries) of
        Some es \<Rightarrow> \<exists>names values. let_entries fm i entries = Some (Inr (names, values))
           \<and> map fst es = map (ftree fm) names \<and> map snd es = map (ftree fm) values
           \<and> (\<forall>j \<in> set names \<union> set values. \<exists>e \<in> set entries. j < e)
      | None \<Rightarrow> syntax_error (let_entries fm i entries))"
proof (induction entries)
  case Nil
  show ?case by (simp add: entries_of_def)
next
  case (Cons e entries)
  note IH = Cons.IH [OF ballI]
  have e: "e < length (fm_nodes fm)" using Cons.prems by simp
  from ok e show ?case
  proof (cases rule: list_at_tree)
    case (plain items)
    then obtain t where t: "ftree fm e = SList (map (ftree fm) items) None"
      by (cases "ftree fm e" rule: plain_of.cases) auto
    show ?thesis
    proof (cases "\<exists>n v. items = [n, v]")
      case True
      then obtain n v where nv: "items = [n, v]" by blast
      then have "entry_of (ftree fm e) = Some (ftree fm n, ftree fm v)" using t by simp
      then show ?thesis using IH Cons.prems plain nv
        by (auto simp: entries_of_def split: option.splits)
    next
      case False
      then have "entry_of (ftree fm e) = None" using t by (auto simp: entry_of_list split: list.splits)
      moreover have "let_entries fm i (e # entries) = Some (Inl (node_error fm i ''let binding requires a name and value''))"
        using plain False by (auto split: list.splits)
      ultimately show ?thesis by (simp add: entries_of_def)
    qed
  next
    case other
    then have "entry_of (ftree fm e) = None" by (cases "ftree fm e" rule: entry_of.cases) auto
    then show ?thesis using other by (simp add: entries_of_def)
  qed
qed

section \<open>Scopes\<close>

text \<open>The names visible from a scope, innermost first.\<close>

fun chain :: "scope_frame list \<Rightarrow> nat option \<Rightarrow> string list list \<Rightarrow> bool" where
  "chain scopes scope [] \<longleftrightarrow> scope = None"
| "chain scopes scope (ns # sc) \<longleftrightarrow>
     (\<exists>i. scope = Some i \<and> i < length scopes \<and> sf_names (scopes ! i) = ns
        \<and> (\<forall>p. sf_parent (scopes ! i) = Some p \<longrightarrow> p < i) \<and> chain scopes (sf_parent (scopes ! i)) sc)"

lemma chain_append: "chain scopes scope sc \<Longrightarrow> chain (scopes @ ms) scope sc"
  by (induction sc arbitrary: scope) (auto simp: nth_append)

lemma chain_push:
  assumes "chain scopes scope sc"
  shows "chain (scopes @ [\<lparr>sf_parent = scope, sf_names = ns\<rparr>]) (Some (length scopes)) (ns # sc)"
proof -
  have "p < length scopes" if "scope = Some p" for p using assms that by (cases sc) auto
  then show ?thesis using chain_append [OF assms] by simp
qed

lemma chain_length: "chain scopes (Some i) sc \<Longrightarrow> length sc \<le> Suc i"
proof (induction sc arbitrary: i)
  case (Cons ns sc)
  show ?case
  proof (cases "sf_parent (scopes ! i)")
    case None
    then have "sc = []" using Cons.prems by (cases sc) auto
    then show ?thesis by simp
  next
    case (Some p)
    then show ?thesis using Cons.IH [of p] Cons.prems by fastforce
  qed
qed simp

lemma binding_loop_resolve:
  "chain scopes scope sc \<Longrightarrow> length sc < fuel \<Longrightarrow> binding_loop fuel name scopes scope depth = Some (resolve_from depth sc name)"
proof (induction sc arbitrary: fuel scope depth)
  case Nil
  then show ?case by (cases fuel) auto
next
  case (Cons ns sc)
  obtain f where f: "fuel = Suc f" using Cons.prems(2) by (cases fuel) auto
  show ?case using Cons f by (auto split: option.splits)
qed

lemma binding_of_resolve: "chain scopes scope sc \<Longrightarrow> binding_of name scopes scope = Some (resolve sc name)"
proof -
  assume c: "chain scopes scope sc"
  have "length sc \<le> length scopes"
  proof (cases scope)
    case None
    then show ?thesis using c by (cases sc) auto
  next
    case (Some i)
    then have "i < length scopes" if "sc \<noteq> []" using c that by (cases sc) auto
    then show ?thesis using chain_length [of scopes i sc] c Some by (cases "sc = []") auto
  qed
  then show ?thesis using binding_loop_resolve [OF c, of "Suc (length scopes)" name 0] by (simp only: binding_of_def Suc_eq_plus1)
qed

section \<open>Running the work list\<close>

text \<open>Parts come before the expressions that have them, and quotations name nodes of the form.\<close>

definition quotes_ok :: "node list \<Rightarrow> expression list \<Rightarrow> bool" where
  "quotes_ok nodes es \<longleftrightarrow> (\<forall>e \<in> set es. \<forall>q. ex_expr e = XQuote q \<longrightarrow> q < length nodes)"

definition sound :: "form \<Rightarrow> expression list \<Rightarrow> bool" where
  "sound fm es \<longleftrightarrow> exprs_ok es \<and> quotes_ok (fm_nodes fm) es"

lemma soundD: "sound fm es \<Longrightarrow> exprs_ok es"
  by (simp add: sound_def)

lemma sound_append:
  "sound fm es \<Longrightarrow> \<forall>j \<in> set (expr_children (ex_expr e)). j < length es \<Longrightarrow> (\<forall>q. ex_expr e = XQuote q \<longrightarrow> q < length (fm_nodes fm)) \<Longrightarrow>
    sound fm (es @ [e])"
  by (auto simp: sound_def quotes_ok_def exprs_append)

definition extends :: "lower_state \<Rightarrow> lower_state \<Rightarrow> bool" where
  "extends st st' \<longleftrightarrow> (\<exists>a. lw_scopes st' = lw_scopes st @ a) \<and> (\<exists>b. lw_expressions st' = lw_expressions st @ b)"

definition pushed :: "form \<Rightarrow> lower_state \<Rightarrow> work list \<Rightarrow> core list \<Rightarrow> lower_state \<Rightarrow> bool" where
  "pushed fm st w cs st' \<longleftrightarrow> lower_loop fm st = lower_loop fm st' \<and> lw_work st' = w \<and> extends st st' \<and> sound fm (lw_expressions st')
     \<and> (\<exists>rs. lw_results st' = lw_results st @ rs \<and> (\<forall>r \<in> set rs. r < length (lw_expressions st'))
          \<and> map (core_of (fm_nodes fm) (lw_expressions st')) rs = cs)"

definition fails :: "form \<Rightarrow> lower_state \<Rightarrow> bool" where
  "fails fm st \<longleftrightarrow> (\<exists>r. lower_loop fm st = Some r \<and> syntax_error r)"

lemma loop_step:
  "lw_work st = t # w \<Longrightarrow> lower_step fm t (st\<lparr>lw_work := w\<rparr>) = Some (Inr st') \<Longrightarrow> lower_loop fm st = lower_loop fm st'"
  by (subst lower_loop.simps) simp

lemma loop_fails: "lw_work st = t # w \<Longrightarrow> syntax_error (lower_step fm t (st\<lparr>lw_work := w\<rparr>)) \<Longrightarrow> fails fm st"
  unfolding fails_def syntax_error_def by (subst lower_loop.simps) auto

lemma extends_refl [simp]: "extends st st"
  by (simp add: extends_def)

lemma extends_trans: "extends a b \<Longrightarrow> extends b c \<Longrightarrow> extends a c"
  by (auto simp: extends_def)

lemma extends_chain: "extends st st' \<Longrightarrow> chain (lw_scopes st) scope sc \<Longrightarrow> chain (lw_scopes st') scope sc"
  by (auto simp: extends_def intro: chain_append)

lemma pushed_none: "lw_work st = w \<Longrightarrow> sound fm (lw_expressions st) \<Longrightarrow> pushed fm st w [] st"
  by (simp add: pushed_def)

lemma pushed_append:
  assumes a: "pushed fm st w1 cs st1" and b: "pushed fm st1 w2 ds st2"
  shows "pushed fm st w2 (cs @ ds) st2"
proof -
  obtain rs where rs: "lw_results st1 = lw_results st @ rs" "\<forall>r \<in> set rs. r < length (lw_expressions st1)"
    "map (core_of (fm_nodes fm) (lw_expressions st1)) rs = cs" and e1: "sound fm (lw_expressions st1)" using a by (auto simp: pushed_def)
  obtain qs where qs: "lw_results st2 = lw_results st1 @ qs" "\<forall>r \<in> set qs. r < length (lw_expressions st2)"
    "map (core_of (fm_nodes fm) (lw_expressions st2)) qs = ds" using b by (auto simp: pushed_def)
  obtain es where es: "lw_expressions st2 = lw_expressions st1 @ es" using b by (auto simp: pushed_def extends_def)
  have "map (core_of (fm_nodes fm) (lw_expressions st2)) rs = cs"
    using rs(2,3) core_append [OF soundD [OF e1], of _ "fm_nodes fm" es] es by auto
  moreover have "\<forall>r \<in> set rs. r < length (lw_expressions st2)" using rs(2) es by auto
  ultimately show ?thesis using a b rs qs extends_trans by (auto simp: pushed_def intro!: exI [of _ "rs @ qs"])
qed

lemma pushed_start:
  assumes "lower_loop fm st = lower_loop fm st0" and "extends st st0" and "lw_results st0 = lw_results st" and "pushed fm st0 w cs st'"
  shows "pushed fm st w cs st'"
  using assms extends_trans by (auto simp: pushed_def)

lemma fails_start: "lower_loop fm st = lower_loop fm st0 \<Longrightarrow> fails fm st0 \<Longrightarrow> fails fm st"
  by (simp add: fails_def)

lemma emit_fields [simp]:
  "lw_work (emit e sp st) = lw_work st" "lw_scopes (emit e sp st) = lw_scopes st"
  "lw_results (emit e sp st) = lw_results st @ [length (lw_expressions st)]"
  "lw_expressions (emit e sp st) = lw_expressions st @ [\<lparr>ex_expr = e, ex_span = sp\<rparr>]"
  by (simp_all add: emit_def push_expr_def)

lemma emit_pushed:
  assumes "lower_loop fm st = lower_loop fm (emit e sp st0)" and "lw_work st0 = w" and "extends st st0" and "sound fm (lw_expressions st0)"
    and "lw_results st0 = lw_results st" and "\<forall>j \<in> set (expr_children e). j < length (lw_expressions st0)"
    and "\<forall>q. e = XQuote q \<longrightarrow> q < length (fm_nodes fm)"
  shows "pushed fm st w [core_expr (fm_nodes fm) (core_of (fm_nodes fm) (lw_expressions st0)) e] (emit e sp st0)"
proof -
  let ?e = "\<lparr>ex_expr = e, ex_span = sp\<rparr>"
  have c: "\<forall>j \<in> set (expr_children (ex_expr ?e)). j < length (lw_expressions st0)" using assms(6) by simp
  show ?thesis
    using assms core_new [OF soundD [OF assms(4)] c, of "fm_nodes fm"] sound_append [OF assms(4) c] by (auto simp: pushed_def extends_def)
qed

text \<open>What building puts in the place of the parts.\<close>

fun built :: "build \<Rightarrow> core list \<Rightarrow> core" where
  "built BIf cs = CIf (cs ! 0) (cs ! 1) (cs ! 2)"
| "built (BSequence _) cs = CSeq cs"
| "built (BLambda n) cs = CLam n (cs ! 0)"
| "built (BCall _) cs = CCall (cs ! 0) (tl cs)"
| "built (BDefine s) cs = CDef s (cs ! 0)"
| "built (BAssign b) cs = CSet b (cs ! 0)"
| "built (BLet n) cs = CCall (CLam n (cs ! n)) (take n cs)"

lemma build_pushed:
  assumes p: "pushed fm st (Build b sp # w) cs st1" and n: "length cs = build_count b"
  shows "\<exists>st'. pushed fm st w [built b cs] st'"
proof -
  let ?core = "core_of (fm_nodes fm) (lw_expressions st1)"
  obtain rs where rs: "lw_results st1 = lw_results st @ rs" "\<forall>r \<in> set rs. r < length (lw_expressions st1)" "map ?core rs = cs"
    using p by (auto simp: pushed_def)
  have P: "lower_loop fm st = lower_loop fm st1" "lw_work st1 = Build b sp # w" "extends st st1" "sound fm (lw_expressions st1)"
    using p by (auto simp: pushed_def)
  have len: "length rs = build_count b" using rs(3) n by auto
  let ?st = "st1\<lparr>lw_work := w, lw_results := lw_results st\<rparr>"
  have nth: "k < build_count b \<Longrightarrow> rs ! k < length (lw_expressions st1) \<and> ?core (rs ! k) = cs ! k" for k
    using rs(2,3) len by auto
  have run: "lower_loop fm st1 = lower_loop fm st2" if "lower_build b sp (st1\<lparr>lw_work := w\<rparr>) = Some st2" for st2
    using loop_step [OF P(2), of fm st2] that by (simp add: lower_step_def)
  have one: "\<exists>st'. pushed fm st w [core_expr (fm_nodes fm) ?core e] st'"
    if "lower_build b sp (st1\<lparr>lw_work := w\<rparr>) = Some (emit e sp ?st)" "\<forall>j \<in> set (expr_children e). j < length (lw_expressions st1)" "\<forall>q. e \<noteq> XQuote q" for e
  proof -
    have "pushed fm st w [core_expr (fm_nodes fm) (core_of (fm_nodes fm) (lw_expressions ?st)) e] (emit e sp ?st)"
      by (rule emit_pushed) (use run that P in \<open>simp_all add: extends_def\<close>)
    then show ?thesis by auto
  qed
  have lb: "lower_build b sp (st1\<lparr>lw_work := w\<rparr>) = Some (case b of
                BIf \<Rightarrow> emit (XIf (rs ! 0) (rs ! 1) (rs ! 2)) sp ?st
              | BSequence _ \<Rightarrow> emit (XSequence rs) sp ?st
              | BLambda params \<Rightarrow> emit (XLambda params (rs ! 0)) sp ?st
              | BCall _ \<Rightarrow> emit (XCall (rs ! 0) (tl rs)) sp ?st
              | BDefine name \<Rightarrow> emit (XDefine name (rs ! 0)) sp ?st
              | BAssign bd \<Rightarrow> emit (XAssign bd (rs ! 0)) sp ?st
              | BLet params \<Rightarrow>
                  (case push_expr (XLambda params (rs ! params)) sp ?st of (function, st2) \<Rightarrow> emit (XCall function (take params rs)) sp st2))"
    using len by (simp add: lower_build_def rs(1) Let_def cong: build.case_cong)
  show ?thesis
  proof (cases b)
    case (BLet k)
    let ?lam = "\<lparr>ex_expr = XLambda k (rs ! k), ex_span = sp\<rparr>"
    let ?st2 = "?st\<lparr>lw_expressions := lw_expressions st1 @ [?lam]\<rparr>"
    have c: "\<forall>j \<in> set (expr_children (ex_expr ?lam)). j < length (lw_expressions st1)" using nth [of k] BLet by (simp add: build_count_def)
    have ok2: "sound fm (lw_expressions ?st2)" using sound_append [OF P(4) c] by simp
    let ?e = "XCall (length (lw_expressions st1)) (take k rs)"
    have take: "\<forall>j \<in> set (take k rs). j < length (lw_expressions st1)" using rs(2) by (meson in_set_takeD)
    have "lower_build b sp (st1\<lparr>lw_work := w\<rparr>) = Some (emit ?e sp ?st2)" using lb BLet by (simp add: push_expr_def)
    then have "pushed fm st w [core_expr (fm_nodes fm) (core_of (fm_nodes fm) (lw_expressions ?st2)) ?e] (emit ?e sp ?st2)"
      using run P ok2 take by (intro emit_pushed) (auto simp: extends_def less_Suc_eq)
    moreover have "core_of (fm_nodes fm) (lw_expressions ?st2) (length (lw_expressions st1)) = CLam k (cs ! k)"
      using core_new [OF soundD [OF P(4)] c, of "fm_nodes fm"] nth [of k] BLet by (simp add: build_count_def)
    moreover have "map (core_of (fm_nodes fm) (lw_expressions ?st2)) (take k rs) = take k cs"
    proof -
      have "map (core_of (fm_nodes fm) (lw_expressions ?st2)) (take k rs) = map ?core (take k rs)"
        using take core_append [OF soundD [OF P(4)], of _ "fm_nodes fm" "[?lam]"] by simp
      then show ?thesis using rs(3) by (simp flip: take_map)
    qed
    ultimately show ?thesis using BLet by auto
  next
    case BIf
    then show ?thesis using one [of "XIf (rs ! 0) (rs ! 1) (rs ! 2)"] lb nth [of 0] nth [of 1] nth [of 2] by (simp add: build_count_def)
  next
    case (BSequence k)
    then show ?thesis using one [of "XSequence rs"] lb rs(2,3) by simp
  next
    case (BLambda k)
    then show ?thesis using one [of "XLambda k (rs ! 0)"] lb nth [of 0] by (simp add: build_count_def)
  next
    case (BCall k)
    then obtain f as where "rs = f # as" using len by (cases rs) (auto simp: build_count_def)
    then show ?thesis using BCall one [of "XCall (rs ! 0) (tl rs)"] lb rs(2,3) by auto
  next
    case (BDefine s)
    then show ?thesis using one [of "XDefine s (rs ! 0)"] lb nth [of 0] by (simp add: build_count_def)
  next
    case (BAssign bd)
    then show ?thesis using one [of "XAssign bd (rs ! 0)"] lb nth [of 0] by (simp add: build_count_def)
  qed
qed

text \<open>The outcome of running the work down to \<open>w\<close>: the results it adds, or an error.\<close>

definition settles :: "form \<Rightarrow> lower_state \<Rightarrow> work list \<Rightarrow> core list option \<Rightarrow> bool" where
  "settles fm st w r \<longleftrightarrow> (case r of Some cs \<Rightarrow> \<exists>st'. pushed fm st w cs st' | None \<Rightarrow> fails fm st)"

lemma settles_start:
  "lower_loop fm st = lower_loop fm st0 \<Longrightarrow> extends st st0 \<Longrightarrow> lw_results st0 = lw_results st \<Longrightarrow> settles fm st0 w r \<Longrightarrow> settles fm st w r"
  by (auto simp: settles_def split: option.splits intro: pushed_start fails_start)

lemma settles_bind:
  assumes "settles fm st w1 r" and "\<And>cs st1. r = Some cs \<Longrightarrow> pushed fm st w1 cs st1 \<Longrightarrow> settles fm st1 w2 q"
  shows "settles fm st w2 (case (r, q) of (Some cs, Some ds) \<Rightarrow> Some (cs @ ds) | _ \<Rightarrow> None)"
proof (cases r)
  case (Some cs)
  then obtain st1 where st1: "pushed fm st w1 cs st1" using assms(1) by (auto simp: settles_def)
  show ?thesis
  proof (cases q)
    case None
    then have "fails fm st1" using assms(2) [OF Some st1] by (simp add: settles_def)
    moreover have "lower_loop fm st = lower_loop fm st1" using st1 by (simp add: pushed_def)
    ultimately show ?thesis using None Some fails_start by (auto simp: settles_def)
  next
    case (Some ds)
    then show ?thesis using assms(2) [OF \<open>r = Some cs\<close> st1] pushed_append [OF st1] \<open>r = Some cs\<close> by (auto simp: settles_def)
  qed
qed (use assms in \<open>simp add: settles_def\<close>)

lemma settles_build:
  assumes "settles fm st (Build b sp # w) r" and "\<And>cs. r = Some cs \<Longrightarrow> length cs = build_count b"
  shows "settles fm st w (map_option (\<lambda>cs. [built b cs]) r)"
  using assms build_pushed by (cases r) (auto simp: settles_def)

text \<open>A state about to visit a node in a scope.\<close>

definition visiting :: "form \<Rightarrow> nat \<Rightarrow> nat option \<Rightarrow> string list list \<Rightarrow> bool \<Rightarrow> work list \<Rightarrow> lower_state \<Rightarrow> bool" where
  "visiting fm i scope sc outer w st \<longleftrightarrow>
     lw_work st = Visit i scope outer # w \<and> chain (lw_scopes st) scope sc \<and> sound fm (lw_expressions st)"

definition good :: "form \<Rightarrow> nat \<Rightarrow> bool" where
  "good fm i \<longleftrightarrow> (\<forall>scope sc outer w st. visiting fm i scope sc outer w st \<longrightarrow>
     settles fm st w (map_option (\<lambda>c. [c]) (compile sc outer (ftree fm i))))"

lemma settles_visits:
  "\<forall>i \<in> set ids. good fm i \<Longrightarrow> lw_work st = map (\<lambda>i. Visit i scope outer) ids @ w \<Longrightarrow> chain (lw_scopes st) scope sc \<Longrightarrow>
     sound fm (lw_expressions st) \<Longrightarrow> settles fm st w (those (map (compile sc outer) (map (ftree fm) ids)))"
proof (induction ids arbitrary: st)
  case Nil
  then show ?case using pushed_none by (auto simp: settles_def)
next
  case (Cons i ids)
  let ?w = "map (\<lambda>i. Visit i scope outer) ids @ w" and ?c = "compile sc outer (ftree fm i)"
  have "visiting fm i scope sc outer ?w st" using Cons.prems by (simp add: visiting_def)
  then have one: "settles fm st ?w (map_option (\<lambda>c. [c]) ?c)" using Cons.prems(1) by (simp add: good_def)
  have "settles fm st w (case (map_option (\<lambda>c. [c]) ?c, those (map (compile sc outer) (map (ftree fm) ids))) of
      (Some cs, Some ds) \<Rightarrow> Some (cs @ ds) | _ \<Rightarrow> None)"
    by (rule settles_bind [OF one], rule Cons.IH) (use Cons.prems extends_chain in \<open>auto simp: pushed_def\<close>)
  then show ?case by (cases ?c) (auto split: option.splits)
qed

lemma those_length: "those xs = Some ys \<Longrightarrow> length ys = length xs"
  by (auto simp: those_Some)

lemma settles_parts:
  assumes "\<forall>i \<in> set ids. good fm i" and "lw_work st = map (\<lambda>i. Visit i scope outer) ids @ Build b sp # w"
    and "chain (lw_scopes st) scope sc" and "sound fm (lw_expressions st)" and "build_count b = length ids"
  shows "settles fm st w (map_option (\<lambda>cs. [built b cs]) (those (map (compile sc outer) (map (ftree fm) ids))))"
proof (rule settles_build [OF settles_visits [OF assms(1-4)]])
  fix cs assume "those (map (compile sc outer) (map (ftree fm) ids)) = Some cs"
  from those_length [OF this] show "length cs = build_count b" using assms(5) by simp
qed

lemma visit_moves:
  assumes "visiting fm i scope sc outer w st" and "settles fm st0 w r"
    and "lower_visit fm i scope outer (st\<lparr>lw_work := w\<rparr>) = Some (Inr st0)" and "extends st st0" and "lw_results st0 = lw_results st"
  shows "settles fm st w r"
  using settles_start [OF loop_step assms(4,5,2)] assms(1,3) by (auto simp: visiting_def lower_step_def)

lemma visit_refused:
  "visiting fm i scope sc outer w st \<Longrightarrow> syntax_error (lower_visit fm i scope outer (st\<lparr>lw_work := w\<rparr>)) \<Longrightarrow> settles fm st w None"
  using loop_fails [of st "Visit i scope outer" w fm] by (auto simp: visiting_def lower_step_def settles_def)

lemma visit_emits:
  assumes "visiting fm i scope sc outer w st"
    and "lower_visit fm i scope outer (st\<lparr>lw_work := w\<rparr>) = Some (Inr (emit e sp (st\<lparr>lw_work := w\<rparr>)))" and "expr_children e = []"
    and "\<forall>q. e = XQuote q \<longrightarrow> q < length (fm_nodes fm)"
  shows "settles fm st w (Some [core_expr (fm_nodes fm) g e])"
proof -
  let ?st = "st\<lparr>lw_work := w\<rparr>"
  have "lower_loop fm st = lower_loop fm (emit e sp ?st)"
    using loop_step assms(1,2) by (simp add: visiting_def lower_step_def)
  then have "pushed fm st w [core_expr (fm_nodes fm) (core_of (fm_nodes fm) (lw_expressions ?st)) e] (emit e sp ?st)"
    by (rule emit_pushed) (use assms in \<open>auto simp: visiting_def extends_def\<close>)
  moreover have "core_expr (fm_nodes fm) (core_of (fm_nodes fm) (lw_expressions ?st)) e = core_expr (fm_nodes fm) g e"
    by (rule core_expr_cong) (simp add: assms(3))
  ultimately show ?thesis by (auto simp: settles_def)
qed

section \<open>Each form\<close>

text \<open>What a visit of a proper list may assume of its parts.\<close>

definition parts_good :: "form \<Rightarrow> nat \<Rightarrow> nat list \<Rightarrow> bool" where
  "parts_good fm i items \<longleftrightarrow> arena_ok (fm_nodes fm) \<and> i < length (fm_nodes fm) \<and> nd_datum (fm_nodes fm ! i) = DList items None
     \<and> (\<forall>j < i. good fm j) \<and> (\<forall>j \<in> set items. j < i)"

lemma lower_visit_list:
  assumes "parts_good fm i (h # ids)"
  shows "lower_visit fm i scope outer st =
     (let sp = nd_span (fm_nodes fm ! i); items = h # ids; k = sym_of (ftree fm h) in
      if k = Some ''quote'' then
        (if length items \<noteq> 2 then Some (Inl (node_error fm i ''quote takes one datum''))
         else Some (Inr (emit (XQuote (items ! 1)) sp st)))
      else if k = Some ''if'' then lower_if fm i items scope st
      else if k = Some ''begin'' then
        Some (Inr (visits ids scope outer (push_work (Build (BSequence (length ids)) sp) st)))
      else if k = Some ''lambda'' then lower_lambda fm i items scope st
      else if k = Some ''define'' then lower_define fm i items scope outer st
      else if k = Some ''set!'' then lower_set fm i items scope st
      else if k = Some ''let'' then lower_let fm i items scope st
      else Some (Inr (visits items scope False (push_work (Build (BCall (length ids)) sp) st))))"
  using assms symbol_at_tree [of h fm] by (simp add: lower_visit_def parts_good_def Let_def)

lemma work_fields [simp]:
  "lw_work (visits ids scope outer st) = map (\<lambda>i. Visit i scope outer) ids @ lw_work st"
  "lw_scopes (visits ids scope outer st) = lw_scopes st" "lw_results (visits ids scope outer st) = lw_results st"
  "lw_expressions (visits ids scope outer st) = lw_expressions st"
  "lw_work (push_work t st) = t # lw_work st" "lw_scopes (push_work t st) = lw_scopes st"
  "lw_results (push_work t st) = lw_results st" "lw_expressions (push_work t st) = lw_expressions st"
  by (simp_all add: visits_def push_work_def)

lemma extends_work [simp]:
  "extends st (visits ids scope outer st') \<longleftrightarrow> extends st st'" "extends st (push_work t st') \<longleftrightarrow> extends st st'"
  "extends st (st'\<lparr>lw_work := w\<rparr>) \<longleftrightarrow> extends st st'"
  "extends st (st\<lparr>lw_work := w, lw_scopes := lw_scopes st @ more_scopes\<rparr>)"
  by (simp_all add: extends_def)

lemma good_parts: "parts_good fm i items \<Longrightarrow> set ids \<subseteq> set items \<Longrightarrow> \<forall>j \<in> set ids. good fm j"
  by (auto simp: parts_good_def)

lemma visit_begin:
  assumes p: "parts_good fm i (h # ids)" and k: "sym_of (ftree fm h) = Some ''begin''" and v: "visiting fm i scope sc outer w st"
  shows "settles fm st w (map_option (\<lambda>cs. [CSeq cs]) (those (map (compile sc outer) (map (ftree fm) ids))))"
proof -
  let ?b = "BSequence (length ids)" and ?sp = "nd_span (fm_nodes fm ! i)"
  let ?st = "visits ids scope outer (push_work (Build ?b ?sp) (st\<lparr>lw_work := w\<rparr>))"
  have "settles fm ?st w (map_option (\<lambda>cs. [built ?b cs]) (those (map (compile sc outer) (map (ftree fm) ids))))"
    by (rule settles_parts [where scope = scope and sp = ?sp])
      (use v good_parts [OF p, of ids] in \<open>auto simp: visiting_def build_count_def\<close>)
  then have "settles fm ?st w (map_option (\<lambda>cs. [CSeq cs]) (those (map (compile sc outer) (map (ftree fm) ids))))" by simp
  then show ?thesis by (rule visit_moves [OF v]) (simp_all add: lower_visit_list [OF p] k)
qed

lemma visit_call:
  assumes p: "parts_good fm i (h # ids)" and v: "visiting fm i scope sc outer w st"
    and k: "sym_of (ftree fm h) \<notin> Some ` {''quote'', ''if'', ''begin'', ''lambda'', ''define'', ''set!'', ''let''}"
  shows "settles fm st w (map_option (\<lambda>cs. [CCall (cs ! 0) (tl cs)]) (those (map (compile sc False) (map (ftree fm) (h # ids)))))"
proof -
  let ?b = "BCall (length ids)" and ?sp = "nd_span (fm_nodes fm ! i)"
  let ?st = "visits (h # ids) scope False (push_work (Build ?b ?sp) (st\<lparr>lw_work := w\<rparr>))"
  have "settles fm ?st w (map_option (\<lambda>cs. [built ?b cs]) (those (map (compile sc False) (map (ftree fm) (h # ids)))))"
    by (rule settles_parts [where scope = scope and sp = ?sp])
      (use v good_parts [OF p, of "h # ids"] in \<open>auto simp: visiting_def build_count_def\<close>)
  then have "settles fm ?st w (map_option (\<lambda>cs. [CCall (cs ! 0) (tl cs)]) (those (map (compile sc False) (map (ftree fm) (h # ids)))))"
    by (simp only: built.simps)
  then show ?thesis by (rule visit_moves [OF v]) (use k in \<open>simp_all add: lower_visit_list [OF p]\<close>)
qed

lemma visit_if:
  assumes p: "parts_good fm i [h, a, b, c]" and k: "sym_of (ftree fm h) = Some ''if''" and v: "visiting fm i scope sc outer w st"
  shows "settles fm st w (map_option (\<lambda>cs. [CIf (cs ! 0) (cs ! 1) (cs ! 2)]) (those (map (compile sc False) (map (ftree fm) [a, b, c]))))"
proof -
  let ?sp = "nd_span (fm_nodes fm ! i)"
  let ?st = "visits [a, b, c] scope False (push_work (Build BIf ?sp) (st\<lparr>lw_work := w\<rparr>))"
  have "settles fm ?st w (map_option (\<lambda>cs. [built BIf cs]) (those (map (compile sc False) (map (ftree fm) [a, b, c]))))"
    by (rule settles_parts [where scope = scope and sp = ?sp])
      (use v good_parts [OF p, of "[a, b, c]"] in \<open>auto simp: visiting_def build_count_def\<close>)
  then have "settles fm ?st w (map_option (\<lambda>cs. [CIf (cs ! 0) (cs ! 1) (cs ! 2)]) (those (map (compile sc False) (map (ftree fm) [a, b, c]))))"
    by (simp only: built.simps)
  then show ?thesis by (rule visit_moves [OF v]) (simp_all add: lower_visit_list [OF p] k lower_if_def)
qed

text \<open>The body of a function, in a scope of its own.\<close>

lemma settles_body:
  assumes p: "\<forall>i \<in> set ids. good fm i" and c: "chain (lw_scopes st) scope sc" and e: "sound fm (lw_expressions st)"
    and s: "push_scope scope ns st = (inner, st')"
  shows "settles fm (visits ids inner False (push_work (Build (BSequence (length ids)) sp) (st'\<lparr>lw_work := w\<rparr>))) w
     (map_option (\<lambda>cs. [CSeq cs]) (those (map (compile (ns # sc) False) (map (ftree fm) ids))))"
proof -
  let ?b = "BSequence (length ids)"
  have S: "inner = Some (length (lw_scopes st))" "lw_scopes st' = lw_scopes st @ [\<lparr>sf_parent = scope, sf_names = ns\<rparr>]"
    "lw_expressions st' = lw_expressions st" using s by (auto simp: push_scope_def)
  have "settles fm (visits ids inner False (push_work (Build ?b sp) (st'\<lparr>lw_work := w\<rparr>))) w
     (map_option (\<lambda>cs. [built ?b cs]) (those (map (compile (ns # sc) False) (map (ftree fm) ids))))"
    by (rule settles_parts [where scope = inner and sp = sp])
      (use p e S chain_push [OF c, of ns] in \<open>simp_all add: build_count_def\<close>)
  then show ?thesis by simp
qed

lemma settles_one:
  assumes "good fm v" and "chain (lw_scopes st) scope sc" and "sound fm (lw_expressions st)" and "build_count b = 1"
  shows "settles fm (push_work (Visit v scope False) (push_work (Build b sp) (st\<lparr>lw_work := w\<rparr>))) w
     (map_option (\<lambda>c. [built b [c]]) (compile sc False (ftree fm v)))"
proof -
  have "settles fm (push_work (Visit v scope False) (push_work (Build b sp) (st\<lparr>lw_work := w\<rparr>))) w
     (map_option (\<lambda>cs. [built b cs]) (those (map (compile sc False) (map (ftree fm) [v]))))"
    by (rule settles_parts [where scope = scope and sp = sp]) (use assms in simp_all)
  then show ?thesis by (simp add: option.map_comp comp_def split: option.splits)
qed

lemma parts_tree: "parts_good fm i items \<Longrightarrow> ftree fm i = SList (map (ftree fm) items) None"
  unfolding parts_good_def using tree_list [of "fm_nodes fm" i items None] by simp

lemma part_range: "parts_good fm i items \<Longrightarrow> j \<in> set items \<Longrightarrow> j < length (fm_nodes fm) \<and> arena_ok (fm_nodes fm) \<and> j < i"
  by (auto simp: parts_good_def)

lemma push_scope_results: "push_scope scope ns st = (inner, st') \<Longrightarrow>
    lw_results st' = lw_results st \<and> lw_work st' = lw_work st \<and> extends st st'"
  by (auto simp: push_scope_def extends_def)

lemma push_work_onto: "push_work t st = st\<lparr>lw_work := t # lw_work st\<rparr>"
  by (simp add: push_work_def)

lemma settles_function:
  assumes "\<forall>i \<in> set ids. good fm i" and "chain (lw_scopes st) scope sc" and "sound fm (lw_expressions st)"
    and s: "push_scope scope ns st = (inner, st')"
  shows "settles fm (visits ids inner False (push_work (Build (BSequence (length ids)) sp)
       (push_work (Build (BLambda (length ns)) sp) (st'\<lparr>lw_work := w\<rparr>)))) w
     (map_option (\<lambda>cs. [CLam (length ns) (CSeq cs)]) (those (map (compile (ns # sc) False) (map (ftree fm) ids))))"
proof -
  let ?b = "BLambda (length ns)"
  have "settles fm (visits ids inner False (push_work (Build (BSequence (length ids)) sp) (push_work (Build ?b sp) (st'\<lparr>lw_work := w\<rparr>)))) w
     (map_option (\<lambda>cs. [built ?b cs]) (map_option (\<lambda>cs. [CSeq cs]) (those (map (compile (ns # sc) False) (map (ftree fm) ids)))))"
    using settles_body [OF assms, of sp "Build ?b sp # w"] by (intro settles_build) (auto simp: push_work_def build_count_def)
  then show ?thesis by (simp add: option.map_comp comp_def)
qed

lemma visit_lambda:
  assumes p: "parts_good fm i (h # ids)" and k: "sym_of (ftree fm h) = Some ''lambda''" and v: "visiting fm i scope sc outer w st"
  shows "settles fm st w (map_option (\<lambda>c. [c]) (compile sc outer (ftree fm i)))"
proof (cases "\<exists>ps b body. ids = ps # b # body")
  case False
  then have "length ids < 2" by (cases ids rule: remdups_adj.cases) auto
  then have "syntax_error (lower_visit fm i scope outer (st\<lparr>lw_work := w\<rparr>))" by (simp add: lower_visit_list [OF p] k lower_lambda_def)
  moreover have "compile sc outer (ftree fm i) = None" using False k by (auto simp: parts_tree [OF p] compile.simps(5) split: list.splits)
  ultimately show ?thesis using visit_refused [OF v] by simp
next
  case True
  then obtain ps b body where ids: "ids = ps # b # body" by blast
  let ?sp = "nd_span (fm_nodes fm ! i)" and ?st = "st\<lparr>lw_work := w\<rparr>"
  have ps: "ps < length (fm_nodes fm)" "arena_ok (fm_nodes fm)" "ps < i" using part_range [OF p, of ps] ids by auto
  have C: "compile sc outer (ftree fm i) = (case Option.bind (plain_of (ftree fm ps)) params_of of
              Some ns \<Rightarrow> map_option (\<lambda>cs. CLam (length ns) (CSeq cs)) (those (map (compile (ns # sc) False) (map (ftree fm) (b # body))))
            | None \<Rightarrow> None)" using k ids by (simp add: parts_tree [OF p] compile.simps(5) cong: option.case_cong)
  from ps(2,1) show ?thesis
  proof (cases rule: list_at_tree)
    case other
    then have "syntax_error (lower_visit fm i scope outer ?st)" using ids by (simp add: lower_visit_list [OF p] k lower_lambda_def)
    then show ?thesis using visit_refused [OF v] C other by simp
  next
    case (plain names)
    have r: "\<forall>j \<in> set names. j < length (fm_nodes fm)" using plain(3) ps by auto
    show ?thesis
    proof (cases "params_of (map (ftree fm) names)")
      case None
      then have "syntax_error (lower_visit fm i scope outer ?st)" using ids plain parameters_spec [OF r]
        by (simp add: lower_visit_list [OF p] k lower_lambda_def Let_def)
      then show ?thesis using visit_refused [OF v] C plain None by simp
    next
      case (Some ns)
      then have pr: "parameters fm names = Some (Inr ns)" using parameters_spec [OF r] by simp
      obtain inner st' where s: "push_scope scope ns ?st = (inner, st')" by fastforce
      have st': "st'\<lparr>lw_work := w\<rparr> = st'" using push_scope_results [OF s] by simp
      let ?st0 = "visits (b # body) inner False (push_work (Build (BSequence (length (b # body))) ?sp) (push_work (Build (BLambda (length ns)) ?sp) st'))"
      have "settles fm ?st0 w (map_option (\<lambda>cs. [CLam (length ns) (CSeq cs)]) (those (map (compile (ns # sc) False) (map (ftree fm) (b # body)))))"
        using settles_function [OF good_parts [OF p, of "b # body"] _ _ s, of sc ?sp w] v ids by (auto simp: visiting_def st')
      then have "settles fm ?st0 w (map_option (\<lambda>c. [c]) (compile sc outer (ftree fm i)))"
        using C plain Some by (simp add: option.map_comp comp_def)
      then show ?thesis by (rule visit_moves [OF v])
          (use push_scope_results [OF s] ids plain pr s in \<open>auto simp: lower_visit_list [OF p] k lower_lambda_def extends_def Let_def\<close>)
    qed
  qed
qed

lemma visit_set:
  assumes p: "parts_good fm i (h # ids)" and k: "sym_of (ftree fm h) = Some ''set!''" and v: "visiting fm i scope sc outer w st"
  shows "settles fm st w (map_option (\<lambda>c. [c]) (compile sc outer (ftree fm i)))"
proof (cases "\<exists>n e. ids = [n, e]")
  case False
  then have "length ids \<noteq> 2" by (auto simp: length_Suc_conv numeral_2_eq_2)
  then have "syntax_error (lower_visit fm i scope outer (st\<lparr>lw_work := w\<rparr>))" by (simp add: lower_visit_list [OF p] k lower_set_def)
  moreover have "compile sc outer (ftree fm i) = None" using False k by (auto simp: parts_tree [OF p] compile.simps(5) split: list.splits)
  ultimately show ?thesis using visit_refused [OF v] by simp
next
  case True
  then obtain n e where ids: "ids = [n, e]" by blast
  have n: "symbol_at fm n = Some (sym_of (ftree fm n))" using part_range [OF p, of n] ids by (simp add: symbol_at_tree)
  show ?thesis
  proof (cases "sym_of (ftree fm n)")
    case None
    then have "syntax_error (lower_visit fm i scope outer (st\<lparr>lw_work := w\<rparr>))" using n ids by (simp add: lower_visit_list [OF p] k lower_set_def)
    then show ?thesis using visit_refused [OF v] None k ids by (simp add: parts_tree [OF p] compile.simps(5))
  next
    case (Some name)
    let ?b = "BAssign (resolve sc name)" and ?sp = "nd_span (fm_nodes fm ! i)"
    have vs: "chain (lw_scopes st) scope sc" "sound fm (lw_expressions st)" using v by (auto simp: visiting_def)
    have g: "good fm e" using good_parts [OF p, of "[e]"] ids by simp
    from settles_one [OF g vs, of ?b ?sp w]
    have "settles fm (push_work (Visit e scope False) (push_work (Build ?b ?sp) (st\<lparr>lw_work := w\<rparr>))) w
        (map_option (\<lambda>c. [c]) (compile sc outer (ftree fm i)))"
      using k ids Some by (simp add: build_count_def parts_tree [OF p] compile.simps(5) option.map_comp comp_def)
    then show ?thesis by (rule visit_moves [OF v])
        (use ids n Some binding_of_resolve [OF vs(1)] in \<open>simp_all add: lower_visit_list [OF p] k lower_set_def\<close>)
  qed
qed

lemma visit_define_value:
  assumes p: "parts_good fm i [h, n, e]" and k: "sym_of (ftree fm h) = Some ''define''" and name: "sym_of (ftree fm n) = Some name"
    and v: "visiting fm i scope sc True w st"
  shows "settles fm st w (map_option (\<lambda>c. [c]) (compile sc True (ftree fm i)))"
proof -
  let ?b = "BDefine name" and ?sp = "nd_span (fm_nodes fm ! i)"
  have vs: "chain (lw_scopes st) scope sc" "sound fm (lw_expressions st)" using v by (auto simp: visiting_def)
  have n: "symbol_at fm n = Some (Some name)" using part_range [OF p, of n] name by (simp add: symbol_at_tree)
  have g: "good fm e" using good_parts [OF p, of "[e]"] by simp
  from settles_one [OF g vs, of ?b ?sp w]
  have "settles fm (push_work (Visit e scope False) (push_work (Build ?b ?sp) (st\<lparr>lw_work := w\<rparr>))) w
      (map_option (\<lambda>c. [c]) (compile sc True (ftree fm i)))"
    using k name by (simp add: build_count_def parts_tree [OF p] compile.simps(5) option.map_comp comp_def)
  then show ?thesis by (rule visit_moves [OF v]) (use n in \<open>simp_all add: lower_visit_list [OF p] k lower_define_def\<close>)
qed

lemma visit_define_function:
  assumes p: "parts_good fm i (h # n # e # rest)" and k: "sym_of (ftree fm h) = Some ''define''"
    and n: "symbol_at fm n = Some None" "sym_of (ftree fm n) = None" "list_at fm n = Some (Some (f # names))"
      "plain_of (ftree fm n) = Some (ftree fm f # map (ftree fm) names)" "sym_of (ftree fm f) = Some name"
      "params_of (map (ftree fm) names) = Some ns" "\<forall>j \<in> set (f # names). j < length (fm_nodes fm)"
    and v: "visiting fm i scope sc True w st"
  shows "settles fm st w (map_option (\<lambda>c. [c]) (compile sc True (ftree fm i)))"
proof -
  let ?b = "BDefine name" and ?sp = "nd_span (fm_nodes fm ! i)" and ?st = "st\<lparr>lw_work := w\<rparr>" and ?body = "e # rest"
  have pr: "parameters fm names = Some (Inr ns)" using parameters_spec [of names fm] n(6,7) by simp
  have f: "symbol_at fm f = Some (Some name)" using n(5,7) by (simp add: symbol_at_tree)
  obtain inner st' where s: "push_scope scope ns ?st = (inner, st')" by fastforce
  let ?st0 = "visits ?body inner False (push_work (Build (BSequence (length ?body)) ?sp)
    (push_work (Build (BLambda (length ns)) ?sp) (push_work (Build ?b ?sp) st')))"
  have "settles fm ?st0 (Build ?b ?sp # w)
      (map_option (\<lambda>cs. [CLam (length ns) (CSeq cs)]) (those (map (compile (ns # sc) False) (map (ftree fm) ?body))))"
    using settles_function [OF good_parts [OF p, of ?body] _ _ s, of sc ?sp "Build ?b ?sp # w"] v push_scope_results [OF s]
    by (auto simp: visiting_def push_work_onto [of _ st'])
  then have "settles fm ?st0 w (map_option (\<lambda>cs. [built ?b cs])
      (map_option (\<lambda>cs. [CLam (length ns) (CSeq cs)]) (those (map (compile (ns # sc) False) (map (ftree fm) ?body)))))"
    by (rule settles_build) (auto simp: build_count_def)
  then have "settles fm ?st0 w (map_option (\<lambda>c. [c]) (compile sc True (ftree fm i)))"
    using k n by (simp add: parts_tree [OF p] compile.simps(5) option.map_comp comp_def cong: option.case_cong)
  then show ?thesis by (rule visit_moves [OF v])
      (use push_scope_results [OF s] n f pr s in \<open>auto simp: lower_visit_list [OF p] k lower_define_def extends_def Let_def\<close>)
qed

lemma visit_define_refused:
  assumes p: "parts_good fm i (h # ids)" and k: "sym_of (ftree fm h) = Some ''define''" and v: "visiting fm i scope sc outer w st"
    and d: "syntax_error (lower_define fm i (h # ids) scope outer (st\<lparr>lw_work := w\<rparr>))" and c: "compile sc outer (ftree fm i) = None"
  shows "settles fm st w (map_option (\<lambda>c. [c]) (compile sc outer (ftree fm i)))"
  using visit_refused [OF v] d c k by (simp add: lower_visit_list [OF p])

lemma visit_define:
  assumes p: "parts_good fm i (h # ids)" and k: "sym_of (ftree fm h) = Some ''define''" and v: "visiting fm i scope sc outer w st"
  shows "settles fm st w (map_option (\<lambda>c. [c]) (compile sc outer (ftree fm i)))"
proof (cases "outer \<and> (\<exists>n e rest. ids = n # e # rest)")
  case False
  have "syntax_error (lower_define fm i (h # ids) scope outer (st\<lparr>lw_work := w\<rparr>))"
    using False by (cases ids rule: remdups_adj.cases) (auto simp: lower_define_def Let_def)
  moreover have "compile sc outer (ftree fm i) = None" using False k by (auto simp: parts_tree [OF p] compile.simps(5) split: list.splits)
  ultimately show ?thesis by (rule visit_define_refused [OF p k v])
next
  case True
  then obtain n e rest where ids: "ids = n # e # rest" and outer: "outer" by blast
  have n: "n < length (fm_nodes fm)" "arena_ok (fm_nodes fm)" "n < i" using part_range [OF p, of n] ids by auto
  have sn: "symbol_at fm n = Some (sym_of (ftree fm n))" using n by (simp add: symbol_at_tree)
  show ?thesis
  proof (cases "sym_of (ftree fm n)")
    case (Some name)
    show ?thesis
    proof (cases "rest = []")
      case True
      then show ?thesis using visit_define_value [of fm i h n e name scope sc w st] p k Some v ids outer by simp
    next
      case False
      show ?thesis by (rule visit_define_refused [OF p k v])
          (use False sn Some ids outer k in \<open>auto simp: lower_define_def Let_def parts_tree [OF p] compile.simps(5)\<close>)
    qed
  next
    case None
    from n(2,1) show ?thesis
    proof (cases rule: list_at_tree)
      case other
      show ?thesis by (rule visit_define_refused [OF p k v])
          (use other sn None ids outer k in \<open>auto simp: lower_define_def Let_def parts_tree [OF p] compile.simps(5)\<close>)
    next
      case (plain items)
      show ?thesis
      proof (cases items)
        case Nil
        show ?thesis by (rule visit_define_refused [OF p k v])
            (use Nil plain sn None ids outer k in \<open>auto simp: lower_define_def Let_def parts_tree [OF p] compile.simps(5)\<close>)
      next
        case (Cons f names)
        have r: "\<forall>j \<in> set (f # names). j < length (fm_nodes fm)" using plain(3) Cons n by auto
        have f: "symbol_at fm f = Some (sym_of (ftree fm f))" using r by (simp add: symbol_at_tree)
        have names: "\<forall>j \<in> set names. j < length (fm_nodes fm)" using r by simp
        note facts = Cons plain sn None ids outer k f
        consider "sym_of (ftree fm f) = None" | name where "sym_of (ftree fm f) = Some name" "params_of (map (ftree fm) names) = None"
          | name ns where "sym_of (ftree fm f) = Some name" "params_of (map (ftree fm) names) = Some ns" by fastforce
        then show ?thesis
        proof cases
          case 1
          show ?thesis by (rule visit_define_refused [OF p k v])
              (use 1 facts in \<open>auto simp: lower_define_def Let_def parts_tree [OF p] compile.simps(5)\<close>)
        next
          case 2
          show ?thesis by (rule visit_define_refused [OF p k v])
              (use 2 facts parameters_spec [OF names] in \<open>auto simp: lower_define_def Let_def parts_tree [OF p] compile.simps(5)\<close>)
        next
          case 3
          then show ?thesis using visit_define_function [of fm i h n e rest f names] p k v facts r by simp
        qed
      qed
    qed
  qed
qed

text \<open>The values of a \<open>let\<close> outside its scope, then its body inside.\<close>

lemma settles_let:
  assumes g: "\<forall>i \<in> set values \<union> set ids. good fm i" and c: "chain (lw_scopes st) scope sc" and e: "sound fm (lw_expressions st)"
    and s: "push_scope scope ns st = (inner, st')" and n: "length values = n"
  shows "settles fm (visits values scope False (visits ids inner False (push_work (Build (BSequence (length ids)) sp)
       (push_work (Build (BLet n) sp) (st'\<lparr>lw_work := w\<rparr>))))) w
     (case (those (map (compile sc False) (map (ftree fm) values)), those (map (compile (ns # sc) False) (map (ftree fm) ids))) of
        (Some vs, Some cs) \<Rightarrow> Some [CCall (CLam n (CSeq cs)) vs] | _ \<Rightarrow> None)"
proof -
  let ?vs = "those (map (compile sc False) (map (ftree fm) values))" and ?cs = "those (map (compile (ns # sc) False) (map (ftree fm) ids))"
  let ?b = "BLet n" and ?q = "BSequence (length ids)"
  let ?w = "map (\<lambda>i. Visit i inner False) ids @ Build ?q sp # Build ?b sp # w"
  let ?st = "visits values scope False (visits ids inner False (push_work (Build ?q sp) (push_work (Build ?b sp) (st'\<lparr>lw_work := w\<rparr>))))"
  have S: "inner = Some (length (lw_scopes st))" "lw_scopes st' = lw_scopes st @ [\<lparr>sf_parent = scope, sf_names = ns\<rparr>]"
    "lw_expressions st' = lw_expressions st" using s by (auto simp: push_scope_def)
  have inner: "chain (lw_scopes st') inner (ns # sc)" unfolding S(1,2) by (rule chain_push [OF c])
  have outer: "chain (lw_scopes st') scope sc" unfolding S(2) by (rule chain_append [OF c])
  have 1: "settles fm ?st ?w ?vs"
    by (rule settles_visits [where scope = scope]) (use g outer e S(3) in auto)
  have 2: "settles fm st1 (Build ?b sp # w) (map_option (\<lambda>cs. [built ?q cs]) ?cs)" if "pushed fm ?st ?w vs st1" for vs st1
  proof (rule settles_parts [where scope = inner and sp = sp])
    show "chain (lw_scopes st1) inner (ns # sc)" using that inner extends_chain [of ?st st1 inner "ns # sc"] by (simp add: pushed_def)
  qed (use that g in \<open>auto simp: pushed_def build_count_def\<close>)
  have len: "length vs = n" if "?vs = Some vs" for vs using those_length [OF that] n by simp
  have "settles fm ?st w (map_option (\<lambda>cs. [built ?b cs])
      (case (?vs, map_option (\<lambda>cs. [built ?q cs]) ?cs) of (Some cs, Some ds) \<Rightarrow> Some (cs @ ds) | _ \<Rightarrow> None))"
    by (rule settles_build [OF settles_bind [OF 1 2]]) (use len in \<open>auto simp: build_count_def split: option.splits\<close>)
  moreover have "map_option (\<lambda>cs. [built ?b cs])
      (case (?vs, map_option (\<lambda>cs. [built ?q cs]) ?cs) of (Some cs, Some ds) \<Rightarrow> Some (cs @ ds) | _ \<Rightarrow> None)
     = (case (?vs, ?cs) of (Some vs, Some cs) \<Rightarrow> Some [CCall (CLam n (CSeq cs)) vs] | _ \<Rightarrow> None)"
    using len by (cases ?vs; cases ?cs) (auto simp: nth_append)
  ultimately show ?thesis by (simp only:)
qed

lemma visit_let_refused:
  assumes p: "parts_good fm i (h # ids)" and k: "sym_of (ftree fm h) = Some ''let''" and v: "visiting fm i scope sc outer w st"
    and d: "syntax_error (lower_let fm i (h # ids) scope (st\<lparr>lw_work := w\<rparr>))" and c: "compile sc outer (ftree fm i) = None"
  shows "settles fm st w (map_option (\<lambda>c. [c]) (compile sc outer (ftree fm i)))"
  using visit_refused [OF v] d c k by (simp add: lower_visit_list [OF p])

lemma visit_let:
  assumes p: "parts_good fm i (h # ids)" and k: "sym_of (ftree fm h) = Some ''let''" and v: "visiting fm i scope sc outer w st"
  shows "settles fm st w (map_option (\<lambda>c. [c]) (compile sc outer (ftree fm i)))"
proof (cases "\<exists>bs b body. ids = bs # b # body")
  case False
  have "syntax_error (lower_let fm i (h # ids) scope (st\<lparr>lw_work := w\<rparr>))"
    using False by (cases ids rule: remdups_adj.cases) (auto simp: lower_let_def Let_def)
  moreover have "compile sc outer (ftree fm i) = None" using False k by (auto simp: parts_tree [OF p] compile.simps(5) split: list.splits)
  ultimately show ?thesis by (rule visit_let_refused [OF p k v])
next
  case True
  then obtain bs b body where ids: "ids = bs # b # body" by blast
  let ?sp = "nd_span (fm_nodes fm ! i)" and ?st = "st\<lparr>lw_work := w\<rparr>" and ?body = "b # body"
  have bs: "bs < length (fm_nodes fm)" "arena_ok (fm_nodes fm)" "bs < i" using part_range [OF p, of bs] ids by auto
  note refused = visit_let_refused [OF p k v]
  from bs(2,1) show ?thesis
  proof (cases rule: list_at_tree)
    case other
    show ?thesis by (rule refused) (use other ids k in \<open>auto simp: lower_let_def Let_def parts_tree [OF p] compile.simps(5)\<close>)
  next
    case (plain entries)
    have r: "\<forall>j \<in> set entries. j < length (fm_nodes fm)" using plain(3) bs by auto
    note spec = let_entries_spec [OF bs(2) r, of i]
    show ?thesis
    proof (cases "entries_of (map (ftree fm) entries)")
      case None
      show ?thesis by (rule refused) (use None spec plain ids k in \<open>auto simp: lower_let_def Let_def parts_tree [OF p] compile.simps(5)\<close>)
    next
      case (Some es)
      obtain names vals where le: "let_entries fm i entries = Some (Inr (names, vals))" "map fst es = map (ftree fm) names"
        "map snd es = map (ftree fm) vals" "\<forall>j \<in> set names \<union> set vals. \<exists>e \<in> set entries. j < e"
        using spec Some by auto
      have below: "\<forall>j \<in> set names \<union> set vals. j < bs" using le(4) plain(3) by (meson less_trans)
      have len: "length names = length entries" "length vals = length entries"
        using those_length [of "map entry_of (map (ftree fm) entries)" es] Some arg_cong [OF le(2), of length] arg_cong [OF le(3), of length]
        by (simp_all add: entries_of_def)
      have names: "\<forall>j \<in> set names. j < length (fm_nodes fm)" using below bs(1) by (meson UnI1 less_trans)
      show ?thesis
      proof (cases "params_of (map (ftree fm) names)")
        case None
        show ?thesis by (rule refused)
            (use None parameters_spec [OF names] plain ids k le Some in \<open>auto simp: lower_let_def Let_def parts_tree [OF p] compile.simps(5)\<close>)
      next
        case ns: (Some ns)
        have pr: "parameters fm names = Some (Inr ns)" "length ns = length entries" using parameters_spec [OF names] ns len by auto
        obtain inner st' where s: "push_scope scope ns ?st = (inner, st')" by fastforce
        have st': "st'\<lparr>lw_work := w\<rparr> = st'" using push_scope_results [OF s] by simp
        let ?st0 = "visits vals scope False (visits ?body inner False (push_work (Build (BSequence (length ?body)) ?sp)
          (push_work (Build (BLet (length entries)) ?sp) st')))"
        have "\<forall>j \<in> set vals. j < i" using below bs(3) by (meson UnI2 less_trans)
        then have g: "\<forall>j \<in> set vals \<union> set ?body. good fm j" using p ids by (auto simp: parts_good_def)
        have C: "map_option (\<lambda>c. [c]) (compile sc outer (ftree fm i)) =
            (case (those (map (compile sc False) (map (ftree fm) vals)), those (map (compile (ns # sc) False) (map (ftree fm) ?body))) of
               (Some vs, Some cs) \<Rightarrow> Some [CCall (CLam (length entries) (CSeq cs)) vs] | _ \<Rightarrow> None)"
        proof -
          have "map (\<lambda>e. compile sc False (snd e)) es = map (compile sc False) (map (ftree fm) vals)" by (simp flip: le(3))
          then show ?thesis using k ids plain Some ns le(2) pr(2) by (simp add: parts_tree [OF p] compile.simps(5) split: option.splits)
        qed
        have "settles fm ?st0 w (map_option (\<lambda>c. [c]) (compile sc outer (ftree fm i)))"
          unfolding C using settles_let [OF g _ _ s len(2), of sc ?sp w] v by (simp only: st') (simp add: visiting_def)
        then show ?thesis by (rule visit_moves [OF v])
            (use push_scope_results [OF s] ids plain pr s le in \<open>auto simp: lower_visit_list [OF p] k lower_let_def extends_def Let_def\<close>)
      qed
    qed
  qed
qed

section \<open>Every node\<close>

lemma visit_quote:
  assumes p: "parts_good fm i (h # ids)" and k: "sym_of (ftree fm h) = Some ''quote''" and v: "visiting fm i scope sc outer w st"
  shows "settles fm st w (map_option (\<lambda>c. [c]) (compile sc outer (ftree fm i)))"
proof (cases "\<exists>y. ids = [y]")
  case True
  then obtain y where y: "ids = [y]" by blast
  then show ?thesis using visit_emits [OF v, of "XQuote y" "nd_span (fm_nodes fm ! i)"] k part_range [OF p, of y]
    by (simp add: lower_visit_list [OF p] parts_tree [OF p] compile.simps(5))
next
  case False
  then have "syntax_error (lower_visit fm i scope outer (st\<lparr>lw_work := w\<rparr>))"
    by (cases ids rule: remdups_adj.cases) (auto simp: lower_visit_list [OF p] k)
  moreover have "compile sc outer (ftree fm i) = None" using False k by (auto simp: parts_tree [OF p] compile.simps(5) split: list.splits)
  ultimately show ?thesis using visit_refused [OF v] by simp
qed

lemma list_of_3: "length xs = 3 \<longleftrightarrow> (\<exists>a b c. xs = [a, b, c])"
  by (auto simp: length_Suc_conv numeral_3_eq_3)

lemma visit_if_any:
  assumes p: "parts_good fm i (h # ids)" and k: "sym_of (ftree fm h) = Some ''if''" and v: "visiting fm i scope sc outer w st"
  shows "settles fm st w (map_option (\<lambda>c. [c]) (compile sc outer (ftree fm i)))"
proof (cases "length ids = 3")
  case True
  then obtain a b c where ids: "ids = [a, b, c]" by (auto simp: list_of_3)
  have "map_option (\<lambda>cs. [CIf (cs ! 0) (cs ! 1) (cs ! 2)]) (those (map (compile sc False) (map (ftree fm) [a, b, c])))
      = map_option (\<lambda>c. [c]) (compile sc outer (ftree fm i))"
    using k ids by (simp add: parts_tree [OF p] compile.simps(5) split: option.splits)
  then show ?thesis using visit_if [of fm i h a b c scope sc outer w st] p k v ids by simp
next
  case False
  then have "syntax_error (lower_visit fm i scope outer (st\<lparr>lw_work := w\<rparr>))" by (simp add: lower_visit_list [OF p] k lower_if_def)
  moreover have "compile sc outer (ftree fm i) = None" using False k by (auto simp: parts_tree [OF p] compile.simps(5) split: list.splits)
  ultimately show ?thesis using visit_refused [OF v] by simp
qed

lemma visit_list:
  assumes p: "parts_good fm i (h # ids)" and v: "visiting fm i scope sc outer w st"
  shows "settles fm st w (map_option (\<lambda>c. [c]) (compile sc outer (ftree fm i)))"
proof -
  let ?k = "sym_of (ftree fm h)"
  consider "?k = Some ''quote''" | "?k = Some ''if''" | "?k = Some ''begin''" | "?k = Some ''lambda''" | "?k = Some ''define''"
    | "?k = Some ''set!''" | "?k = Some ''let''"
    | "?k \<notin> Some ` {''quote'', ''if'', ''begin'', ''lambda'', ''define'', ''set!'', ''let''}" by blast
  then show ?thesis
  proof cases
    case 3
    then show ?thesis using visit_begin [OF p 3 v] by (simp add: parts_tree [OF p] compile.simps(5) option.map_comp comp_def)
  next
    case 8
    then have "map_option (\<lambda>cs. [CCall (cs ! 0) (tl cs)]) (those (map (compile sc False) (map (ftree fm) (h # ids))))
        = map_option (\<lambda>c. [c]) (compile sc outer (ftree fm i))"
      by (auto simp: parts_tree [OF p] compile.simps(5) Let_def split: option.splits)
    then show ?thesis using visit_call [OF p v 8] by simp
  qed (rule visit_quote [OF p] visit_if_any [OF p] visit_lambda [OF p] visit_define [OF p] visit_set [OF p] visit_let [OF p], assumption, rule v)+
qed

lemma visit_node:
  assumes ok: "arena_ok (fm_nodes fm)" and i: "i < length (fm_nodes fm)" and IH: "\<forall>j < i. good fm j" and v: "visiting fm i scope sc outer w st"
  shows "settles fm st w (map_option (\<lambda>c. [c]) (compile sc outer (ftree fm i)))"
proof (cases "nd_datum (fm_nodes fm ! i)")
  case (DAtom a)
  have t: "ftree fm i = SAtom a" using DAtom by (simp add: tree.simps [of _ i])
  show ?thesis
  proof (cases "\<exists>s. a = ASymbol s")
    case True
    then obtain s where s: "a = ASymbol s" by blast
    have "binding_of s (lw_scopes st) scope = Some (resolve sc s)" using v binding_of_resolve by (simp add: visiting_def)
    then show ?thesis using visit_emits [OF v, of "XReference (resolve sc s)" "nd_span (fm_nodes fm ! i)"] DAtom s i t
      by (simp add: lower_visit_def compile.simps(1))
  next
    case False
    then have "lower_visit fm i scope outer (st\<lparr>lw_work := w\<rparr>) = Some (Inr (emit (XLiteral a) (nd_span (fm_nodes fm ! i)) (st\<lparr>lw_work := w\<rparr>)))"
      using i DAtom by (cases a) (auto simp: lower_visit_def Let_def)
    then show ?thesis using visit_emits [OF v, of "XLiteral a"] t False by (cases a) (auto simp: compile.simps(1))
  qed
next
  case (DQuote q)
  have "ftree fm i = SQuote (ftree fm q)" using tree_quote [OF ok i DQuote] .
  moreover have "q < length (fm_nodes fm)" using arena_child [OF ok i, of q] DQuote i by (simp add: node_children_def)
  ultimately show ?thesis using visit_emits [OF v, of "XQuote q" "nd_span (fm_nodes fm ! i)"] DQuote i
    by (simp add: lower_visit_def compile.simps(2))
next
  case (DList items tail)
  have t: "ftree fm i = SList (map (ftree fm) items) (map_option (ftree fm) tail)" using tree_list [OF ok i DList] .
  consider t where "tail = Some t" | "tail = None" "items = []" | h ids where "tail = None" "items = h # ids"
    by (cases tail; cases items) auto
  then show ?thesis
  proof cases
    case 1
    then show ?thesis using visit_refused [OF v] DList i t by (simp add: lower_visit_def compile.simps(3))
  next
    case 2
    then show ?thesis using visit_emits [OF v, of "XQuote i" "nd_span (fm_nodes fm ! i)"] DList i t
      by (simp add: lower_visit_def compile.simps(4))
  next
    case 3
    have "\<forall>j \<in> set items. j < i" using arena_child [OF ok i] DList by (auto simp: node_children_def)
    then have "parts_good fm i (h # ids)" using 3 DList ok i IH by (simp add: parts_good_def)
    then show ?thesis using v by (rule visit_list)
  qed
qed

lemma every_node_good: "arena_ok (fm_nodes fm) \<Longrightarrow> i < length (fm_nodes fm) \<Longrightarrow> good fm i"
proof (induction i rule: less_induct)
  case (less i)
  then show ?case using visit_node [of fm i] by (auto simp: good_def)
qed

section \<open>References stay in scope\<close>

fun binding_ok :: "nat list \<Rightarrow> binding \<Rightarrow> bool" where
  "binding_ok ps (Local d k) \<longleftrightarrow> d < length ps \<and> k < ps ! d"
| "binding_ok ps (Global _) \<longleftrightarrow> True"

fun atom_ok :: "atom \<Rightarrow> bool" where
  "atom_ok (AString s) \<longleftrightarrow> utf8_valid s"
| "atom_ok _ \<longleftrightarrow> True"

text \<open>In an expression whose enclosing functions have these numbers of parameters every reference names one of them.\<close>

fun scoped :: "nat list \<Rightarrow> core \<Rightarrow> bool" where
  "scoped ps (CLit a) \<longleftrightarrow> atom_ok a"
| "scoped ps (CQuote _) \<longleftrightarrow> True"
| "scoped ps (CRef b) \<longleftrightarrow> binding_ok ps b"
| "scoped ps (CIf a b c) \<longleftrightarrow> scoped ps a \<and> scoped ps b \<and> scoped ps c"
| "scoped ps (CSeq cs) \<longleftrightarrow> (\<forall>c \<in> set cs. scoped ps c)"
| "scoped ps (CLam n c) \<longleftrightarrow> scoped (n # ps) c"
| "scoped ps (CCall f cs) \<longleftrightarrow> scoped ps f \<and> (\<forall>c \<in> set cs. scoped ps c)"
| "scoped ps (CDef _ c) \<longleftrightarrow> scoped ps c"
| "scoped ps (CSet b c) \<longleftrightarrow> binding_ok ps b \<and> scoped ps c"

inductive sexp_ok :: "sexp \<Rightarrow> bool" where
  "atom_ok a \<Longrightarrow> sexp_ok (SAtom a)"
| "sexp_ok x \<Longrightarrow> sexp_ok (SQuote x)"
| "(\<And>x. x \<in> set xs \<Longrightarrow> sexp_ok x) \<Longrightarrow> (\<And>x. t = Some x \<Longrightarrow> sexp_ok x) \<Longrightarrow> sexp_ok (SList xs t)"

inductive_simps sexp_ok_simps [simp]: "sexp_ok (SAtom a)" "sexp_ok (SQuote x)" "sexp_ok (SList xs t)"

lemma position_bound: "position P xs = Some k \<Longrightarrow> k < length xs"
  by (simp add: position_SomeD)

lemma resolve_from_ok:
  "resolve_from d sc s = b \<Longrightarrow> case b of Local e k \<Rightarrow> d \<le> e \<and> e < d + length sc \<and> k < length (sc ! (e - d)) | Global _ \<Rightarrow> True"
proof (induction sc arbitrary: d)
  case (Cons ns sc)
  show ?case
  proof (cases "position (\<lambda>n. n = s) ns")
    case None
    then show ?thesis using Cons by (fastforce simp: Suc_diff_le split: binding.splits)
  next
    case (Some k)
    then show ?thesis using Cons.prems position_bound [OF Some] by auto
  qed
qed auto

lemma resolve_ok: "binding_ok (map length sc) (resolve sc s)"
  using resolve_from_ok [of 0 sc s] by (cases "resolve sc s") auto

lemma those_all:
  assumes "those (map f xs) = Some cs" and "\<And>x c. x \<in> set xs \<Longrightarrow> f x = Some c \<Longrightarrow> P c"
  shows "\<forall>c \<in> set cs. P c"
proof
  fix c assume "c \<in> set cs"
  then have "Some c \<in> set (map f xs)" using assms(1) by (auto simp: those_Some)
  then show "P c" using assms(2) by auto
qed

lemma plain_ok: "plain_of x = Some xs \<Longrightarrow> sexp_ok x \<Longrightarrow> y \<in> set xs \<Longrightarrow> sexp_ok y"
  by (cases x rule: plain_of.cases) auto

lemma entries_ok:
  assumes "entries_of xs = Some es" and "\<And>x. x \<in> set xs \<Longrightarrow> sexp_ok x" and "e \<in> set es"
  shows "sexp_ok (snd e)"
proof -
  obtain x where x: "x \<in> set xs" "entry_of x = Some e"
    using assms(1,3) by (auto simp: entries_of_def those_Some) (metis imageE image_eqI list.set_map)
  then show ?thesis using assms(2) [OF x(1)] by (cases x rule: entry_of.cases) auto
qed

text \<open>One proper list, given the claim for the smaller forms.\<close>

lemma scoped_list:
  assumes IH: "\<And>y sc outer c. size y < size (SList (h # xs) None) \<Longrightarrow> compile sc outer y = Some c \<Longrightarrow> sexp_ok y \<Longrightarrow> scoped (map length sc) c"
    and c: "compile sc outer (SList (h # xs) None) = Some c" and ok: "\<And>y. y \<in> set (h # xs) \<Longrightarrow> sexp_ok y"
  shows "scoped (map length sc) c"
proof -
  have sz: "size y < size (SList (h # xs) None)" if "y \<in> set (h # xs)" for y using list_element_size [OF that] by simp
  have one: "scoped (map length sc') d" if "compile sc' o' y = Some d" "y \<in> set (h # xs)" for sc' o' y d
    using IH [OF sz [OF that(2)] that(1) ok [OF that(2)]] .
  have all: "\<forall>d \<in> set cs. scoped (map length sc') d" if "those (map (compile sc' o') ys) = Some cs" "set ys \<subseteq> set (h # xs)" for sc' o' ys cs
    by (rule those_all [OF that(1)]) (use one that(2) in blast)
  have fn: "\<forall>d \<in> set cs. scoped (length ns # map length sc) d"
    if "those (map (compile (ns # sc) False) ys) = Some cs" "set ys \<subseteq> set (h # xs)" for ns ys cs
    using all [OF that] by simp
  let ?k = "sym_of h"
  consider "?k = Some ''quote''" | "?k = Some ''if''" | "?k = Some ''begin''" | "?k = Some ''lambda''" | "?k = Some ''define''"
    | "?k = Some ''set!''" | "?k = Some ''let''"
    | "?k \<notin> Some ` {''quote'', ''if'', ''begin'', ''lambda'', ''define'', ''set!'', ''let''}" by blast
  then show ?thesis
  proof cases
    case 1
    then show ?thesis using c by (auto simp: compile.simps(5) split: list.splits)
  next
    case 2
    then show ?thesis using c one by (auto simp: compile.simps(5) split: list.splits option.splits)
  next
    case 3
    then show ?thesis using c all [of sc outer xs, OF _ set_subset_Cons] by (auto simp: compile.simps(5))
  next
    case 4
    then obtain ps b body ns cs where "xs = ps # b # body" "those (map (compile (ns # sc) False) (b # body)) = Some cs" "c = CLam (length ns) (CSeq cs)"
      using c by (auto simp: compile.simps(5) simp del: those.simps split: list.splits option.splits)
    then show ?thesis using fn [of ns "b # body" cs] by auto
  next
    case 5
    then consider n v name d where "xs = [n, v]" "compile sc False v = Some d" "c = CDef name d"
      | n v rest name ns cs where "xs = n # v # rest" "those (map (compile (ns # sc) False) (v # rest)) = Some cs" "c = CDef name (CLam (length ns) (CSeq cs))"
      using c by (auto simp: compile.simps(5) simp del: those.simps split: list.splits option.splits if_splits)
    then show ?thesis
    proof cases
      case 1
      then show ?thesis using one [of sc False v d] by simp
    next
      case 2
      then show ?thesis using fn [of ns "v # rest" cs] by auto
    qed
  next
    case 6
    then show ?thesis using c one resolve_ok by (auto simp: compile.simps(5) split: list.splits option.splits)
  next
    case 7
    then obtain bs b body es ys ns vs cs where l: "xs = bs # b # body" "plain_of bs = Some ys" "entries_of ys = Some es"
      "those (map (\<lambda>e. compile sc False (snd e)) es) = Some vs" "those (map (compile (ns # sc) False) (b # body)) = Some cs"
      "c = CCall (CLam (length ns) (CSeq cs)) vs"
      using c by (auto simp: compile.simps(5) bind_eq_Some_conv simp del: those.simps split: list.splits option.splits)
    have "scoped (map length sc) d" if "e \<in> set es" "compile sc False (snd e) = Some d" for e d
    proof (rule IH [OF _ that(2)])
      have "size (snd e) < size bs" using entries_size [OF l(3) _ l(2), of "fst e" "snd e"] that(1) by simp
      then show "size (snd e) < size (SList (h # xs) None)" using sz [of bs] l(1) by simp
      show "sexp_ok (snd e)" by (rule entries_ok [OF l(3) _ that(1)]) (use plain_ok [OF l(2)] ok l(1) in auto)
    qed
    then have "\<forall>d \<in> set vs. scoped (map length sc) d" by (intro those_all [OF l(4)])
    then show ?thesis using fn [OF l(5)] l(1,6) by auto
  next
    case 8
    then obtain f cs where "compile sc False h = Some f" "those (map (compile sc False) xs) = Some cs" "c = CCall f cs"
      using c by (auto simp: compile.simps(5) Let_def split: option.splits)
    then show ?thesis using one [of sc False h f] all [of sc False xs cs] by auto
  qed
qed

lemma compile_scoped: "compile sc outer x = Some c \<Longrightarrow> sexp_ok x \<Longrightarrow> scoped (map length sc) c"
proof (induction "size x" arbitrary: sc outer x c rule: less_induct)
  case less
  show ?case
  proof (cases x)
    case (SAtom a)
    then show ?thesis using less.prems resolve_ok by (auto simp: compile.simps(1) split: atom.splits)
  next
    case (SQuote y)
    then show ?thesis using less.prems by (auto simp: compile.simps(2))
  next
    case (SList ys t)
    show ?thesis
    proof (cases t)
      case (Some y)
      then show ?thesis using SList less.prems(1) by (simp add: compile.simps(3))
    next
      case None
      show ?thesis
      proof (cases ys)
        case Nil
        then show ?thesis using SList None less.prems(1) by (auto simp: compile.simps(4))
      next
        case (Cons h xs)
        show ?thesis by (rule scoped_list [of h xs]) (use less SList None Cons in auto)
      qed
    qed
  qed
qed

lemma lower_runs:
  assumes "arena_ok (fm_nodes fm)" and "fm_root fm < length (fm_nodes fm)"
  shows "compile [] True (ftree fm (fm_root fm)) = Some c \<Longrightarrow>
       \<exists>m. lower_form fm = Some (Some (Inr m)) \<and> md_form m = fm \<and> sound fm (md_expressions m)
         \<and> md_root m < length (md_expressions m) \<and> core_of (fm_nodes fm) (md_expressions m) (md_root m) = c"
    and "compile [] True (ftree fm (fm_root fm)) = None \<Longrightarrow> \<exists>e. lower_form fm = Some (Some (Inl e)) \<and> dg_kind e = ESyntax"
proof -
  have "visiting fm (fm_root fm) None [] True [] (lower_start fm)" by (simp add: visiting_def lower_start_def sound_def exprs_ok_def quotes_ok_def)
  then have S: "settles fm (lower_start fm) [] (map_option (\<lambda>c. [c]) (compile [] True (ftree fm (fm_root fm))))"
    using every_node_good [OF assms] by (simp add: good_def)
  { assume "compile [] True (ftree fm (fm_root fm)) = None"
    then show "\<exists>e. lower_form fm = Some (Some (Inl e)) \<and> dg_kind e = ESyntax"
      using S by (auto simp: settles_def fails_def syntax_error_def lower_form_def) }
  { assume Some: "compile [] True (ftree fm (fm_root fm)) = Some c"
    then obtain st where st: "pushed fm (lower_start fm) [] [c] st" using S by (auto simp: settles_def)
    then obtain r where r: "lower_loop fm (lower_start fm) = lower_loop fm st" "lw_work st = []" "sound fm (lw_expressions st)" "lw_results st = [r]"
      "r < length (lw_expressions st)" "core_of (fm_nodes fm) (lw_expressions st) r = c" by (auto simp: pushed_def lower_start_def)
    have "lower_loop fm (lower_start fm) = Some (Some (Inr st))" unfolding r(1) by (subst lower_loop.simps) (simp add: r(2))
    then show "\<exists>m. lower_form fm = Some (Some (Inr m)) \<and> md_form m = fm \<and> sound fm (md_expressions m)
         \<and> md_root m < length (md_expressions m) \<and> core_of (fm_nodes fm) (md_expressions m) (md_root m) = c"
      using r by (simp add: lower_form_def) }
qed

text \<open>
  C36: lowering a form whose nodes come after their parts always returns, without a panic, and
  agrees with the recursive reference compiler: where that compiler has a translation, the
  module's arena of expressions reads back as it; where it has none, the result is a syntax
  error.
\<close>

theorem lower_correct:
  assumes "arena_ok (fm_nodes fm)" and "fm_root fm < length (fm_nodes fm)"
  shows "case compile [] True (ftree fm (fm_root fm)) of
     Some c \<Rightarrow> \<exists>m. lower_form fm = Some (Some (Inr m)) \<and> md_form m = fm \<and> sound fm (md_expressions m)
        \<and> md_root m < length (md_expressions m) \<and> core_of (fm_nodes fm) (md_expressions m) (md_root m) = c
   | None \<Rightarrow> \<exists>e. lower_form fm = Some (Some (Inl e)) \<and> dg_kind e = ESyntax"
  using lower_runs [OF assms] by (simp split: option.split)

text \<open>The form \<open>(lambda (x) (set! x y))\<close>.\<close>

definition lambda_form :: form where
  "lambda_form = \<lparr>fm_source = \<lparr>so_name = ''t'', so_text = []\<rparr>, fm_nodes = map (\<lambda>d. \<lparr>nd_datum = d, nd_span = span_default\<rparr>)
     [DAtom (ASymbol ''lambda''), DAtom (ASymbol ''x''), DList [1] None, DAtom (ASymbol ''set!''), DAtom (ASymbol ''x''),
      DAtom (ASymbol ''y''), DList [3, 4, 5] None, DList [0, 2, 6] None], fm_root = 7, fm_depth = 2\<rparr>"

theorem lower_correct_witness:
  "\<exists>m. lower_form lambda_form = Some (Some (Inr m))
     \<and> core_of (fm_nodes lambda_form) (md_expressions m) (md_root m) = CLam 1 (CSeq [CSet (Local 0 0) (CRef (Global ''y''))])"
proof -
  have ok: "arena_ok (fm_nodes lambda_form)" by (simp add: arena_ok_def lambda_form_def node_children_def All_less_Suc numeral_nat)
  have "ftree lambda_form (fm_root lambda_form) = SList [SAtom (ASymbol ''lambda''), SList [SAtom (ASymbol ''x'')] None,
      SList [SAtom (ASymbol ''set!''), SAtom (ASymbol ''x''), SAtom (ASymbol ''y'')] None] None"
    by (simp add: lambda_form_def tree.simps)
  then have "compile [] True (ftree lambda_form (fm_root lambda_form)) = Some (CLam 1 (CSeq [CSet (Local 0 0) (CRef (Global ''y''))]))"
    by (simp add: compile.simps params_of_def)
  then show ?thesis using lower_correct [OF ok] by (auto simp: lambda_form_def)
qed

section \<open>Lowered modules are well scoped\<close>

definition atoms_ok :: "node list \<Rightarrow> bool" where
  "atoms_ok nodes \<longleftrightarrow> (\<forall>nd \<in> set nodes. \<forall>a. nd_datum nd = DAtom a \<longrightarrow> atom_ok a)"

lemma tree_ok: "arena_ok nodes \<Longrightarrow> atoms_ok nodes \<Longrightarrow> i < length nodes \<Longrightarrow> sexp_ok (tree nodes i)"
proof (induction i rule: less_induct)
  case (less i)
  have child: "sexp_ok (tree nodes j)" if "j \<in> set (node_children (nodes ! i))" for j
    using less arena_child [of nodes i j] that by auto
  show ?case
  proof (cases "nd_datum (nodes ! i)")
    case (DAtom a)
    then show ?thesis using less.prems by (auto simp: tree_atom atoms_ok_def)
  next
    case (DList items tail)
    then show ?thesis using child tree_list [OF less.prems(1,3) DList] by (auto simp: node_children_def split: option.splits)
  next
    case (DQuote q)
    then show ?thesis using child tree_quote [OF less.prems(1,3) DQuote] by (simp add: node_children_def)
  qed
qed

text \<open>
  C37: in the module that lowering returns every reference to a parameter names an enclosing
  function that exists and a parameter that it has, every part of an expression comes before
  it, and every quotation names a node of the form; so running it never looks up a variable
  outside its environment, an expression outside the module or a node outside the form.
\<close>

theorem lower_scoped:
  assumes "arena_ok (fm_nodes fm)" and "fm_root fm < length (fm_nodes fm)" and "atoms_ok (fm_nodes fm)"
    and "lower_form fm = Some (Some (Inr m))"
  shows "scoped [] (core_of (fm_nodes fm) (md_expressions m) (md_root m)) \<and> exprs_ok (md_expressions m)
    \<and> quotes_ok (fm_nodes fm) (md_expressions m) \<and> md_root m < length (md_expressions m)"
proof (cases "compile [] True (ftree fm (fm_root fm))")
  case None
  then show ?thesis using lower_runs(2) [OF assms(1,2)] assms(4) by auto
next
  case (Some c)
  have "scoped [] c" using compile_scoped [OF Some tree_ok [OF assms(1,3,2)]] by simp
  then show ?thesis using lower_runs(1) [OF assms(1,2) Some] assms(4) by (auto simp: sound_def)
qed

theorem lower_scoped_witness:
  "\<exists>m. lower_form lambda_form = Some (Some (Inr m))
     \<and> scoped [] (core_of (fm_nodes lambda_form) (md_expressions m) (md_root m)) \<and> md_root m < length (md_expressions m)"
proof -
  have ok: "arena_ok (fm_nodes lambda_form)" by (simp add: arena_ok_def lambda_form_def node_children_def All_less_Suc numeral_nat)
  have at: "atoms_ok (fm_nodes lambda_form)" by (simp add: atoms_ok_def lambda_form_def)
  have root: "fm_root lambda_form < length (fm_nodes lambda_form)" by (simp add: lambda_form_def)
  have "ftree lambda_form (fm_root lambda_form) = SList [SAtom (ASymbol ''lambda''), SList [SAtom (ASymbol ''x'')] None,
      SList [SAtom (ASymbol ''set!''), SAtom (ASymbol ''x''), SAtom (ASymbol ''y'')] None] None"
    by (simp add: lambda_form_def tree.simps)
  then have "compile [] True (ftree lambda_form (fm_root lambda_form)) = Some (CLam 1 (CSeq [CSet (Local 0 0) (CRef (Global ''y''))]))"
    by (simp add: compile.simps params_of_def)
  then obtain m where "lower_form lambda_form = Some (Some (Inr m))" using lower_runs(1) [OF ok root] by blast
  then show ?thesis using lower_scoped [OF ok root at] by blast
qed

end
