(* ===== verification/Lisp_Heap.thy ===== *)
theory Lisp_Heap
  imports Lisp_Lower
begin

text \<open>
  The garbage-collected heap of the Lisp runtime (\<open>crates/lisp/src/runtime/heap.rs\<close>,
  \<open>value.rs\<close>, \<open>env.rs\<close>): slots with generations, handles, allocation within a budget,
  and collection by marking and sweeping.

  Sizes of Rust types and the capacity the allocator gives a vector of some length are
  fields of \<open>sizes\<close>. The answers of the global allocator to the fallible reservations are
  the list \<open>hp_grants\<close>; when it is used up every request is granted. The free list has its
  top first. A generation is a number below \<open>2 ^ 32\<close>.
\<close>

section \<open>Data\<close>

record handle =
  hd_slot :: nat
  hd_generation :: nat

datatype lvalue = VNil | VInteger int | VBoolean bool | VObject handle | VBuiltin nat | VNative nat

record foreign_id =
  fi_slot :: nat
  fi_generation :: nat

datatype object =
    OSymbol string | OString string | OBytes string | OPair lvalue lvalue | OCell lvalue
  | OEnvironment "handle option" "handle list"
  | OClosure lisp_module nat nat "handle option"
  | OForeign foreign_id string

record sizes =
  sz_object :: nat
  sz_slot :: nat
  sz_usize :: nat
  sz_handle :: nat
  sz_node :: nat
  sz_expression :: nat
  sz_capacity :: "nat \<Rightarrow> nat"

record heap_slot =
  sl_generation :: nat
  sl_marked :: bool
  sl_object :: "object option"
  sl_weight :: nat

record heap =
  hp_slots :: "heap_slot list"
  hp_slots_capacity :: nat
  hp_free :: "nat list"
  hp_free_capacity :: nat
  hp_used :: nat
  hp_limit :: nat
  hp_metadata :: nat
  hp_grants :: "bool list"
  hp_sizes :: sizes

definition U32 :: nat where
  "U32 = 2 ^ 32"

section \<open>Weights and references\<close>

definition datum_weight :: "sizes \<Rightarrow> datum \<Rightarrow> nat" where
  "datum_weight z d =
     (case d of
        DAtom (AString s) \<Rightarrow> sz_capacity z (length s)
      | DAtom (ASymbol s) \<Rightarrow> sz_capacity z (length s)
      | DAtom (ABytes b) \<Rightarrow> sz_capacity z (length b)
      | DList items _ \<Rightarrow> sz_capacity z (length items) * sz_usize z
      | _ \<Rightarrow> 0)"

definition expr_weight :: "sizes \<Rightarrow> expr \<Rightarrow> nat" where
  "expr_weight z e =
     (case e of
        XLiteral (AString s) \<Rightarrow> sz_capacity z (length s)
      | XLiteral (ASymbol s) \<Rightarrow> sz_capacity z (length s)
      | XDefine s _ \<Rightarrow> sz_capacity z (length s)
      | XReference (Global s) \<Rightarrow> sz_capacity z (length s)
      | XAssign (Global s) _ \<Rightarrow> sz_capacity z (length s)
      | XLiteral (ABytes b) \<Rightarrow> sz_capacity z (length b)
      | XSequence ps \<Rightarrow> sz_capacity z (length ps) * sz_usize z
      | XCall _ as \<Rightarrow> sz_capacity z (length as) * sz_usize z
      | _ \<Rightarrow> 0)"

definition module_weight :: "sizes \<Rightarrow> lisp_module \<Rightarrow> nat" where
  "module_weight z m =
     length (so_text (fm_source (md_form m)))
   + sum_list (map (\<lambda>nd. sz_node z + datum_weight z (nd_datum nd)) (fm_nodes (md_form m)))
   + sum_list (map (\<lambda>e. expr_weight z (ex_expr e)) (md_expressions m))
   + sz_capacity z (length (md_expressions m)) * sz_expression z"

definition object_weight :: "sizes \<Rightarrow> object \<Rightarrow> nat" where
  "object_weight z ob =
     sz_object z + (case ob of
        OSymbol s \<Rightarrow> sz_capacity z (length s)
      | OString s \<Rightarrow> sz_capacity z (length s)
      | OBytes b \<Rightarrow> sz_capacity z (length b)
      | OEnvironment _ cells \<Rightarrow> sz_capacity z (length cells) * sz_handle z
      | OClosure m _ _ _ \<Rightarrow> module_weight z m
      | OForeign _ kind \<Rightarrow> sz_capacity z (length kind)
      | _ \<Rightarrow> 0)"

definition env_roots :: "handle option \<Rightarrow> lvalue list" where
  "env_roots env = (case env of None \<Rightarrow> [] | Some hx \<Rightarrow> [VObject hx])"

fun references :: "object \<Rightarrow> lvalue list" where
  "references (OPair a b) = [a, b]"
| "references (OCell v) = [v]"
| "references (OEnvironment parent cells) = env_roots parent @ map VObject cells"
| "references (OClosure _ _ _ env) = env_roots env"
| "references _ = []"

section \<open>Budget and allocation\<close>

definition heap_new :: "sizes \<Rightarrow> bool list \<Rightarrow> nat \<Rightarrow> heap" where
  "heap_new z grants limit =
     \<lparr>hp_slots = [], hp_slots_capacity = 0, hp_free = [], hp_free_capacity = 0, hp_used = 0, hp_limit = limit,
      hp_metadata = 0, hp_grants = grants, hp_sizes = z\<rparr>"

definition object_budget :: "heap \<Rightarrow> nat" where
  "object_budget h = hp_limit h - hp_metadata h"

definition remaining :: "heap \<Rightarrow> nat" where
  "remaining h = object_budget h - hp_used h"

definition heap_charge :: "nat \<Rightarrow> heap \<Rightarrow> (unit + unit) \<times> heap" where
  "heap_charge weight h =
     (if weight > remaining h then (Inl (), h) else (Inr (), h\<lparr>hp_used := hp_used h + weight\<rparr>))"

text \<open>One answer of the allocator.\<close>

definition heap_grant :: "heap \<Rightarrow> bool \<times> heap" where
  "heap_grant h = (case hp_grants h of [] \<Rightarrow> (True, h) | g # gs \<Rightarrow> (g, h\<lparr>hp_grants := gs\<rparr>))"

text \<open>
  Room for one more slot: the two vectors are enlarged to the same capacity, the free list
  first, and the bytes for both are charged to the budget beforehand.
\<close>

definition heap_grow :: "nat \<Rightarrow> heap \<Rightarrow> (unit + unit) \<times> heap" where
  "heap_grow weight h =
     (let capacity = max (hp_slots_capacity h) 16 * 2;
          metadata = capacity * (sz_slot (hp_sizes h) + sz_usize (hp_sizes h));
          extra = metadata - hp_metadata h in
      if capacity \<ge> USIZE \<or> metadata \<ge> USIZE \<or> extra + weight \<ge> USIZE then (Inl (), h)
      else if extra + weight > remaining h then (Inl (), h)
      else case heap_grant h of
             (False, h1) \<Rightarrow> (Inl (), h1)
           | (True, h1) \<Rightarrow>
               (let h2 = h1\<lparr>hp_free_capacity := max (hp_free_capacity h) capacity\<rparr>;
                    h3 = h2\<lparr>hp_metadata := hp_slots_capacity h2 * sz_slot (hp_sizes h) + hp_free_capacity h2 * sz_usize (hp_sizes h)\<rparr> in
                case heap_grant h3 of
                  (False, h4) \<Rightarrow> (Inl (), h4)
                | (True, h4) \<Rightarrow> (Inr (), h4\<lparr>hp_slots_capacity := capacity, hp_metadata := metadata\<rparr>)))"

definition empty_slot :: heap_slot where
  "empty_slot = \<lparr>sl_generation = 0, sl_marked = False, sl_object = None, sl_weight = 0\<rparr>"

definition heap_index :: "nat \<Rightarrow> heap \<Rightarrow> (unit + nat) \<times> heap" where
  "heap_index weight h =
     (case hp_free h of
        index # free \<Rightarrow> (Inr index, h\<lparr>hp_free := free\<rparr>)
      | [] \<Rightarrow>
          (case (if length (hp_slots h) = hp_slots_capacity h then heap_grow weight h else (Inr (), h)) of
             (Inl e, h1) \<Rightarrow> (Inl e, h1)
           | (Inr _, h1) \<Rightarrow> (Inr (length (hp_slots h1)), h1\<lparr>hp_slots := hp_slots h1 @ [empty_slot]\<rparr>)))"

definition heap_alloc :: "object \<Rightarrow> heap \<Rightarrow> ((unit + handle) \<times> heap) option" where
  "heap_alloc ob h =
     (let weight = object_weight (hp_sizes h) ob in
      if weight > remaining h then Some (Inl (), h)
      else case heap_index weight h of
             (Inl e, h1) \<Rightarrow> Some (Inl e, h1)
           | (Inr index, h1) \<Rightarrow>
               if index \<ge> length (hp_slots h1) then None
               else Some (Inr \<lparr>hd_slot = index, hd_generation = sl_generation (hp_slots h1 ! index)\<rparr>,
                          h1\<lparr>hp_slots := (hp_slots h1)[index := (hp_slots h1 ! index)\<lparr>sl_object := Some ob, sl_weight := weight\<rparr>],
                             hp_used := hp_used h1 + weight\<rparr>))"

definition heap_get :: "heap \<Rightarrow> handle \<Rightarrow> object option" where
  "heap_get h hx =
     (if hd_slot hx < length (hp_slots h) \<and> sl_generation (hp_slots h ! hd_slot hx) = hd_generation hx
      then sl_object (hp_slots h ! hd_slot hx) else None)"

text \<open>Writing through the reference \<open>get_mut\<close> returns.\<close>

definition heap_put :: "handle \<Rightarrow> object \<Rightarrow> heap \<Rightarrow> heap" where
  "heap_put hx ob h =
     (if heap_get h hx = None then h
      else h\<lparr>hp_slots := (hp_slots h)[hd_slot hx := (hp_slots h ! hd_slot hx)\<lparr>sl_object := Some ob\<rparr>]\<rparr>)"

section \<open>Collection\<close>

definition unmarked :: "heap_slot list \<Rightarrow> nat" where
  "unmarked ss = length (filter (\<lambda>s. \<not> sl_marked s) ss)"

lemma unmarked_mark:
  "i < length ss \<Longrightarrow> \<not> sl_marked (ss ! i) \<Longrightarrow> unmarked (ss[i := (ss ! i)\<lparr>sl_marked := True\<rparr>]) < unmarked ss"
proof (induction ss arbitrary: i)
  case (Cons s ss)
  show ?case
  proof (cases i)
    case (Suc j)
    then show ?thesis using Cons.IH [of j] Cons.prems by (simp add: unmarked_def)
  qed (use Cons.prems in \<open>simp add: unmarked_def\<close>)
qed simp

function mark_loop :: "heap_slot list \<Rightarrow> lvalue list \<Rightarrow> heap_slot list" where
  "mark_loop ss [] = ss"
| "mark_loop ss (v # roots) =
     (case v of
        VObject hx \<Rightarrow>
          if hd_slot hx \<ge> length ss then mark_loop ss roots
          else if sl_generation (ss ! hd_slot hx) \<noteq> hd_generation hx \<or> sl_marked (ss ! hd_slot hx) then mark_loop ss roots
          else mark_loop (ss[hd_slot hx := (ss ! hd_slot hx)\<lparr>sl_marked := True\<rparr>])
                 ((case sl_object (ss ! hd_slot hx) of None \<Rightarrow> [] | Some ob \<Rightarrow> rev (references ob)) @ roots)
      | _ \<Rightarrow> mark_loop ss roots)"
  by pat_completeness auto
termination
  by (relation "measures [\<lambda>(ss, roots). unmarked ss, \<lambda>(ss, roots). length roots]") (auto simp: unmarked_mark)

text \<open>One slot of the sweep; \<open>used\<close> must cover the weight that is given back.\<close>

definition sweep_slot :: "nat \<Rightarrow> heap_slot \<Rightarrow> nat \<Rightarrow> nat list \<Rightarrow> (heap_slot \<times> nat \<times> nat list \<times> foreign_id list) option" where
  "sweep_slot index s used free =
     (if sl_marked s then Some (s\<lparr>sl_marked := False\<rparr>, used, free, [])
      else case sl_object s of
             None \<Rightarrow> Some (s, used, free, [])
           | Some ob \<Rightarrow>
               if used < sl_weight s then None
               else let released = (case ob of OForeign fid _ \<Rightarrow> [fid] | _ \<Rightarrow> []);
                        s1 = s\<lparr>sl_object := None, sl_weight := 0\<rparr> in
                    Some (if sl_generation s + 1 < U32
                          then (s1\<lparr>sl_generation := sl_generation s + 1\<rparr>, used - sl_weight s, index # free, released)
                          else (s1, used - sl_weight s, free, released)))"

fun sweep_loop :: "nat \<Rightarrow> heap_slot list \<Rightarrow> nat \<Rightarrow> nat list \<Rightarrow> (heap_slot list \<times> nat \<times> nat list \<times> foreign_id list) option" where
  "sweep_loop index [] used free = Some ([], used, free, [])"
| "sweep_loop index (s # ss) used free =
     (case sweep_slot index s used free of
        None \<Rightarrow> None
      | Some (s', used', free', released) \<Rightarrow>
          (case sweep_loop (index + 1) ss used' free' of
             None \<Rightarrow> None
           | Some (ss', used'', free'', released') \<Rightarrow> Some (s' # ss', used'', free'', released @ released')))"

definition heap_collect :: "lvalue list \<Rightarrow> heap \<Rightarrow> (foreign_id list \<times> heap) option" where
  "heap_collect roots h =
     map_option (\<lambda>(ss, used, free, released). (released, h\<lparr>hp_slots := ss, hp_used := used, hp_free := free\<rparr>))
       (sweep_loop 0 (mark_loop (hp_slots h) (rev roots)) (hp_used h) (hp_free h))"

section \<open>The invariant\<close>

definition heap_inv :: "heap \<Rightarrow> bool" where
  "heap_inv h \<longleftrightarrow> distinct (hp_free h) \<and> (\<forall>i \<in> set (hp_free h). i < length (hp_slots h) \<and> sl_object (hp_slots h ! i) = None)
     \<and> (\<forall>s \<in> set (hp_slots h). \<not> sl_marked s \<and> (sl_object s = None \<longrightarrow> sl_weight s = 0))
     \<and> sum_list (map sl_weight (hp_slots h)) \<le> hp_used h
     \<and> length (hp_slots h) \<le> hp_slots_capacity h
     \<and> hp_free_capacity h \<le> max (hp_slots_capacity h) 16 * 2
     \<and> hp_used h + hp_metadata h \<le> hp_limit h"

lemma heap_new_inv: "heap_inv (heap_new z grants limit)" and heap_new_get: "heap_get (heap_new z grants limit) = Map.empty"
  by (auto simp: heap_inv_def heap_new_def heap_get_def fun_eq_iff)

lemma heap_grant_eq: "heap_grant h = (g, h') \<Longrightarrow> h' = h\<lparr>hp_grants := tl (hp_grants h)\<rparr>"
  by (auto simp: heap_grant_def split: list.splits)

lemma heap_grow_spec:
  assumes inv: "heap_inv h" and w: "weight \<le> remaining h" and g: "heap_grow weight h = (r, h')"
  shows "heap_inv h' \<and> hp_slots h' = hp_slots h \<and> hp_free h' = hp_free h \<and> hp_used h' = hp_used h \<and> hp_limit h' = hp_limit h \<and> hp_sizes h' = hp_sizes h
    \<and> (r = Inr () \<longrightarrow> length (hp_slots h) < hp_slots_capacity h' \<and> hp_used h + weight + hp_metadata h' \<le> hp_limit h)"
proof -
  let ?c = "max (hp_slots_capacity h) 16 * 2" and ?S = "sz_slot (hp_sizes h)" and ?U = "sz_usize (hp_sizes h)"
  let ?m = "?c * (?S + ?U)" and ?m2 = "hp_slots_capacity h * ?S + max (hp_free_capacity h) ?c * ?U"
  have cap: "max (hp_free_capacity h) ?c = ?c" and len: "length (hp_slots h) < ?c" using inv by (auto simp: heap_inv_def)
  have m2: "?m2 \<le> ?m" unfolding cap distrib_left by (intro add_mono mult_le_mono) auto
  show ?thesis
  proof (cases "?c \<ge> USIZE \<or> ?m \<ge> USIZE \<or> ?m - hp_metadata h + weight \<ge> USIZE \<or> ?m - hp_metadata h + weight > remaining h")
    case True
    then have "heap_grow weight h = (Inl (), h)" by (auto simp: heap_grow_def Let_def)
    then show ?thesis using g inv by simp
  next
    case False
    have "?m - hp_metadata h + weight \<le> remaining h" using False by linarith
    moreover have "hp_used h + hp_metadata h \<le> hp_limit h" using inv by (simp add: heap_inv_def)
    ultimately have "hp_used h + weight + ?m \<le> hp_limit h" unfolding remaining_def object_budget_def by linarith
    moreover from this have "hp_used h + weight + ?m2 \<le> hp_limit h" using m2 by linarith
    ultimately have room: "hp_used h + weight + ?m \<le> hp_limit h" "hp_used h + weight + ?m2 \<le> hp_limit h" by blast+
    define m where "m = ?m"
    define m2 where "m2 = ?m2"
    let ?h1 = "h\<lparr>hp_grants := tl (hp_grants h)\<rparr>"
    let ?h3 = "?h1\<lparr>hp_free_capacity := ?c, hp_metadata := m2\<rparr>"
    let ?h4 = "?h3\<lparr>hp_grants := tl (hp_grants ?h3)\<rparr>"
    have run: "heap_grow weight h = (case heap_grant h of (False, h1) \<Rightarrow> (Inl (), h1) | (True, h1) \<Rightarrow>
        (case heap_grant (h1\<lparr>hp_free_capacity := ?c, hp_metadata := m2\<rparr>) of (False, h4) \<Rightarrow> (Inl (), h4)
         | (True, h4) \<Rightarrow> (Inr (), h4\<lparr>hp_slots_capacity := ?c, hp_metadata := m\<rparr>)))"
    proof -
      have "hp_slots_capacity h1 = hp_slots_capacity h" if "heap_grant h = (True, h1)" for h1 using heap_grant_eq [OF that] by simp
      then show ?thesis using False cap by (auto simp: heap_grow_def Let_def m_def m2_def split: prod.split bool.split)
    qed
    have "(r, h') \<in> {(Inl (), ?h1), (Inl (), ?h4), (Inr (), ?h4\<lparr>hp_slots_capacity := ?c, hp_metadata := m\<rparr>)}"
      using g unfolding run by (auto dest!: heap_grant_eq split: prod.splits bool.splits)
    moreover have "heap_inv ?h1" using inv by (simp add: heap_inv_def)
    moreover have "heap_inv ?h4" using inv room(2) by (simp add: heap_inv_def m2_def)
    moreover have "heap_inv (?h4\<lparr>hp_slots_capacity := ?c, hp_metadata := m\<rparr>)" using inv room(1) len by (simp add: heap_inv_def m_def)
    ultimately show ?thesis using room(1) len by (auto simp: m_def)
  qed
qed

lemma sum_list_update_le: "i < length xs \<Longrightarrow> sum_list (xs[i := (x::nat)]) + xs ! i = sum_list xs + x"
  by (induction xs arbitrary: i) (auto split: nat.splits)

lemma heap_index_spec:
  assumes inv: "heap_inv h" and w: "weight \<le> remaining h" and g: "heap_index weight h = (r, h')"
  shows "heap_inv h' \<and> hp_limit h' = hp_limit h \<and> hp_sizes h' = hp_sizes h \<and> heap_get h' = heap_get h
    \<and> (\<forall>i. r = Inr i \<longrightarrow> i < length (hp_slots h') \<and> sl_object (hp_slots h' ! i) = None \<and> sl_weight (hp_slots h' ! i) = 0 \<and> i \<notin> set (hp_free h')
         \<and> hp_used h' + weight + hp_metadata h' \<le> hp_limit h)"
proof (cases "hp_free h")
  case (Cons i free)
  have i: "i < length (hp_slots h)" "sl_object (hp_slots h ! i) = None" "i \<notin> set free" using inv Cons by (auto simp: heap_inv_def)
  then have "sl_weight (hp_slots h ! i) = 0" using inv by (auto simp: heap_inv_def)
  then show ?thesis using g Cons i inv w
    by (auto simp: heap_index_def heap_inv_def remaining_def object_budget_def heap_get_def fun_eq_iff)
next
  case Nil
  define q where "q = (if length (hp_slots h) = hp_slots_capacity h then heap_grow weight h else (Inr (), h))"
  obtain r1 h1 where q: "q = (r1, h1)" by fastforce
  have h1: "heap_inv h1" "hp_slots h1 = hp_slots h" "hp_free h1 = []" "hp_limit h1 = hp_limit h" "hp_sizes h1 = hp_sizes h"
    "r1 = Inr () \<Longrightarrow> length (hp_slots h) < hp_slots_capacity h1 \<and> hp_used h1 + weight + hp_metadata h1 \<le> hp_limit h"
    using heap_grow_spec [OF inv w, of r1 h1] q Nil inv w
    by (auto simp: q_def heap_inv_def remaining_def object_budget_def split: if_splits)
  have get: "heap_get h1 = heap_get h" using h1(2) by (simp add: heap_get_def fun_eq_iff)
  show ?thesis
  proof (cases r1)
    case (Inl e)
    then have "r = Inl e" "h' = h1" using g Nil q by (auto simp: heap_index_def q_def)
    then show ?thesis using h1 get by simp
  next
    case (Inr u)
    then have rh: "r = Inr (length (hp_slots h))" "h' = h1\<lparr>hp_slots := hp_slots h @ [empty_slot]\<rparr>"
      using g Nil q h1(2) by (auto simp: heap_index_def q_def)
    moreover have "heap_get h' = heap_get h"
      using rh(2) h1(2) by (auto simp: heap_get_def fun_eq_iff nth_append less_Suc_eq empty_slot_def)
    ultimately show ?thesis using h1 Inr by (auto simp: heap_inv_def empty_slot_def)
  qed
qed

lemma heap_alloc_spec:
  assumes inv: "heap_inv h"
  shows "\<exists>r h'. heap_alloc ob h = Some (r, h') \<and> heap_inv h' \<and> hp_limit h' = hp_limit h \<and> hp_sizes h' = hp_sizes h
    \<and> (case r of Inl _ \<Rightarrow> heap_get h' = heap_get h | Inr hx \<Rightarrow> heap_get h hx = None \<and> heap_get h' = (heap_get h)(hx \<mapsto> ob))"
proof -
  let ?w = "object_weight (hp_sizes h) ob"
  show ?thesis
  proof (cases "?w > remaining h")
    case False
    obtain r h1 where g: "heap_index ?w h = (r, h1)" by fastforce
    have spec: "heap_inv h1" "hp_limit h1 = hp_limit h" "hp_sizes h1 = hp_sizes h" "heap_get h1 = heap_get h"
      "\<And>i. r = Inr i \<Longrightarrow> i < length (hp_slots h1) \<and> sl_object (hp_slots h1 ! i) = None \<and> sl_weight (hp_slots h1 ! i) = 0 \<and> i \<notin> set (hp_free h1)
         \<and> hp_used h1 + ?w + hp_metadata h1 \<le> hp_limit h"
      using heap_index_spec [OF inv _ g] False by auto
    show ?thesis
    proof (cases r)
      case (Inl e)
      then show ?thesis using False g spec by (simp add: heap_alloc_def Let_def)
    next
      case (Inr i)
      note i = spec(5) [OF Inr]
      let ?s = "(hp_slots h1 ! i)\<lparr>sl_object := Some ob, sl_weight := ?w\<rparr>"
      let ?hx = "\<lparr>hd_slot = i, hd_generation = sl_generation (hp_slots h1 ! i)\<rparr>"
      let ?h = "h1\<lparr>hp_slots := (hp_slots h1)[i := ?s], hp_used := hp_used h1 + ?w\<rparr>"
      have al: "heap_alloc ob h = Some (Inr ?hx, ?h)" using False g Inr i by (simp add: heap_alloc_def Let_def)
      have "sum_list (map sl_weight (hp_slots ?h)) = sum_list (map sl_weight (hp_slots h1)) + ?w"
        using i sum_list_update_le [of i "map sl_weight (hp_slots h1)" ?w] by (simp add: map_update)
      then have "heap_inv ?h" using spec(1,2) i by (auto simp: heap_inv_def nth_list_update dest!: set_update_subset_insert [THEN subsetD])
      moreover have "heap_get h ?hx = None" using spec(4) [symmetric] i by (simp add: heap_get_def)
      moreover have "heap_get ?h = (heap_get h)(?hx \<mapsto> ob)"
        unfolding spec(4) [symmetric] using i by (auto simp: heap_get_def fun_eq_iff nth_list_update)
      ultimately show ?thesis using al spec(2,3) by auto
    qed
  qed (use inv in \<open>simp add: heap_alloc_def Let_def\<close>)
qed

lemma heap_put_spec:
  assumes inv: "heap_inv h" and "heap_get h hx \<noteq> None"
  shows "heap_inv (heap_put hx ob h)" and "heap_get (heap_put hx ob h) = (heap_get h)(hx \<mapsto> ob)"
proof -
  let ?i = "hd_slot hx" and ?s = "(hp_slots h ! hd_slot hx)\<lparr>sl_object := Some ob\<rparr>"
  have i: "?i < length (hp_slots h)" "sl_generation (hp_slots h ! ?i) = hd_generation hx" "sl_object (hp_slots h ! ?i) \<noteq> None"
    using assms(2) by (auto simp: heap_get_def split: if_splits)
  have p: "heap_put hx ob h = h\<lparr>hp_slots := (hp_slots h)[?i := ?s]\<rparr>" using assms(2) by (auto simp: heap_put_def)
  have "map sl_weight ((hp_slots h)[?i := ?s]) = map sl_weight (hp_slots h)" using i by (simp add: map_update list_update_same_conv)
  then show "heap_inv (heap_put hx ob h)" unfolding p using inv i
    by (auto simp: heap_inv_def nth_list_update dest!: set_update_subset_insert [THEN subsetD])
  show "heap_get (heap_put hx ob h) = (heap_get h)(hx \<mapsto> ob)"
    unfolding p using i by (auto simp: heap_get_def fun_eq_iff nth_list_update)
qed

lemma heap_charge_spec:
  "heap_inv h \<Longrightarrow> heap_charge w h = (r, h') \<Longrightarrow> heap_inv h' \<and> heap_get h' = heap_get h \<and> hp_limit h' = hp_limit h \<and> hp_sizes h' = hp_sizes h"
  by (auto simp: heap_charge_def heap_inv_def remaining_def object_budget_def heap_get_def fun_eq_iff split: if_splits)

section \<open>Marking\<close>

definition slot_get :: "heap_slot list \<Rightarrow> handle \<Rightarrow> object option" where
  "slot_get ss hx =
     (if hd_slot hx < length ss \<and> sl_generation (ss ! hd_slot hx) = hd_generation hx then sl_object (ss ! hd_slot hx) else None)"

lemma heap_get_slots: "heap_get h = slot_get (hp_slots h)"
  by (simp add: fun_eq_iff heap_get_def slot_get_def)

definition marked :: "heap_slot list \<Rightarrow> handle \<Rightarrow> bool" where
  "marked ss hx \<longleftrightarrow> hd_slot hx < length ss \<and> sl_generation (ss ! hd_slot hx) = hd_generation hx \<and> sl_marked (ss ! hd_slot hx)"

text \<open>The handles that can be followed from the roots.\<close>

inductive reach :: "(handle \<Rightarrow> object option) \<Rightarrow> lvalue list \<Rightarrow> handle \<Rightarrow> bool" for get roots where
  root: "VObject hx \<in> set roots \<Longrightarrow> reach get roots hx"
| follow: "reach get roots hx \<Longrightarrow> get hx = Some ob \<Longrightarrow> VObject hy \<in> set (references ob) \<Longrightarrow> reach get roots hy"

lemma reach_mono: "reach get roots hx \<Longrightarrow> set roots \<subseteq> set roots' \<Longrightarrow> reach get roots' hx"
  by (induction rule: reach.induct) (auto intro: reach.intros)

lemma reach_expand:
  "reach get (rs @ roots) hx \<Longrightarrow> reach get roots hy \<Longrightarrow> get hy = Some ob \<Longrightarrow> set rs = set (references ob) \<Longrightarrow> reach get roots hx"
  by (induction rule: reach.induct) (auto intro: reach.intros)

definition same_but_marks :: "heap_slot list \<Rightarrow> heap_slot list \<Rightarrow> bool" where
  "same_but_marks ss ss' \<longleftrightarrow> map (\<lambda>s. s\<lparr>sl_marked := False\<rparr>) ss' = map (\<lambda>s. s\<lparr>sl_marked := False\<rparr>) ss"

lemma same_but_marks_mark: "i < length ss \<Longrightarrow> same_but_marks ss (ss[i := (ss ! i)\<lparr>sl_marked := True\<rparr>])"
  by (simp add: same_but_marks_def map_update list_update_same_conv)

lemma same_but_marksD:
  assumes "same_but_marks ss ss'"
  shows "length ss' = length ss" and "i < length ss \<Longrightarrow> sl_generation (ss' ! i) = sl_generation (ss ! i)"
    and "i < length ss \<Longrightarrow> sl_object (ss' ! i) = sl_object (ss ! i)" and "i < length ss \<Longrightarrow> sl_weight (ss' ! i) = sl_weight (ss ! i)"
    and "slot_get ss' = slot_get ss"
proof -
  show len: "length ss' = length ss" using arg_cong [OF assms [unfolded same_but_marks_def], of length] by simp
  have eq: "(ss' ! i)\<lparr>sl_marked := False\<rparr> = (ss ! i)\<lparr>sl_marked := False\<rparr>" if "i < length ss" for i
    using arg_cong [OF assms [unfolded same_but_marks_def], of "\<lambda>xs. xs ! i"] that len by simp
  show gen: "sl_generation (ss' ! i) = sl_generation (ss ! i)" if "i < length ss" for i
    using arg_cong [OF eq [OF that], of sl_generation] by simp
  show obj: "sl_object (ss' ! i) = sl_object (ss ! i)" if "i < length ss" for i
    using arg_cong [OF eq [OF that], of sl_object] by simp
  show "sl_weight (ss' ! i) = sl_weight (ss ! i)" if "i < length ss"
    using arg_cong [OF eq [OF that], of sl_weight] by simp
  show "slot_get ss' = slot_get ss" by (auto simp: slot_get_def fun_eq_iff len gen obj)
qed

definition mark_at :: "heap_slot list \<Rightarrow> handle \<Rightarrow> heap_slot list" where
  "mark_at ss hx = ss[hd_slot hx := (ss ! hd_slot hx)\<lparr>sl_marked := True\<rparr>]"

definition ref_list :: "object option \<Rightarrow> lvalue list" where
  "ref_list r = (case r of None \<Rightarrow> [] | Some ob \<Rightarrow> rev (references ob))"

definition fresh :: "heap_slot list \<Rightarrow> lvalue \<Rightarrow> bool" where
  "fresh ss v \<longleftrightarrow> (\<exists>hx. v = VObject hx \<and> hd_slot hx < length ss \<and> sl_generation (ss ! hd_slot hx) = hd_generation hx \<and> \<not> sl_marked (ss ! hd_slot hx))"

text \<open>The loop passes over a value or marks a fresh slot and looks at its references.\<close>

lemma mark_loop_skip: "\<not> fresh ss v \<Longrightarrow> mark_loop ss (v # roots) = mark_loop ss roots"
  by (cases v) (auto simp: fresh_def)

lemma mark_loop_fresh:
  "fresh ss (VObject hx) \<Longrightarrow> mark_loop ss (VObject hx # roots) = mark_loop (mark_at ss hx) (ref_list (slot_get ss hx) @ roots)"
  by (simp add: fresh_def mark_at_def ref_list_def slot_get_def)

declare mark_loop.simps(2) [simp del]

lemma mark_loop_rule:
  assumes "\<And>ss. P ss []" and "\<And>ss v roots. \<not> fresh ss v \<Longrightarrow> P ss roots \<Longrightarrow> P ss (v # roots)"
    and "\<And>ss hx roots. fresh ss (VObject hx) \<Longrightarrow> P (mark_at ss hx) (ref_list (slot_get ss hx) @ roots) \<Longrightarrow> P ss (VObject hx # roots)"
  shows "P ss roots"
proof (induction ss roots rule: mark_loop.induct)
  case (1 ss)
  then show ?case by (rule assms(1))
next
  case (2 ss v roots)
  show ?case
  proof (cases v)
    case (VObject hx)
    show ?thesis
    proof (cases "fresh ss v")
      case True
      then have "P (mark_at ss hx) (ref_list (slot_get ss hx) @ roots)"
        unfolding mark_at_def ref_list_def using 2 VObject by (simp add: fresh_def slot_get_def)
      then show ?thesis using assms(3) [of ss hx roots] True VObject by simp
    next
      case False
      then have "P ss roots" using 2 VObject by (auto simp: fresh_def not_less)
      then show ?thesis using assms(2) False by blast
    qed
  qed (use 2 assms(2) in \<open>auto simp: fresh_def\<close>)
qed

lemma mark_at_same: "fresh ss (VObject hx) \<Longrightarrow> same_but_marks ss (mark_at ss hx)"
  unfolding mark_at_def by (rule same_but_marks_mark) (simp add: fresh_def)

lemma mark_loop_same: "same_but_marks ss (mark_loop ss roots)"
proof (induction ss roots rule: mark_loop_rule)
  case (3 ss hx roots)
  then show ?case using mark_at_same [OF 3(1)] by (simp add: mark_loop_fresh same_but_marks_def)
qed (simp_all add: mark_loop_skip same_but_marks_def)

text \<open>Every reference of a marked slot is marked or still to be looked at.\<close>

definition marks_closed :: "heap_slot list \<Rightarrow> lvalue list \<Rightarrow> bool" where
  "marks_closed ss roots \<longleftrightarrow> (\<forall>hx ob hy. marked ss hx \<and> slot_get ss hx = Some ob \<and> VObject hy \<in> set (references ob) \<and> slot_get ss hy \<noteq> None
     \<longrightarrow> marked ss hy \<or> VObject hy \<in> set roots)"

lemma marked_mark: "fresh ss (VObject hx) \<Longrightarrow> marked (mark_at ss hx) hy \<longleftrightarrow> hy = hx \<or> marked ss hy"
  by (auto simp: marked_def mark_at_def fresh_def nth_list_update)

lemma mark_at_get: "fresh ss (VObject hx) \<Longrightarrow> slot_get (mark_at ss hx) = slot_get ss"
  by (rule same_but_marksD(5) [OF mark_at_same])

lemma ref_list_set: "set (ref_list r) = (case r of None \<Rightarrow> {} | Some ob \<Rightarrow> set (references ob))"
  by (simp add: ref_list_def split: option.split)

lemma mark_loop_sound: "marked (mark_loop ss roots) hx \<Longrightarrow> marked ss hx \<or> reach (slot_get ss) roots hx"
proof (induction ss roots rule: mark_loop_rule)
  case (2 ss v roots)
  then show ?case using reach_mono [of "slot_get ss" roots hx "v # roots"] by (auto simp: mark_loop_skip)
next
  case (3 ss hy roots)
  have hy: "reach (slot_get ss) (VObject hy # roots) hy" by (auto intro: reach.root)
  from 3 have "marked (mark_at ss hy) hx \<or> reach (slot_get ss) (ref_list (slot_get ss hy) @ roots) hx"
    by (simp add: mark_loop_fresh mark_at_get)
  then show ?case
  proof
    assume "marked (mark_at ss hy) hx"
    then show ?thesis using hy by (auto simp: marked_mark [OF 3(1)])
  next
    assume "reach (slot_get ss) (ref_list (slot_get ss hy) @ roots) hx"
    then have r: "reach (slot_get ss) (ref_list (slot_get ss hy) @ VObject hy # roots) hx" by (rule reach_mono) auto
    show ?thesis
    proof (cases "slot_get ss hy")
      case None
      then show ?thesis using r by (simp add: ref_list_def)
    next
      case (Some ob)
      then show ?thesis using reach_expand [OF r hy] by (simp add: ref_list_set)
    qed
  qed
qed simp

lemma mark_loop_complete:
  "marks_closed ss roots \<Longrightarrow> marks_closed (mark_loop ss roots) [] \<and> (\<forall>hx. marked ss hx \<longrightarrow> marked (mark_loop ss roots) hx)
     \<and> (\<forall>hx. VObject hx \<in> set roots \<and> slot_get ss hx \<noteq> None \<longrightarrow> marked (mark_loop ss roots) hx)"
proof (induction ss roots rule: mark_loop_rule)
  case (2 ss v roots)
  have v: "marked ss hx" if "v = VObject hx" "slot_get ss hx \<noteq> None" for hx
    using 2(1) that by (auto simp: fresh_def marked_def slot_get_def split: if_splits)
  then have "marks_closed ss roots" using 2(3) by (fastforce simp: marks_closed_def)
  then show ?case using 2 v by (auto simp: mark_loop_skip)
next
  case (3 ss hy roots)
  have "marks_closed (mark_at ss hy) (ref_list (slot_get ss hy) @ roots)"
    using 3(3) unfolding marks_closed_def mark_at_get [OF 3(1)] marked_mark [OF 3(1)] by (fastforce simp: ref_list_set)
  then show ?case using 3 by (auto simp: mark_loop_fresh mark_at_get marked_mark)
qed (simp add: marks_closed_def)

lemma mark_loop_marks:
  assumes "\<forall>s \<in> set ss. \<not> sl_marked s" and "slot_get ss hx \<noteq> None"
  shows "marked (mark_loop ss roots) hx \<longleftrightarrow> reach (slot_get ss) roots hx"
proof
  have none: "\<not> marked ss hy" for hy using assms(1) by (simp add: marked_def)
  then show "marked (mark_loop ss roots) hx \<Longrightarrow> reach (slot_get ss) roots hx" using mark_loop_sound by blast
  have "marks_closed ss roots" using none by (simp add: marks_closed_def)
  note all = mark_loop_complete [OF this]
  have get: "slot_get (mark_loop ss roots) = slot_get ss" by (rule same_but_marksD(5) [OF mark_loop_same])
  assume "reach (slot_get ss) roots hx"
  then show "marked (mark_loop ss roots) hx" using assms(2)
  proof (induction rule: reach.induct)
    case (follow hx ob hy)
    then have "marked (mark_loop ss roots) hx" by simp
    then show ?case using all follow get by (fastforce simp: marks_closed_def)
  qed (use all in blast)
qed

section \<open>Sweeping\<close>

definition freed :: "heap_slot \<Rightarrow> bool" where
  "freed s \<longleftrightarrow> \<not> sl_marked s \<and> sl_object s \<noteq> None"

definition swept :: "heap_slot \<Rightarrow> heap_slot" where
  "swept s =
     (if sl_marked s then s\<lparr>sl_marked := False\<rparr>
      else if sl_object s = None then s
      else s\<lparr>sl_object := None, sl_weight := 0, sl_generation := (if sl_generation s + 1 < U32 then sl_generation s + 1 else sl_generation s)\<rparr>)"

definition released_by :: "heap_slot \<Rightarrow> foreign_id list" where
  "released_by s = (if sl_marked s then [] else case sl_object s of Some (OForeign fid _) \<Rightarrow> [fid] | _ \<Rightarrow> [])"

lemma sweep_slot_eq:
  assumes "sl_weight s \<le> used"
  shows "sweep_slot i s used free =
    Some (swept s, used - (if freed s then sl_weight s else 0), (if freed s \<and> sl_generation s + 1 < U32 then i # free else free), released_by s)"
  using assms by (auto simp: sweep_slot_def swept_def freed_def released_by_def Let_def split: option.splits object.splits)

lemma sweep_loop_spec:
  "sum_list (map sl_weight ss) \<le> used \<Longrightarrow> \<exists>used' free'. sweep_loop i ss used free = Some (map swept ss, used', free', concat (map released_by ss))
     \<and> used' \<le> used \<and> sum_list (map sl_weight ss) + used' \<ge> sum_list (map (sl_weight \<circ> swept) ss) + used
     \<and> sum_list (map (sl_weight \<circ> swept) ss) \<le> used'
     \<and> (\<exists>new. free' = new @ free \<and> distinct new \<and> set new = {i + k |k. k < length ss \<and> freed (ss ! k) \<and> sl_generation (ss ! k) + 1 < U32})"
proof (induction ss arbitrary: i used free)
  case (Cons s ss)
  let ?u = "used - (if freed s then sl_weight s else 0)" and ?f = "if freed s \<and> sl_generation s + 1 < U32 then i # free else free"
  have s: "sweep_slot i s used free = Some (swept s, ?u, ?f, released_by s)" using Cons.prems by (intro sweep_slot_eq) simp
  have "sum_list (map sl_weight ss) \<le> ?u" using Cons.prems by auto
  from Cons.IH [OF this, of "i + 1" ?f] obtain used' new where IH:
    "sweep_loop (i + 1) ss ?u ?f = Some (map swept ss, used', new @ ?f, concat (map released_by ss))" "used' \<le> ?u"
    "sum_list (map sl_weight ss) + used' \<ge> sum_list (map (sl_weight \<circ> swept) ss) + ?u" "sum_list (map (sl_weight \<circ> swept) ss) \<le> used'"
    "distinct new" "set new = {i + 1 + k |k. k < length ss \<and> freed (ss ! k) \<and> sl_generation (ss ! k) + 1 < U32}" by blast
  let ?new = "new @ (if freed s \<and> sl_generation s + 1 < U32 then [i] else [])"
  have run: "sweep_loop i (s # ss) used free = Some (map swept (s # ss), used', ?new @ free, concat (map released_by (s # ss)))"
    using s IH(1) by simp
  have w: "sl_weight (swept s) + (if freed s then sl_weight s else 0) = sl_weight s" by (simp add: swept_def freed_def)
  have u: "?u + (if freed s then sl_weight s else 0) = used" using Cons.prems by simp
  have "set ?new = {i + k |k. k < length (s # ss) \<and> freed ((s # ss) ! k) \<and> sl_generation ((s # ss) ! k) + 1 < U32}" (is "_ = ?R")
  proof -
    have "?R = (if freed s \<and> sl_generation s + 1 < U32 then {i} else {}) \<union> set new"
      unfolding IH(6) by (auto simp: less_Suc_eq_0_disj)
    then show ?thesis by auto
  qed
  moreover have "distinct ?new" using IH(5,6) by auto
  moreover have "used' \<le> used" "sum_list (map sl_weight (s # ss)) + used' \<ge> sum_list (map (sl_weight \<circ> swept) (s # ss)) + used"
    "sum_list (map (sl_weight \<circ> swept) (s # ss)) \<le> used'" using IH(2,3,4) w u Cons.prems by (auto split: if_splits)
  ultimately show ?case using run by blast
qed simp

lemma swept_get:
  assumes "\<forall>s \<in> set ss. \<not> sl_marked s"
  shows "slot_get (map swept (mark_loop ss roots)) hx = (if reach (slot_get ss) roots hx then slot_get ss hx else None)"
proof -
  let ?ss = "mark_loop ss roots"
  note same = same_but_marksD [OF mark_loop_same [of ss roots]]
  show ?thesis
  proof (cases "slot_get ss hx")
    case None
    then have "slot_get (map swept ?ss) hx = None"
      using same by (auto simp: slot_get_def swept_def split: if_splits)
    then show ?thesis using None by simp
  next
    case (Some ob)
    then have i: "hd_slot hx < length ss" "sl_generation (?ss ! hd_slot hx) = hd_generation hx" "sl_object (?ss ! hd_slot hx) = Some ob"
      using same by (auto simp: slot_get_def split: if_splits)
    have "reach (slot_get ss) roots hx \<longleftrightarrow> sl_marked (?ss ! hd_slot hx)"
      using mark_loop_marks [OF assms, of hx roots] Some i same(1) by (auto simp: marked_def)
    then show ?thesis using i same(1) Some by (auto simp: slot_get_def swept_def)
  qed
qed

lemma released_set:
  assumes "\<forall>s \<in> set ss. \<not> sl_marked s"
  shows "set (concat (map released_by (mark_loop ss roots)))
    = {fid. \<exists>hx kind. slot_get ss hx = Some (OForeign fid kind) \<and> \<not> reach (slot_get ss) roots hx}" (is "?L = ?R")
proof
  let ?ss = "mark_loop ss roots"
  note same = same_but_marksD [OF mark_loop_same [of ss roots]]
  show "?L \<subseteq> ?R"
  proof
    fix fid assume "fid \<in> ?L"
    then obtain s where s: "s \<in> set ?ss" "fid \<in> set (released_by s)" by auto
    then obtain i where i: "i < length ?ss" "fid \<in> set (released_by (?ss ! i))" by (metis in_set_conv_nth)
    then obtain kind where k: "\<not> sl_marked (?ss ! i)" "sl_object (?ss ! i) = Some (OForeign fid kind)"
      by (cases "sl_object (?ss ! i)") (auto simp: released_by_def split: if_splits object.splits)
    let ?hx = "\<lparr>hd_slot = i, hd_generation = sl_generation (?ss ! i)\<rparr>"
    have get: "slot_get ss ?hx = Some (OForeign fid kind)" using i k same by (simp add: slot_get_def)
    moreover have "\<not> reach (slot_get ss) roots ?hx"
      using mark_loop_marks [OF assms, of ?hx roots] get k(1) by (simp add: marked_def)
    ultimately show "fid \<in> ?R" by blast
  qed
  show "?R \<subseteq> ?L"
  proof
    fix fid assume "fid \<in> ?R"
    then obtain hx kind where h: "slot_get ss hx = Some (OForeign fid kind)" "\<not> reach (slot_get ss) roots hx" by blast
    have i: "hd_slot hx < length ?ss" "sl_generation (?ss ! hd_slot hx) = hd_generation hx" "sl_object (?ss ! hd_slot hx) = Some (OForeign fid kind)"
      using h(1) same by (auto simp: slot_get_def split: if_splits)
    moreover have "\<not> sl_marked (?ss ! hd_slot hx)" using mark_loop_marks [OF assms, of hx roots] h i by (simp add: marked_def)
    ultimately have "fid \<in> set (released_by (?ss ! hd_slot hx))" by (simp add: released_by_def)
    then show "fid \<in> ?L" using nth_mem [OF i(1)] by auto
  qed
qed

lemma reach_rev: "reach get (rev roots) hx = reach get roots hx"
  using reach_mono [of get roots hx "rev roots"] reach_mono [of get "rev roots" hx roots] by auto

lemma heap_collect_run:
  assumes inv: "heap_inv h"
  obtains used new where "heap_collect roots h = Some (concat (map released_by (mark_loop (hp_slots h) (rev roots))),
      h\<lparr>hp_slots := map swept (mark_loop (hp_slots h) (rev roots)), hp_used := used, hp_free := new @ hp_free h\<rparr>)"
    and "heap_inv (h\<lparr>hp_slots := map swept (mark_loop (hp_slots h) (rev roots)), hp_used := used, hp_free := new @ hp_free h\<rparr>)"
    and "used \<le> hp_used h" and "\<forall>i \<in> set new. freed (mark_loop (hp_slots h) (rev roots) ! i) \<and> sl_generation (mark_loop (hp_slots h) (rev roots) ! i) + 1 < U32"
proof -
  let ?ss = "mark_loop (hp_slots h) (rev roots)"
  note same = same_but_marksD [OF mark_loop_same [of "hp_slots h" "rev roots"]]
  have "map sl_weight ?ss = map sl_weight (hp_slots h)" using same by (intro nth_equalityI) auto
  then have w: "sum_list (map sl_weight ?ss) \<le> hp_used h" using inv by (simp add: heap_inv_def)
  obtain used new where run: "sweep_loop 0 ?ss (hp_used h) (hp_free h) = Some (map swept ?ss, used, new @ hp_free h, concat (map released_by ?ss))"
    "used \<le> hp_used h" "sum_list (map (sl_weight \<circ> swept) ?ss) \<le> used" "distinct new"
    "set new = {k. k < length ?ss \<and> freed (?ss ! k) \<and> sl_generation (?ss ! k) + 1 < U32}"
    using sweep_loop_spec [OF w, of 0 "hp_free h"] by auto
  let ?h = "h\<lparr>hp_slots := map swept ?ss, hp_used := used, hp_free := new @ hp_free h\<rparr>"
  have free: "i < length ?ss \<and> sl_object (?ss ! i) = None" if "i \<in> set (hp_free h)" for i
    using inv that same by (auto simp: heap_inv_def)
  then have "set new \<inter> set (hp_free h) = {}" unfolding run(5) by (auto simp: freed_def)
  moreover have "sl_object (swept (?ss ! i)) = None" if "i \<in> set (new @ hp_free h)" for i
    using that free [of i] run(5) by (auto simp: swept_def freed_def)
  moreover have "\<forall>s \<in> set (map swept ?ss). \<not> sl_marked s \<and> (sl_object s = None \<longrightarrow> sl_weight s = 0)"
  proof -
    have "sl_weight s = 0" if s: "s \<in> set ?ss" "sl_object s = None" for s
    proof -
      obtain i where "i < length ?ss" "s = ?ss ! i" using s(1) by (auto simp: in_set_conv_nth)
      then show ?thesis using s(2) same inv by (auto simp: heap_inv_def)
    qed
    then show ?thesis by (auto simp: swept_def)
  qed
  ultimately have "heap_inv ?h" using inv run free same(1) by (auto simp: heap_inv_def)
  moreover have "heap_collect roots h = Some (concat (map released_by ?ss), ?h)" using run(1) by (simp add: heap_collect_def)
  ultimately show thesis using that run(2,5) by auto
qed

lemma heap_collect_spec:
  assumes "heap_inv h"
  shows "\<exists>rel h'. heap_collect roots h = Some (rel, h') \<and> heap_inv h' \<and> hp_limit h' = hp_limit h \<and> hp_sizes h' = hp_sizes h
    \<and> heap_get h' = (\<lambda>hx. if reach (heap_get h) roots hx then heap_get h hx else None)
    \<and> set rel = {fid. \<exists>hx kind. heap_get h hx = Some (OForeign fid kind) \<and> \<not> reach (heap_get h) roots hx}"
proof -
  have u: "\<forall>s \<in> set (hp_slots h). \<not> sl_marked s" using assms by (simp add: heap_inv_def)
  let ?ss = "mark_loop (hp_slots h) (rev roots)"
  from heap_collect_run [OF assms, of roots] obtain used new where
    "heap_collect roots h = Some (concat (map released_by ?ss), h\<lparr>hp_slots := map swept ?ss, hp_used := used, hp_free := new @ hp_free h\<rparr>)"
    "heap_inv (h\<lparr>hp_slots := map swept ?ss, hp_used := used, hp_free := new @ hp_free h\<rparr>)" .
  then show ?thesis using swept_get [OF u] released_set [OF u] by (auto simp: heap_get_slots reach_rev fun_eq_iff)
qed

section \<open>Handles that have gone stale\<close>

inductive heap_step :: "heap \<Rightarrow> heap \<Rightarrow> bool" where
  alloc: "heap_alloc ob h = Some (r, h') \<Longrightarrow> heap_step h h'"
| put: "heap_step h (heap_put hx ob h)"
| charge: "heap_charge w h = (r, h') \<Longrightarrow> heap_step h h'"
| collect: "heap_inv h \<Longrightarrow> heap_collect roots h = Some (rel, h') \<Longrightarrow> heap_step h h'"

definition dead :: "heap \<Rightarrow> handle \<Rightarrow> bool" where
  "dead h hx \<longleftrightarrow> hd_slot hx < length (hp_slots h) \<and>
     (hd_generation hx < sl_generation (hp_slots h ! hd_slot hx)
      \<or> hd_generation hx = sl_generation (hp_slots h ! hd_slot hx) \<and> sl_object (hp_slots h ! hd_slot hx) = None \<and> hd_slot hx \<notin> set (hp_free h))"

lemma dead_get: "dead h hx \<Longrightarrow> heap_get h hx = None"
  by (auto simp: dead_def heap_get_def)

lemma heap_grow_fields: "heap_grow w h = (r, h') \<Longrightarrow> hp_slots h' = hp_slots h \<and> hp_free h' = hp_free h"
  unfolding heap_grow_def Let_def by (auto dest!: heap_grant_eq split: if_splits prod.splits bool.splits)

lemma heap_index_fields:
  assumes "heap_index w h = (r, h')"
  shows "(\<exists>i. r = Inr i \<and> hp_free h = i # hp_free h' \<and> hp_slots h' = hp_slots h)
    \<or> (\<exists>e. r = Inl e) \<and> hp_free h' = hp_free h \<and> hp_slots h' = hp_slots h
    \<or> r = Inr (length (hp_slots h)) \<and> hp_free h' = hp_free h \<and> hp_slots h' = hp_slots h @ [empty_slot]"
proof (cases "hp_free h")
  case Nil
  obtain q h1 where q: "(if length (hp_slots h) = hp_slots_capacity h then heap_grow w h else (Inr (), h)) = (q, h1)" by fastforce
  then have "hp_slots h1 = hp_slots h" "hp_free h1 = hp_free h" using heap_grow_fields [of w h q h1] by (auto split: if_splits)
  then show ?thesis using assms Nil q by (auto simp: heap_index_def split: sum.splits)
qed (use assms in \<open>auto simp: heap_index_def\<close>)

lemma dead_alloc:
  assumes d: "dead h hx" and a: "heap_alloc ob h = Some (r, h')"
  shows "dead h' hx"
proof (cases "object_weight (hp_sizes h) ob > remaining h")
  case False
  obtain q h1 where q: "heap_index (object_weight (hp_sizes h) ob) h = (q, h1)" by fastforce
  have d1: "dead h1 hx \<and> (\<forall>i. q = Inr i \<longrightarrow> i \<noteq> hd_slot hx \<or> hd_generation hx < sl_generation (hp_slots h1 ! hd_slot hx))"
    using heap_index_fields [OF q] d by (auto simp: dead_def nth_append)
  then show ?thesis using a False q by (auto simp: heap_alloc_def Let_def dead_def nth_list_update split: sum.splits if_splits)
qed (use assms in \<open>simp add: heap_alloc_def Let_def\<close>)

lemma dead_put: "dead h hx \<Longrightarrow> dead (heap_put hy ob h) hx"
  by (auto simp: dead_def heap_put_def heap_get_def nth_list_update split: if_splits)

lemma dead_collect:
  assumes inv: "heap_inv h" and d: "dead h hx" and c: "heap_collect roots h = Some (rel, h')"
  shows "dead h' hx"
proof -
  let ?ss = "mark_loop (hp_slots h) (rev roots)"
  note same = same_but_marksD [OF mark_loop_same [of "hp_slots h" "rev roots"]]
  from heap_collect_run [OF inv, of roots] obtain used new where
    "heap_collect roots h = Some (concat (map released_by ?ss), h\<lparr>hp_slots := map swept ?ss, hp_used := used, hp_free := new @ hp_free h\<rparr>)"
    "\<forall>i \<in> set new. freed (?ss ! i) \<and> sl_generation (?ss ! i) + 1 < U32" .
  then show ?thesis using d c same by (auto simp: dead_def swept_def freed_def)
qed

lemma dead_step: "heap_step h h' \<Longrightarrow> dead h hx \<Longrightarrow> dead h' hx"
proof (induction rule: heap_step.induct)
  case (charge w h r h')
  then show ?case by (auto simp: heap_charge_def dead_def split: if_splits)
qed (auto intro: dead_alloc dead_put dead_collect)

lemma dead_run: "heap_step\<^sup>*\<^sup>* h h' \<Longrightarrow> dead h hx \<Longrightarrow> dead h' hx"
  by (induction rule: rtranclp_induct) (auto intro: dead_step)

lemma collect_dead:
  assumes inv: "heap_inv h" and c: "heap_collect roots h = Some (rel, h')" and g: "heap_get h hx \<noteq> None" and r: "\<not> reach (heap_get h) roots hx"
  shows "dead h' hx"
proof -
  let ?ss = "mark_loop (hp_slots h) (rev roots)"
  note same = same_but_marksD [OF mark_loop_same [of "hp_slots h" "rev roots"]]
  from heap_collect_run [OF inv, of roots] obtain used new where run:
    "heap_collect roots h = Some (concat (map released_by ?ss), h\<lparr>hp_slots := map swept ?ss, hp_used := used, hp_free := new @ hp_free h\<rparr>)"
    "\<forall>i \<in> set new. freed (?ss ! i) \<and> sl_generation (?ss ! i) + 1 < U32" .
  have u: "\<forall>s \<in> set (hp_slots h). \<not> sl_marked s" using inv by (simp add: heap_inv_def)
  have i: "hd_slot hx < length ?ss" "sl_generation (?ss ! hd_slot hx) = hd_generation hx" "sl_object (?ss ! hd_slot hx) \<noteq> None"
    using g same by (auto simp: heap_get_def split: if_splits)
  have m: "\<not> sl_marked (?ss ! hd_slot hx)"
    using mark_loop_marks [OF u, of hx "rev roots"] g r i by (auto simp: marked_def heap_get_slots reach_rev)
  show ?thesis
  proof (cases "hd_generation hx + 1 < U32")
    case True
    then show ?thesis using c run(1) i m by (auto simp: dead_def swept_def)
  next
    case False
    have "hd_slot hx \<notin> set (hp_free h)" using inv g by (auto simp: heap_inv_def heap_get_def split: if_splits)
    moreover have "hd_slot hx \<notin> set new" using run(2) False i(2) by auto
    ultimately show ?thesis using False c run(1) i m by (auto simp: dead_def swept_def)
  qed
qed

text \<open>
  C38: a collection never panics and keeps exactly the objects that can be reached from the
  roots, unchanged; the handle of every other object is stale after it and stays stale
  whatever the heap does later, even when its slot is used again; and the foreign identities
  handed back are those of the objects that were dropped.
\<close>

theorem collect_exact:
  assumes "heap_inv h"
  shows "\<exists>rel h'. heap_collect roots h = Some (rel, h') \<and> heap_inv h'
    \<and> (\<forall>hx. reach (heap_get h) roots hx \<longrightarrow> heap_get h' hx = heap_get h hx)
    \<and> (\<forall>hx h''. heap_get h hx \<noteq> None \<and> \<not> reach (heap_get h) roots hx \<and> heap_step\<^sup>*\<^sup>* h' h'' \<longrightarrow> heap_get h'' hx = None)
    \<and> set rel = {fid. \<exists>hx kind. heap_get h hx = Some (OForeign fid kind) \<and> \<not> reach (heap_get h) roots hx}"
proof -
  obtain rel h' where c: "heap_collect roots h = Some (rel, h')" "heap_inv h'"
    "heap_get h' = (\<lambda>hx. if reach (heap_get h) roots hx then heap_get h hx else None)"
    "set rel = {fid. \<exists>hx kind. heap_get h hx = Some (OForeign fid kind) \<and> \<not> reach (heap_get h) roots hx}"
    using heap_collect_spec [OF assms, of roots] by blast
  have "heap_get h'' hx = None" if "heap_get h hx \<noteq> None" "\<not> reach (heap_get h) roots hx" "heap_step\<^sup>*\<^sup>* h' h''" for hx h''
    by (rule dead_get [OF dead_run [OF that(3) collect_dead [OF assms c(1) that(1,2)]]])
  then show ?thesis using c by auto
qed

definition two_objects :: heap where
  "two_objects = \<lparr>hp_slots = [\<lparr>sl_generation = 0, sl_marked = False, sl_object = Some (OPair (VInteger 1) VNil), sl_weight = 4\<rparr>,
       \<lparr>sl_generation = 3, sl_marked = False, sl_object = Some (OForeign \<lparr>fi_slot = 5, fi_generation = 0\<rparr> ''k''), sl_weight = 5\<rparr>],
     hp_slots_capacity = 32, hp_free = [], hp_free_capacity = 32, hp_used = 9, hp_limit = 1000, hp_metadata = 64, hp_grants = [],
     hp_sizes = \<lparr>sz_object = 4, sz_slot = 1, sz_usize = 1, sz_handle = 1, sz_node = 1, sz_expression = 1, sz_capacity = (\<lambda>n. n)\<rparr>\<rparr>"

theorem collect_exact_witness:
  "\<exists>rel h'. heap_collect [VObject \<lparr>hd_slot = 0, hd_generation = 0\<rparr>] two_objects = Some (rel, h')
     \<and> heap_get h' \<lparr>hd_slot = 0, hd_generation = 0\<rparr> = Some (OPair (VInteger 1) VNil)
     \<and> heap_get h' \<lparr>hd_slot = 1, hd_generation = 3\<rparr> = None \<and> set rel = {\<lparr>fi_slot = 5, fi_generation = 0\<rparr>}"
proof -
  let ?a = "\<lparr>hd_slot = 0, hd_generation = 0\<rparr>" and ?b = "\<lparr>hd_slot = 1, hd_generation = 3\<rparr>"
  have get: "heap_get two_objects = [?a \<mapsto> OPair (VInteger 1) VNil, ?b \<mapsto> OForeign \<lparr>fi_slot = 5, fi_generation = 0\<rparr> ''k'']"
  proof
    fix hx :: handle
    show "heap_get two_objects hx = [?a \<mapsto> OPair (VInteger 1) VNil, ?b \<mapsto> OForeign \<lparr>fi_slot = 5, fi_generation = 0\<rparr> ''k''] hx"
      by (cases hx) (auto simp: heap_get_def two_objects_def less_Suc_eq)
  qed
  have only: "reach (heap_get two_objects) [VObject ?a] hx \<longleftrightarrow> hx = ?a" for hx
  proof
    show "reach (heap_get two_objects) [VObject ?a] hx \<Longrightarrow> hx = ?a" by (induction rule: reach.induct) (auto simp: get)
  qed (auto intro: reach.root)
  have "heap_inv two_objects" by (simp add: heap_inv_def two_objects_def)
  from collect_exact [OF this, of "[VObject ?a]"] obtain rel h' where c: "heap_collect [VObject ?a] two_objects = Some (rel, h')"
    "heap_get h' ?a = heap_get two_objects ?a" "heap_get two_objects ?b \<noteq> None \<longrightarrow> heap_get h' ?b = None"
    "set rel = {fid. \<exists>hx kind. heap_get two_objects hx = Some (OForeign fid kind) \<and> hx \<noteq> ?a}"
    unfolding only by (metis (no_types, lifting) handle.ext_inject one_neq_zero rtranclp.rtrancl_refl)
  have "set rel = {\<lparr>fi_slot = 5, fi_generation = 0\<rparr>}" unfolding c(4) get by auto
  then show ?thesis using c(1-3) by (simp add: get)
qed

section \<open>The interface of the heap\<close>

text \<open>What a client of an object store may rely on.\<close>

locale object_store =
  fixes inv :: "'s \<Rightarrow> bool" and get :: "'s \<Rightarrow> 'k \<Rightarrow> 'o option"
    and alloc :: "'o \<Rightarrow> 's \<Rightarrow> (('e + 'k) \<times> 's) option" and put :: "'k \<Rightarrow> 'o \<Rightarrow> 's \<Rightarrow> 's"
  assumes alloc_law: "inv s \<Longrightarrow> \<exists>r s'. alloc ob s = Some (r, s') \<and> inv s'
      \<and> (case r of Inl _ \<Rightarrow> get s' = get s | Inr k \<Rightarrow> get s k = None \<and> get s' = (get s)(k \<mapsto> ob))"
    and put_law: "inv s \<Longrightarrow> get s k \<noteq> None \<Longrightarrow> inv (put k ob s) \<and> get (put k ob s) = (get s)(k \<mapsto> ob)"
begin

lemma alloc_fresh: "inv s \<Longrightarrow> alloc ob s = Some (Inr k, s') \<Longrightarrow> get s k = None \<and> get s' k = Some ob"
  using alloc_law [of s ob] by auto

lemma alloc_keeps: "inv s \<Longrightarrow> alloc ob s = Some (r, s') \<Longrightarrow> get s \<subseteq>\<^sub>m get s'"
  using alloc_law [of s ob] by (auto simp: map_le_def split: sum.splits)

lemma alloc_returns: "inv s \<Longrightarrow> \<exists>r s'. alloc ob s = Some (r, s') \<and> inv s' \<and> get s \<subseteq>\<^sub>m get s' \<and> (\<forall>k. r = Inr k \<longrightarrow> get s k = None \<and> get s' = (get s)(k \<mapsto> ob))
    \<and> ((\<exists>e. r = Inl e) \<longrightarrow> get s' = get s)"
  using alloc_law [of s ob] alloc_keeps [of s ob] by (fastforce split: sum.splits)

lemma put_keeps: "inv s \<Longrightarrow> get s k \<noteq> None \<Longrightarrow> j \<noteq> k \<Longrightarrow> get (put k ob s) j = get s j"
  using put_law [of s k ob] by simp

end

interpretation hs: object_store heap_inv heap_get heap_alloc heap_put
proof
  fix s ob
  assume "heap_inv s"
  then show "\<exists>r s'. heap_alloc ob s = Some (r, s') \<and> heap_inv s'
      \<and> (case r of Inl _ \<Rightarrow> heap_get s' = heap_get s | Inr k \<Rightarrow> heap_get s k = None \<and> heap_get s' = (heap_get s)(k \<mapsto> ob))"
    using heap_alloc_spec [of s ob] by blast
qed (auto simp: heap_put_spec)

end
