(* ===== verification/Lisp_Library.thy ===== *)
theory Lisp_Library
  imports Lisp_Heap "HOL-Library.Signed_Division"
begin

text \<open>
  The functions of the language library (\<open>crates/lisp/src/library/mod.rs\<close> and
  \<open>task.rs\<close>). A short function runs at once; the others are tasks that do a bounded
  piece of work in each step and keep what is left.

  An error leaves the task to be dropped, so a step returns the task only with a value.
  Operations on \<open>i64\<close> are checked; the number of characters of a string is below
  \<open>2 ^ 63\<close> because its length in bytes is.
\<close>

section \<open>The table of functions\<close>

record arity =
  ay_min :: nat
  ay_max :: "nat option"

definition arity_fixed :: "nat \<Rightarrow> arity" where
  "arity_fixed n = \<lparr>ay_min = n, ay_max = Some n\<rparr>"

definition arity_variadic :: "nat \<Rightarrow> arity" where
  "arity_variadic n = \<lparr>ay_min = n, ay_max = None\<rparr>"

definition arity_accepts :: "arity \<Rightarrow> nat \<Rightarrow> bool" where
  "arity_accepts a n \<longleftrightarrow> n \<ge> ay_min a \<and> (case ay_max a of None \<Rightarrow> True | Some m \<Rightarrow> n \<le> m)"

record builtin =
  bi_name :: string
  bi_arity :: arity

definition BUILTINS :: "builtin list" where
  "BUILTINS =
    [\<lparr>bi_name = ''+'', bi_arity = arity_variadic 0\<rparr>,
     \<lparr>bi_name = ''-'', bi_arity = arity_variadic 1\<rparr>,
     \<lparr>bi_name = ''*'', bi_arity = arity_variadic 0\<rparr>,
     \<lparr>bi_name = ''/'', bi_arity = arity_fixed 2\<rparr>,
     \<lparr>bi_name = ''='', bi_arity = arity_fixed 2\<rparr>,
     \<lparr>bi_name = ''<'', bi_arity = arity_fixed 2\<rparr>,
     \<lparr>bi_name = ''>'', bi_arity = arity_fixed 2\<rparr>,
     \<lparr>bi_name = ''<='', bi_arity = arity_fixed 2\<rparr>,
     \<lparr>bi_name = ''>='', bi_arity = arity_fixed 2\<rparr>,
     \<lparr>bi_name = ''not'', bi_arity = arity_fixed 1\<rparr>,
     \<lparr>bi_name = ''cons'', bi_arity = arity_fixed 2\<rparr>,
     \<lparr>bi_name = ''car'', bi_arity = arity_fixed 1\<rparr>,
     \<lparr>bi_name = ''cdr'', bi_arity = arity_fixed 1\<rparr>,
     \<lparr>bi_name = ''null?'', bi_arity = arity_fixed 1\<rparr>,
     \<lparr>bi_name = ''pair?'', bi_arity = arity_fixed 1\<rparr>,
     \<lparr>bi_name = ''list'', bi_arity = arity_variadic 0\<rparr>,
     \<lparr>bi_name = ''number?'', bi_arity = arity_fixed 1\<rparr>,
     \<lparr>bi_name = ''boolean?'', bi_arity = arity_fixed 1\<rparr>,
     \<lparr>bi_name = ''string-length'', bi_arity = arity_fixed 1\<rparr>,
     \<lparr>bi_name = ''bytes-length'', bi_arity = arity_fixed 1\<rparr>,
     \<lparr>bi_name = ''string-append'', bi_arity = arity_variadic 0\<rparr>,
     \<lparr>bi_name = ''bytes-append'', bi_arity = arity_variadic 0\<rparr>,
     \<lparr>bi_name = ''string->bytes'', bi_arity = arity_fixed 1\<rparr>,
     \<lparr>bi_name = ''bytes->string'', bi_arity = arity_fixed 1\<rparr>]"

section \<open>Functions that run at once\<close>

definition lib_integer :: "lvalue \<Rightarrow> error_kind + int" where
  "lib_integer v = (case v of VInteger n \<Rightarrow> Inr n | _ \<Rightarrow> Inl EType)"

definition lib_object :: "lvalue \<Rightarrow> heap \<Rightarrow> error_kind + object" where
  "lib_object v h = (case v of VObject hx \<Rightarrow> ok_or (heap_get h hx) EStaleValue | _ \<Rightarrow> Inl EType)"

definition lib_alloc :: "object \<Rightarrow> (heap, error_kind, lvalue) act" where
  "lib_alloc ob h =
     map_option (\<lambda>(r, h'). (case r of Inl _ \<Rightarrow> Inl EResourceLimit | Inr hx \<Rightarrow> Inr (VObject hx), h')) (heap_alloc ob h)"

text \<open>The object a value refers to, in the heap of the action.\<close>

definition act_object :: "lvalue \<Rightarrow> (heap, error_kind, object) act" where
  "act_object v h = Some (lib_object v h, h)"

definition lib_compare :: "string \<Rightarrow> int \<Rightarrow> int \<Rightarrow> bool" where
  "lib_compare name a b =
     (if name = ''='' then a = b else if name = ''<'' then a < b else if name = ''>'' then a > b
      else if name = ''<='' then a \<le> b else a \<ge> b)"

definition lib_apply :: "nat \<Rightarrow> lvalue list \<Rightarrow> (heap, error_kind, lvalue) act" where
  "lib_apply i args =
     act_bind (act_index BUILTINS i) (\<lambda>op.
       if \<not> arity_accepts (bi_arity op) (length args) then act_fail EArity
       else let name = bi_name op in
         if name = ''-'' then
           act_bind (act_index args 0) (\<lambda>v. act_bind (act_result (lib_integer v)) (\<lambda>a.
             act_result (ok_or (map_option VInteger (checked_i64 (- a))) EArithmetic)))
         else if name = ''/'' then
           act_bind (act_index args 0) (\<lambda>v. act_bind (act_result (lib_integer v)) (\<lambda>a.
             act_bind (act_index args 1) (\<lambda>w. act_bind (act_result (lib_integer w)) (\<lambda>b.
               act_result (ok_or (if b = 0 then None else map_option VInteger (checked_i64 (a sdiv b))) EArithmetic)))))
         else if name \<in> {''='', ''<'', ''>'', ''<='', ''>=''} then
           act_bind (act_index args 0) (\<lambda>v. act_bind (act_result (lib_integer v)) (\<lambda>a.
             act_bind (act_index args 1) (\<lambda>w. act_bind (act_result (lib_integer w)) (\<lambda>b.
               act_return (VBoolean (lib_compare name a b))))))
         else if name = ''not'' then
           act_bind (act_index args 0) (\<lambda>v. act_return (VBoolean (v = VBoolean False)))
         else if name = ''cons'' then
           act_bind (act_index args 0) (\<lambda>v. act_bind (act_index args 1) (\<lambda>w. lib_alloc (OPair v w)))
         else if name = ''car'' \<or> name = ''cdr'' then
           act_bind (act_index args 0) (\<lambda>v. act_bind (act_object v) (\<lambda>ob.
             case ob of OPair a b \<Rightarrow> act_return (if name = ''car'' then a else b) | _ \<Rightarrow> act_fail EType))
         else if name = ''null?'' then
           act_bind (act_index args 0) (\<lambda>v. act_return (VBoolean (v = VNil)))
         else if name = ''pair?'' then
           act_bind (act_index args 0) (\<lambda>v. act_bind (act_get (lib_object v)) (\<lambda>r.
             act_return (VBoolean (case r of Inr (OPair _ _) \<Rightarrow> True | _ \<Rightarrow> False))))
         else if name = ''number?'' then
           act_bind (act_index args 0) (\<lambda>v. act_return (VBoolean (case v of VInteger _ \<Rightarrow> True | _ \<Rightarrow> False)))
         else if name = ''boolean?'' then
           act_bind (act_index args 0) (\<lambda>v. act_return (VBoolean (case v of VBoolean _ \<Rightarrow> True | _ \<Rightarrow> False)))
         else if name = ''bytes-length'' then
           act_bind (act_index args 0) (\<lambda>v. act_bind (act_object v) (\<lambda>ob.
             case ob of OBytes b \<Rightarrow> act_return (VInteger (int (length b))) | _ \<Rightarrow> act_fail EType))
         else act_fail EUnbound)"

section \<open>Tasks\<close>

datatype task =
    TList "lvalue list" lvalue
  | TCopy "lvalue list" nat nat string bool bool
  | TLength lvalue nat int
  | TArithmetic "lvalue list" nat int string

definition task_new :: "nat \<Rightarrow> lvalue list \<Rightarrow> (error_kind + task option) option" where
  "task_new i args =
     (if i \<ge> length BUILTINS then Some (Inl EUnbound)
      else let name = bi_name (BUILTINS ! i) in
        if \<not> arity_accepts (bi_arity (BUILTINS ! i)) (length args) then Some (Inl EArity)
        else if name = ''list'' then Some (Inr (Some (TList args VNil)))
        else if name \<in> {''string-append'', ''bytes-append'', ''string->bytes'', ''bytes->string''} then
          Some (Inr (Some (TCopy args 0 0 [] (name = ''string-append'' \<or> name = ''bytes->string'')
                                             (name = ''string-append'' \<or> name = ''string->bytes''))))
        else if name = ''string-length'' then
          (if args = [] then None else Some (Inr (Some (TLength (args ! 0) 0 0))))
        else if name \<in> {''+'', ''-'', ''*''} \<and> \<not> (name = ''-'' \<and> length args = 1) then
          (if name = ''-'' then
             (if args = [] then None
              else Some (rbind (lib_integer (args ! 0)) (\<lambda>n. Inr (Some (TArithmetic args 1 n name)))))
           else Some (Inr (Some (TArithmetic args 0 (if name = ''*'' then 1 else 0) name))))
        else Some (Inr None))"

definition task_roots :: "task \<Rightarrow> lvalue list" where
  "task_roots t =
     (case t of
        TList args tail \<Rightarrow> args @ [tail]
      | TCopy args _ _ _ _ _ \<Rightarrow> args
      | TArithmetic args _ _ _ \<Rightarrow> args
      | TLength value _ _ \<Rightarrow> [value])"

definition list_step :: "lvalue list \<Rightarrow> lvalue \<Rightarrow> (heap, error_kind, lvalue option \<times> task) act" where
  "list_step args tail =
     (if args = [] then act_return (Some tail, TList [] tail)
      else act_bind (lib_alloc (OPair (last args) tail)) (\<lambda>v. act_return (None, TList (butlast args) v)))"

definition copy_bytes :: "object \<Rightarrow> bool \<Rightarrow> error_kind + string" where
  "copy_bytes ob input_text =
     (case ob of
        OString s \<Rightarrow> if input_text then Inr s else Inl EType
      | OBytes b \<Rightarrow> if input_text then Inl EType else Inr b
      | _ \<Rightarrow> Inl EType)"

definition copy_step ::
  "lvalue list \<Rightarrow> nat \<Rightarrow> nat \<Rightarrow> string \<Rightarrow> bool \<Rightarrow> bool \<Rightarrow> (heap, error_kind, lvalue option \<times> task) act" where
  "copy_step args index offset output txt input_text =
     (if index = length args then
        (if txt \<and> \<not> utf8_valid output then act_fail EType
         else act_bind (lib_alloc (if txt then OString output else OBytes output))
                (\<lambda>v. act_return (Some v, TCopy args index offset [] txt input_text)))
      else act_bind (act_index args index) (\<lambda>v. act_bind (act_object v) (\<lambda>ob.
             act_bind (act_result (copy_bytes ob input_text)) (\<lambda>bytes h.
               let end = min (offset + 256) (length bytes) in
               if end < offset then None
               else if end - offset > hp_limit h - hp_used h - length output then act_fail EResourceLimit h
               else case heap_grant h of
                      (False, h') \<Rightarrow> act_fail EResourceLimit h'
                    | (True, h') \<Rightarrow>
                        act_return (None, let output' = output @ take (end - offset) (drop offset bytes) in
                          if end = length bytes then TCopy args (index + 1) 0 output' txt input_text
                          else TCopy args index end output' txt input_text) h'))))"

definition length_step :: "lvalue \<Rightarrow> nat \<Rightarrow> int \<Rightarrow> (heap, error_kind, lvalue option \<times> task) act" where
  "length_step value offset chars =
     act_bind (act_object value) (\<lambda>ob.
       case ob of
         OString s \<Rightarrow>
           (let end = floor_char_boundary s (min (offset + 256) (length s)) in
            case str_slice s offset end of
              None \<Rightarrow> (\<lambda>h. None)
            | Some part \<Rightarrow>
                let chars' = chars + int (char_count part) in
                act_return (if end = length s then Some (VInteger chars') else None, TLength value end chars'))
       | _ \<Rightarrow> act_fail EType)"

definition arithmetic :: "string \<Rightarrow> int \<Rightarrow> int \<Rightarrow> int option" where
  "arithmetic op a b = checked_i64 (if op = ''+'' then a + b else if op = ''-'' then a - b else a * b)"

definition arithmetic_step :: "lvalue list \<Rightarrow> nat \<Rightarrow> int \<Rightarrow> string \<Rightarrow> (heap, error_kind, lvalue option \<times> task) act" where
  "arithmetic_step args index result op =
     (if index = length args then act_return (Some (VInteger result), TArithmetic args index result op)
      else act_bind (act_index args index) (\<lambda>v. act_bind (act_result (lib_integer v)) (\<lambda>n.
             act_bind (act_result (ok_or (arithmetic op result n) EArithmetic)) (\<lambda>result'.
               act_return (None, TArithmetic args (index + 1) result' op)))))"

definition task_step :: "task \<Rightarrow> (heap, error_kind, lvalue option \<times> task) act" where
  "task_step t =
     (case t of
        TList args tail \<Rightarrow> list_step args tail
      | TCopy args index offset output txt input_text \<Rightarrow> copy_step args index offset output txt input_text
      | TLength value offset chars \<Rightarrow> length_step value offset chars
      | TArithmetic args index result op \<Rightarrow> arithmetic_step args index result op)"

section \<open>What a task computes\<close>

text \<open>The contents of the heap as a map from handles to objects.\<close>

type_synonym store = "handle \<Rightarrow> object option"

fun list_onto :: "store \<Rightarrow> lvalue \<Rightarrow> lvalue list \<Rightarrow> lvalue \<Rightarrow> bool" where
  "list_onto g v [] tail \<longleftrightarrow> v = tail"
| "list_onto g v (x # xs) tail \<longleftrightarrow> (\<exists>hx t. v = VObject hx \<and> g hx = Some (OPair x t) \<and> list_onto g t xs tail)"

lemma list_onto_append: "list_onto g v (xs @ ys) tail \<longleftrightarrow> (\<exists>u. list_onto g v xs u \<and> list_onto g u ys tail)"
  by (induction xs arbitrary: v) auto

definition object_of :: "store \<Rightarrow> lvalue \<Rightarrow> object option" where
  "object_of g v = (case v of VObject hx \<Rightarrow> g hx | _ \<Rightarrow> None)"

definition bytes_of :: "store \<Rightarrow> bool \<Rightarrow> lvalue \<Rightarrow> string option" where
  "bytes_of g input_text v =
     (case object_of g v of
        Some (OString s) \<Rightarrow> if input_text then Some s else None
      | Some (OBytes b) \<Rightarrow> if input_text then None else Some b
      | _ \<Rightarrow> None)"

fun fold_arithmetic :: "string \<Rightarrow> int \<Rightarrow> lvalue list \<Rightarrow> int option" where
  "fold_arithmetic op a [] = Some a"
| "fold_arithmetic op a (v # vs) =
     (case v of VInteger n \<Rightarrow> Option.bind (arithmetic op a n) (\<lambda>b. fold_arithmetic op b vs) | _ \<Rightarrow> None)"

definition task_result :: "store \<Rightarrow> task \<Rightarrow> lvalue \<Rightarrow> store \<Rightarrow> bool" where
  "task_result g t v g' \<longleftrightarrow>
     (case t of
        TList args tail \<Rightarrow> list_onto g' v args tail
      | TCopy args index offset output txt input_text \<Rightarrow>
          (\<exists>bs hx. map (bytes_of g input_text) (drop index args) = map Some bs \<and> v = VObject hx
             \<and> (let all = output @ drop offset (concat bs) in
                g' hx = Some (if txt then OString all else OBytes all) \<and> (txt \<longrightarrow> utf8_valid all)))
      | TLength value offset chars \<Rightarrow>
          (\<exists>s. object_of g value = Some (OString s) \<and> v = VInteger (chars + int (char_count (drop offset s))))
      | TArithmetic args index result op \<Rightarrow> map_option VInteger (fold_arithmetic op result (drop index args)) = Some v)"

text \<open>What every step of a task keeps.\<close>

definition task_ok :: "store \<Rightarrow> task \<Rightarrow> bool" where
  "task_ok g t \<longleftrightarrow>
     (case t of
        TList args tail \<Rightarrow> True
      | TCopy args index offset output txt input_text \<Rightarrow>
          index \<le> length args \<and> (if index = length args then offset = 0
            else \<forall>b. bytes_of g input_text (args ! index) = Some b \<longrightarrow> offset \<le> length b)
      | TLength value offset chars \<Rightarrow> (\<forall>s. object_of g value = Some (OString s) \<longrightarrow> offset \<le> length s \<and> is_char_boundary s offset)
      | TArithmetic args index result op \<Rightarrow> index \<le> length args)"

definition bytes_left :: "store \<Rightarrow> bool \<Rightarrow> lvalue \<Rightarrow> nat" where
  "bytes_left g input_text v = (case bytes_of g input_text v of None \<Rightarrow> 0 | Some b \<Rightarrow> length b)"

text \<open>A bound on the number of steps still to do.\<close>

definition task_left :: "store \<Rightarrow> task \<Rightarrow> nat" where
  "task_left g t =
     (case t of
        TList args tail \<Rightarrow> length args + 1
      | TCopy args index offset output txt input_text \<Rightarrow>
          sum_list (map (\<lambda>v. bytes_left g input_text v + 1) (drop index args)) - offset + 1
      | TLength value offset chars \<Rightarrow> (case object_of g value of Some (OString s) \<Rightarrow> length s - offset + 1 | _ \<Rightarrow> 1)
      | TArithmetic args index result op \<Rightarrow> length args - index + 1)"

definition strings_valid :: "store \<Rightarrow> bool" where
  "strings_valid g \<longleftrightarrow> (\<forall>hx s. g hx = Some (OString s) \<longrightarrow> utf8_valid s)"

text \<open>One step: it ends with the right value, or leaves less to do of the same task.\<close>

definition step_good :: "heap \<Rightarrow> task \<Rightarrow> lvalue option \<times> task \<Rightarrow> heap \<Rightarrow> bool" where
  "step_good h t r h' \<longleftrightarrow> heap_inv h' \<and> heap_get h \<subseteq>\<^sub>m heap_get h' \<and> strings_valid (heap_get h') \<and>
     (case r of
        (Some v, _) \<Rightarrow> task_result (heap_get h) t v (heap_get h')
      | (None, t') \<Rightarrow> task_ok (heap_get h') t' \<and> task_left (heap_get h') t' < task_left (heap_get h) t
          \<and> (\<forall>v g. heap_get h' \<subseteq>\<^sub>m g \<and> task_result (heap_get h') t' v g \<longrightarrow> task_result (heap_get h) t v g))"

definition step_error :: "heap \<Rightarrow> error_kind \<Rightarrow> heap \<Rightarrow> bool" where
  "step_error h e h' \<longleftrightarrow> heap_inv h' \<and> heap_get h \<subseteq>\<^sub>m heap_get h' \<and> strings_valid (heap_get h')
     \<and> e \<in> {EType, EStaleValue, EResourceLimit, EArithmetic}"

lemma lib_alloc_ensures:
  assumes "heap_inv h"
  shows "ensures (lib_alloc ob) h
    (\<lambda>v h'. heap_inv h' \<and> (\<exists>hx. v = VObject hx \<and> heap_get h hx = None \<and> heap_get h' = (heap_get h)(hx \<mapsto> ob)))
    (\<lambda>e h'. heap_inv h' \<and> heap_get h' = heap_get h \<and> e = EResourceLimit)"
proof -
  obtain r h' where a: "heap_alloc ob h = Some (r, h')" "heap_inv h'" "\<forall>k. r = Inr k \<longrightarrow> heap_get h k = None \<and> heap_get h' = (heap_get h)(k \<mapsto> ob)"
    "(\<exists>e. r = Inl e) \<longrightarrow> heap_get h' = heap_get h" using hs.alloc_returns [OF assms, of ob] by blast
  then show ?thesis by (cases r) (auto simp: ensures_def lib_alloc_def)
qed

lemma act_object_ensures:
  "(\<And>ob. object_of (heap_get h) v = Some ob \<Longrightarrow> Q ob h) \<Longrightarrow> (object_of (heap_get h) v = None \<Longrightarrow> E EType h \<and> E EStaleValue h) \<Longrightarrow>
    ensures (act_object v) h Q E"
  by (auto simp: ensures_def act_object_def lib_object_def object_of_def ok_or_def split: lvalue.splits option.splits)

lemma map_le_new: "g hx = None \<Longrightarrow> g \<subseteq>\<^sub>m g(hx \<mapsto> ob)"
  by (auto simp: map_le_def)

lemma strings_valid_new: "strings_valid g \<Longrightarrow> (\<And>s. ob = OString s \<Longrightarrow> utf8_valid s) \<Longrightarrow> strings_valid (g(hx \<mapsto> ob))"
  by (auto simp: strings_valid_def)

lemma alloc_step:
  assumes "heap_inv h" and "strings_valid (heap_get h)"
    and "\<And>hx h'. heap_inv h' \<Longrightarrow> heap_get h hx = None \<Longrightarrow> heap_get h' = (heap_get h)(hx \<mapsto> ob) \<Longrightarrow> ensures (f (VObject hx)) h' Q (step_error h)"
  shows "ensures (act_bind (lib_alloc ob) f) h Q (step_error h)"
proof (rule ensures_bind)
  show "ensures (lib_alloc ob) h
    (\<lambda>v h'. heap_inv h' \<and> (\<exists>hx. v = VObject hx \<and> heap_get h hx = None \<and> heap_get h' = (heap_get h)(hx \<mapsto> ob))) (step_error h)"
    by (rule ensures_conseq [OF lib_alloc_ensures [OF assms(1)]]) (auto simp: step_error_def assms(2))
qed (use assms(3) in auto)

lemma object_step:
  assumes "heap_inv h" and "strings_valid (heap_get h)"
    and "\<And>ob. object_of (heap_get h) v = Some ob \<Longrightarrow> ensures (f ob) h Q (step_error h)"
  shows "ensures (act_bind (act_object v) f) h Q (step_error h)"
proof (rule ensures_bind)
  show "ensures (act_object v) h (\<lambda>ob h'. h' = h \<and> object_of (heap_get h) v = Some ob) (step_error h)"
    by (rule act_object_ensures) (auto simp: step_error_def assms(1,2))
qed (use assms(3) in auto)

lemma list_step_good:
  assumes "heap_inv h" and "strings_valid (heap_get h)"
  shows "ensures (list_step args tail) h (step_good h (TList args tail)) (step_error h)"
proof (cases "args = []")
  case True
  then show ?thesis using assms by (simp add: list_step_def act_simps step_good_def task_result_def)
next
  case False
  then obtain xs x where args: "args = xs @ [x]" by (metis append_butlast_last_id)
  have "ensures (act_bind (lib_alloc (OPair x tail)) (\<lambda>v. act_return (None, TList xs v))) h (step_good h (TList args tail)) (step_error h)"
  proof (rule alloc_step [OF assms])
    fix hx h' assume h: "heap_inv h'" "heap_get h hx = None" "heap_get h' = (heap_get h)(hx \<mapsto> OPair x tail)"
    have "list_onto g v (xs @ [x]) tail" if "heap_get h' \<subseteq>\<^sub>m g" "list_onto g v xs (VObject hx)" for g v
      using that h(3) by (auto simp: list_onto_append map_le_def intro!: exI [of _ "VObject hx"])
    moreover have "strings_valid (heap_get h')" unfolding h(3) by (rule strings_valid_new [OF assms(2)]) simp
    ultimately show "ensures (act_return (None, TList xs (VObject hx))) h' (step_good h (TList args tail)) (step_error h)"
      using h by (simp add: act_simps step_good_def map_le_new task_ok_def task_left_def task_result_def args)
  qed
  then show ?thesis using args by (simp add: list_step_def)
qed

lemma arithmetic_step_good:
  assumes "heap_inv h" and "strings_valid (heap_get h)" and "index \<le> length args"
  shows "ensures (arithmetic_step args index result op) h (step_good h (TArithmetic args index result op)) (step_error h)"
proof (cases "index = length args")
  case True
  then show ?thesis using assms by (simp add: arithmetic_step_def act_simps step_good_def task_result_def)
next
  case False
  then have d: "drop index args = args ! index # drop (Suc index) args" using assms(3) by (simp add: Cons_nth_drop_Suc)
  have ix: "ensures (act_bind (act_index args index) f) h Q E \<longleftrightarrow> ensures (f (args ! index)) h Q E" for f :: "lvalue \<Rightarrow> (heap, error_kind, lvalue option \<times> task) act" and Q E
    using False assms(3) by (simp add: ensures_def act_bind_def act_index_def)
  show ?thesis
  proof (cases "args ! index")
    case (VInteger n)
    show ?thesis
    proof (cases "arithmetic op result n")
      case None
      then show ?thesis using False VInteger assms
        by (simp add: arithmetic_step_def ix lib_integer_def act_simps ok_or_def step_error_def)
    next
      case (Some m)
      then show ?thesis using False VInteger assms d
        by (simp add: arithmetic_step_def ix lib_integer_def act_simps ok_or_def step_good_def task_ok_def task_left_def task_result_def)
    qed
  qed (use False assms in \<open>simp_all add: arithmetic_step_def ix lib_integer_def act_simps step_error_def\<close>)
qed

lemma length_step_good:
  assumes "heap_inv h" and "strings_valid (heap_get h)" and ok: "task_ok (heap_get h) (TLength value offset chars)"
  shows "ensures (length_step value offset chars) h (step_good h (TLength value offset chars)) (step_error h)"
  unfolding length_step_def
proof (rule object_step [OF assms(1,2)])
  fix ob assume ob: "object_of (heap_get h) value = Some ob"
  show "ensures (case ob of OString s \<Rightarrow>
           (let end = floor_char_boundary s (min (offset + 256) (length s)) in
            case str_slice s offset end of
              None \<Rightarrow> (\<lambda>h. None)
            | Some part \<Rightarrow>
                let chars' = chars + int (char_count part) in
                act_return (if end = length s then Some (VInteger chars') else None, TLength value end chars'))
       | _ \<Rightarrow> act_fail EType) h (step_good h (TLength value offset chars)) (step_error h)"
  proof (cases "\<exists>s. ob = OString s")
    case False
    then show ?thesis using assms by (cases ob) (auto simp: act_simps step_error_def)
  next
    case True
    then obtain s where s: "ob = OString s" by blast
    let ?m = "min (offset + 256) (length s)"
    let ?e = "floor_char_boundary s ?m"
    have o: "offset \<le> length s" "is_char_boundary s offset" using ok ob s by (auto simp: task_ok_def)
    have v: "utf8_valid s" using assms(2) ob s by (auto simp: object_of_def strings_valid_def split: lvalue.splits)
    have e: "offset \<le> ?e" "?e \<le> length s" "is_char_boundary s ?e"
      using floor_above [of offset ?m s] o floor_le [of s ?m] floor_boundary by auto
    have prog: "offset < ?e \<or> ?e = length s"
    proof (cases "offset + 256 \<ge> length s")
      case True
      then show ?thesis using floor_fixed [of s "length s"] by (simp add: min_absorb2 is_char_boundary_def)
    next
      case False
      then show ?thesis using floor_near [OF v, of ?m] by simp
    qed
    let ?p = "take (?e - offset) (drop offset s)"
    have sl: "str_slice s offset ?e = Some ?p" using e o by (simp add: str_slice_def)
    have "drop offset s = ?p @ drop ?e s" using e by (metis append_take_drop_id drop_drop le_add_diff_inverse2)
    then have cc: "char_count (drop offset s) = char_count ?p + char_count (drop ?e s)" by (metis char_count_append)
    define k where "k = ?e"
    define part where "part = ?p"
    have run: "(let end = floor_char_boundary s (min (offset + 256) (length s)) in
            case str_slice s offset end of
              None \<Rightarrow> (\<lambda>h. None)
            | Some part \<Rightarrow>
                let chars' = chars + int (char_count part) in
                act_return (if end = length s then Some (VInteger chars') else None, TLength value end chars'))
      = act_return (if k = length s then Some (VInteger (chars + int (char_count part))) else None, TLength value k (chars + int (char_count part)))"
      using sl by (simp add: Let_def k_def part_def)
    have K: "k \<le> length s" "is_char_boundary s k" "offset < k \<or> k = length s"
      "char_count (drop offset s) = char_count part + char_count (drop k s)" using e(2,3) prog cc by (simp_all add: k_def part_def)
    show ?thesis
    proof (cases "k = length s")
      case True
      then have "char_count (drop offset s) = char_count part" using K(4) by (simp add: char_count_def)
      then show ?thesis using True s ob assms by (simp add: run act_simps step_good_def task_result_def)
    next
      case False
      then show ?thesis using K s ob assms o(1) by (simp add: run act_simps step_good_def task_result_def task_ok_def task_left_def add.assoc)
    qed
  qed
qed

lemma bytes_of_object:
  "object_of g v = Some ob \<Longrightarrow> bytes_of g input_text v = (case copy_bytes ob input_text of Inr b \<Rightarrow> Some b | Inl _ \<Rightarrow> None)"
  by (cases ob) (auto simp: bytes_of_def copy_bytes_def)

lemma copy_bytes_error: "copy_bytes ob input_text = Inl e \<Longrightarrow> e = EType"
  by (cases ob) (auto simp: copy_bytes_def split: if_splits)

lemma copy_end_good:
  assumes "heap_inv h" and "strings_valid (heap_get h)"
  shows "ensures (copy_step args (length args) 0 output txt input_text) h
    (step_good h (TCopy args (length args) 0 output txt input_text)) (step_error h)"
proof (cases "txt \<and> \<not> utf8_valid output")
  case True
  then show ?thesis using assms by (simp add: copy_step_def act_simps step_error_def)
next
  case False
  let ?ob = "if txt then OString output else OBytes output"
  have "ensures (act_bind (lib_alloc ?ob) (\<lambda>v. act_return (Some v, TCopy args (length args) 0 [] txt input_text))) h
    (step_good h (TCopy args (length args) 0 output txt input_text)) (step_error h)"
  proof (rule alloc_step [OF assms])
    fix hx h' assume h: "heap_inv h'" "heap_get h hx = None" "heap_get h' = (heap_get h)(hx \<mapsto> ?ob)"
    have "strings_valid (heap_get h')" unfolding h(3) by (rule strings_valid_new [OF assms(2)]) (use False in \<open>auto split: if_splits\<close>)
    then show "ensures (act_return (Some (VObject hx), TCopy args (length args) 0 [] txt input_text)) h'
        (step_good h (TCopy args (length args) 0 output txt input_text)) (step_error h)"
      using h False by (simp add: act_simps step_good_def map_le_new task_result_def)
  qed
  then show ?thesis using False by (auto simp: copy_step_def)
qed

lemma copy_chunk_good:
  assumes inv: "heap_inv h" "strings_valid (heap_get h)" and i: "index < length args" and b: "bytes_of (heap_get h) input_text (args ! index) = Some b"
    and o: "offset \<le> length b" and h': "heap_inv h'" "heap_get h' = heap_get h"
  defines "e \<equiv> min (offset + 256) (length b)"
  shows "step_good h (TCopy args index offset output txt input_text)
    (None, let output' = output @ take (e - offset) (drop offset b) in
       if e = length b then TCopy args (index + 1) 0 output' txt input_text else TCopy args index e output' txt input_text) h'"
proof -
  let ?g = "heap_get h"
  have d: "drop index args = args ! index # drop (Suc index) args" using i by (simp add: Cons_nth_drop_Suc)
  have sum: "(\<Sum>v\<leftarrow>drop index args. bytes_left ?g input_text v + 1) = length b + 1 + (\<Sum>v\<leftarrow>drop (Suc index) args. bytes_left ?g input_text v + 1)"
    using b d by (simp add: bytes_left_def)
  show ?thesis
  proof (cases "e = length b")
    case True
    have "task_result ?g (TCopy args index offset output txt input_text) v g"
      if t: "task_result ?g (TCopy args (index + 1) 0 (output @ drop offset b) txt input_text) v g" for v g
    proof -
      obtain bs hx where r: "map (bytes_of ?g input_text) (drop (Suc index) args) = map Some bs" "v = VObject hx"
        "g hx = Some (if txt then OString ((output @ drop offset b) @ concat bs) else OBytes ((output @ drop offset b) @ concat bs))"
        "txt \<longrightarrow> utf8_valid ((output @ drop offset b) @ concat bs)" using t by (auto simp: task_result_def Let_def)
      then show ?thesis using o b d by (auto simp: task_result_def Let_def intro!: exI [of _ "b # bs"])
    qed
    then show ?thesis using True i o h' sum inv(2)
      by (auto simp: step_good_def task_ok_def task_left_def Let_def)
  next
    case False
    then have e: "e = offset + 256" "e < length b" by (auto simp: e_def)
    have "task_result ?g (TCopy args index offset output txt input_text) v g"
      if t: "task_result ?g (TCopy args index e (output @ take (e - offset) (drop offset b)) txt input_text) v g" for v g
    proof -
      let ?o = "output @ take (e - offset) (drop offset b)"
      obtain bs hx where r: "map (bytes_of ?g input_text) (drop index args) = map Some bs" "v = VObject hx"
        "g hx = Some (if txt then OString (?o @ drop e (concat bs)) else OBytes (?o @ drop e (concat bs)))"
        "txt \<longrightarrow> utf8_valid (?o @ drop e (concat bs))" using t by (auto simp: task_result_def Let_def)
      obtain bs' where bs: "bs = b # bs'" using r(1) d b by (cases bs) auto
      have "drop offset (concat bs) = take (e - offset) (drop offset b) @ drop e (concat bs)"
      proof -
        have "take (e - offset) (drop offset (concat bs)) = take (e - offset) (drop offset b)" using bs e o by simp
        moreover have "drop e (concat bs) = drop (e - offset) (drop offset (concat bs))" using e by (simp add: add.commute)
        ultimately show ?thesis by (metis append_take_drop_id)
      qed
      then have "output @ drop offset (concat bs) = ?o @ drop e (concat bs)" by simp
      then show ?thesis using r unfolding task_result_def task.case Let_def by metis
    qed
    then show ?thesis using False e i o h' sum inv(2) b
      by (auto simp: step_good_def task_ok_def task_left_def Let_def)
  qed
qed

lemma copy_step_good:
  assumes inv: "heap_inv h" "strings_valid (heap_get h)" and ok: "task_ok (heap_get h) (TCopy args index offset output txt input_text)"
  shows "ensures (copy_step args index offset output txt input_text) h
    (step_good h (TCopy args index offset output txt input_text)) (step_error h)"
proof (cases "index = length args")
  case True
  then show ?thesis using copy_end_good [OF inv] ok by (simp add: task_ok_def)
next
  case False
  then have i: "index < length args" using ok by (simp add: task_ok_def)
  let ?f = "\<lambda>bytes h. let end = min (offset + 256) (length bytes) in
               if end < offset then None
               else if end - offset > hp_limit h - hp_used h - length output then act_fail EResourceLimit h
               else case heap_grant h of
                      (False, h') \<Rightarrow> act_fail EResourceLimit h'
                    | (True, h') \<Rightarrow>
                        act_return (None, let output' = output @ take (end - offset) (drop offset bytes) in
                          if end = length bytes then TCopy args (index + 1) 0 output' txt input_text
                          else TCopy args index end output' txt input_text) h'"
  have "ensures (act_bind (act_object (args ! index)) (\<lambda>ob. act_bind (act_result (copy_bytes ob input_text)) ?f)) h
    (step_good h (TCopy args index offset output txt input_text)) (step_error h)"
  proof (rule object_step [OF inv])
    fix ob assume ob: "object_of (heap_get h) (args ! index) = Some ob"
    show "ensures (act_bind (act_result (copy_bytes ob input_text)) ?f) h
        (step_good h (TCopy args index offset output txt input_text)) (step_error h)"
    proof (cases "copy_bytes ob input_text")
      case (Inl e)
      then show ?thesis using copy_bytes_error [OF Inl] inv by (simp add: act_simps step_error_def)
    next
      case (Inr b)
      then have b: "bytes_of (heap_get h) input_text (args ! index) = Some b" using bytes_of_object [OF ob] by simp
      then have o: "offset \<le> length b" using ok i by (simp add: task_ok_def)
      let ?e = "min (offset + 256) (length b)"
      obtain g h' where gr: "heap_grant h = (g, h')" by fastforce
      have h': "heap_inv h'" "heap_get h' = heap_get h" using heap_grant_eq [OF gr] inv(1) by (auto simp: heap_inv_def heap_get_def fun_eq_iff)
      have err: "step_error h EResourceLimit h" "step_error h EResourceLimit h'" using inv h' by (auto simp: step_error_def)
      have "ensures (?f b) h (step_good h (TCopy args index offset output txt input_text)) (step_error h)"
      proof (cases "?e - offset > hp_limit h - hp_used h - length output")
        case True
        then show ?thesis using o err by (simp add: ensures_def act_fail_def Let_def)
      next
        case nf: False
        then show ?thesis
          using o gr err copy_chunk_good [OF inv i b o h', of "output" "txt"] by (cases g) (simp_all add: ensures_def act_fail_def act_return_def Let_def)
      qed
      then show ?thesis using Inr by (simp add: act_simps)
    qed
  qed
  then show ?thesis using False i by (simp add: copy_step_def ensures_def act_bind_def act_index_def)
qed

lemma task_step_good:
  assumes "heap_inv h" and "strings_valid (heap_get h)" and "task_ok (heap_get h) t"
  shows "ensures (task_step t) h (step_good h t) (step_error h)"
proof (cases t)
  case (TArithmetic args index result op)
  then show ?thesis using arithmetic_step_good [OF assms(1,2)] assms(3) by (simp add: task_step_def task_ok_def)
qed (use assms list_step_good copy_step_good length_step_good in \<open>auto simp: task_step_def\<close>)

text \<open>The steps of a task, one after another.\<close>

primrec task_run :: "nat \<Rightarrow> task \<Rightarrow> (heap, error_kind, lvalue) act" where
  "task_run 0 t = (\<lambda>h. None)"
| "task_run (Suc n) t = act_bind (task_step t) (\<lambda>(r, t'). case r of Some v \<Rightarrow> act_return v | None \<Rightarrow> task_run n t')"

lemma task_run_good:
  assumes "heap_inv h" and "strings_valid (heap_get h)" and "task_ok (heap_get h) t" and "task_left (heap_get h) t \<le> n"
  shows "ensures (task_run n t) h (\<lambda>v h'. heap_inv h' \<and> heap_get h \<subseteq>\<^sub>m heap_get h' \<and> task_result (heap_get h) t v (heap_get h')) (step_error h)"
  using assms
proof (induction n arbitrary: t h)
  case 0
  then show ?case by (auto simp: task_left_def split: task.splits option.splits object.splits)
next
  case (Suc n)
  show ?case unfolding task_run.simps
  proof (rule ensures_bind [OF task_step_good [OF Suc.prems(1-3)]])
    fix r h1 assume g: "step_good h t r h1"
    obtain ro t' where r: "r = (ro, t')" by fastforce
    show "ensures (case r of (r, t') \<Rightarrow> case r of Some v \<Rightarrow> act_return v | None \<Rightarrow> task_run n t') h1
        (\<lambda>v h'. heap_inv h' \<and> heap_get h \<subseteq>\<^sub>m heap_get h' \<and> task_result (heap_get h) t v (heap_get h')) (step_error h)"
    proof (cases ro)
      case (Some v)
      then show ?thesis using g r by (simp add: act_simps step_good_def)
    next
      case None
      then have s: "heap_inv h1" "heap_get h \<subseteq>\<^sub>m heap_get h1" "strings_valid (heap_get h1)" "task_ok (heap_get h1) t'" "task_left (heap_get h1) t' \<le> n"
        "\<And>v k. heap_get h1 \<subseteq>\<^sub>m k \<Longrightarrow> task_result (heap_get h1) t' v k \<Longrightarrow> task_result (heap_get h) t v k"
        using g r Suc.prems(4) by (auto simp: step_good_def)
      show ?thesis unfolding r prod.case None option.case
        by (rule ensures_conseq [OF Suc.IH [OF s(1,3,4,5)]]) (use s map_le_trans in \<open>auto simp: step_error_def\<close>)
    qed
  qed
qed

lemma task_new_ok: "task_new i args = Some (Inr (Some t)) \<Longrightarrow> task_ok g t"
  by (auto simp: task_new_def Let_def task_ok_def is_char_boundary_def lib_integer_def Suc_le_eq split: if_splits lvalue.splits)

lemma task_new_returns: "\<exists>r. task_new i args = Some r"
  by (auto simp: task_new_def Let_def BUILTINS_def arity_accepts_def arity_fixed_def arity_variadic_def less_Suc_eq nth_Cons')



end
