(* ===== verification/Spec2Isabelle.thy ===== *)
theory Spec2Isabelle
  imports Index Page_Map Transaction Lisp_Library
begin

text \<open>
  A verification development of parts of sqware: the memory management of its kernel
  (\<open>kernel/src/core/memory\<close>) and the language core of its Lisp interpreter
  (\<open>crates/lisp\<close>).

  \<^bold>\<open>The program.\<close> The kernel gives each process an address space, a \<^emph>\<open>nest\<close>. A nest
  reserves address spans in an occupancy table, describes what is mapped there by views,
  finds views by address in a balanced interval index, and writes page tables for the
  hardware. The pages come from physical sources, the \<^emph>\<open>flats\<close>, whose slots hold frames or
  are filled on demand; a transaction hands the frame of one page from one source to another.
  The Lisp crate reads text into forms, lowers a form to a module of core expressions, and
  evaluates the module by an incremental machine over a collected heap with a library of
  functions.

  \<^bold>\<open>Theories.\<close>
  \<^item> \<open>Prelude\<close>: results, vectors, checked arithmetic on \<open>usize\<close>, actions that change a state
    and may fail, and the contract of a component whose steps keep an invariant.
  \<^item> \<open>Occupancy\<close> (\<open>nest/address\<close>): the table of reserved spans. Reservations are disjoint,
    first fit and last fit find the first and last gap, releasing and retiring affect exactly
    the named span, and every reachable table is disjoint.
  \<^item> \<open>Address\<close> (\<open>memory/address\<close>, \<open>machine/mode\<close>): paging modes, canonical addresses, walks.
  \<^item> \<open>View\<close> (\<open>nest/view\<close>): permissions, active ranges and how they are cut and narrowed, runs of
    frames, the flags of a leaf.
  \<^item> \<open>Index\<close> (\<open>nest/index\<close>): the height-balanced tree of views with cached spans. Insertion and
    removal refine sorted lists, the pruned searches agree with a scan, the 8-bit heights do not
    overflow.
  \<^item> \<open>Flat\<close> (\<open>memory/flat\<close>): slots, custody of frames, windows, residencies, materialisation.
  \<^item> \<open>Page_Table\<close> and \<open>Page_Map\<close> (\<open>nest/table\<close>): entries as machine words, the tree of owned
    tables, splitting, preparing, mapping, unmapping, pruning, and that the walk over physical
    memory agrees with the tree. The first has the definitions and the unmapping, the second
    preparing, mapping, permissions, pruning and the physical walk.
  \<^item> \<open>Transaction\<close> (\<open>flat/transaction.rs\<close>): claiming, committing and rolling back, on a store
    of shared sources.
  \<^item> \<open>Lisp_Text\<close> (\<open>source.rs\<close>, \<open>diagnostic.rs\<close>, \<open>syntax/lexer.rs\<close>): UTF-8, spans, string
    literals.
  \<^item> \<open>Lisp_Reader\<close> (\<open>syntax/reader.rs\<close>): the reader and the grammar it recognises.
  \<^item> \<open>Lisp_Lower\<close> (\<open>syntax/lower.rs\<close>): lowering by a work list, a recursive reference compiler,
    their agreement, and that references stay in scope.
  \<^item> \<open>Lisp_Heap\<close> (\<open>runtime/heap.rs\<close>): slots with generations, allocation within a budget,
    marking and sweeping.
  \<^item> \<open>Lisp_Library\<close> (\<open>library\<close>): functions that run at once and functions that run in steps.

  \<^bold>\<open>How code is represented.\<close> A struct is a record, an enum a datatype, with a prefix where a
  name would clash. A \<open>usize\<close> is a number below \<open>2 ^ 64\<close> with checked or saturating operations
  as in the code; page-table entries and flags are words; an \<open>i64\<close> is an integer with range
  checks. A \<open>Result\<close> is a sum with the error on the left. A panic, such as an index out of range,
  a failed assertion or an underflow, is \<open>None\<close>, so that a theorem which says that a
  result is returned also says that nothing panics. Shared objects live in an explicit store.
  Answers of the allocator are a list the operation consumes, so every outcome of a fallible
  allocation is covered. A stack is a list with its top first.

  \<^bold>\<open>Loops and fuel.\<close> Loops are structural or have a termination proof by a measure. Three use
  fuel: splitting at a boundary of a range, which needs at most one round per level of the table;
  the search through enclosing scopes, whose fuel is one more than the number of scopes; and
  \<open>task_run\<close>, whose fuel is the bound the theorem states. Each is shown to be enough. The lowering loop is a partial
  function, and its theorem shows that it returns.

  \<^bold>\<open>Interfaces.\<close> Every locale is interpreted on the definitions of the model: the component
  contract (the occupancy table), the interval index (the tree of views), the map from pages to
  slots (the table of a source), the store of slots that a transaction uses (the sources it
  connects), and the object store that the library uses (the heap).

  \<^bold>\<open>Across components.\<close> The property below composes the reader with lowering.

  \<^bold>\<open>Hypotheses about code outside the sources.\<close> The tokens come from a lexer that the Logos
  macro generates; they are an argument of the reader. \<open>scan_ok\<close> states what the reader relies
  on: spans are not empty, lie in the text and end at character boundaries, and a string token
  starts and ends with a quote. The sizes of Rust types and the capacity a vector gets are fields
  of a parameter.

  \<^bold>\<open>Not modelled.\<close> The operations of a nest that combine these parts under several locks, and
  transfers over whole windows, which need them. The evaluation loop of the Lisp machine, its host
  interface and most of its printer. Locking and interleavings between processors, translation
  flushes and other hardware effects, raw memory and pointers, debug-only probes and counters.
  The rest of the kernel (mail, rooms, units, boot, traps, system calls), the other crates and
  the user-space programs, which are device, channel and input/output code.
\<close>

section \<open>From tokens to a module\<close>

text \<open>
  C40: when the tokens begin with a datum within the limits, the reader completes a form, and
  lowering that form returns without a panic: the module reads back as the reference translation
  of the datum, or there is a syntax error when the datum has none.
\<close>

theorem read_then_lower:
  assumes "length (so_text s) \<le> rd_input_limit r" and "spells s (rd_depth_limit r) p x"
  shows "\<exists>fm n res. reader_read r s eof (p @ q) = Some (Inr (Complete fm n)) \<and> lower_form fm = Some (Some res)
    \<and> (case res of
         Inr m \<Rightarrow> compile [] True x = Some (core_of (fm_nodes fm) (md_expressions m) (md_root m))
       | Inl e \<Rightarrow> compile [] True x = None \<and> dg_kind e = ESyntax)"
proof -
  obtain fm n where f: "reader_read r s eof (p @ q) = Some (Inr (Complete fm n))" "arena_ok (fm_nodes fm)"
    "fm_root fm < length (fm_nodes fm)" "tree (fm_nodes fm) (fm_root fm) = x"
    using reader_completes [OF assms, of eof q] by blast
  show ?thesis
  proof (cases "compile [] True x")
    case None
    then show ?thesis using lower_runs(2) [OF f(2,3)] f(1,4) by fastforce
  next
    case (Some c)
    then show ?thesis using lower_runs(1) [OF f(2,3), of c] f(1,4) by fastforce
  qed
qed

theorem read_then_lower_witness:
  "\<exists>fm n m. reader_read reader_default \<lparr>so_name = ''t'', so_text = ''(f)''\<rparr> True
       ([(Some TOpen, span_new 0 1), (Some TSymbol, span_new 1 2), (Some TShut, span_new 2 3)] @ []) = Some (Inr (Complete fm n))
     \<and> lower_form fm = Some (Some (Inr m))
     \<and> core_of (fm_nodes fm) (md_expressions m) (md_root m) = CCall (CRef (Global ''f'')) []"
proof -
  let ?s = "\<lparr>so_name = ''t'', so_text = ''(f)''\<rparr>" and ?x = "SList [SAtom (ASymbol ''f'')] None"
  let ?p = "[(Some TOpen, span_new 0 1), (Some TSymbol, span_new 1 2), (Some TShut, span_new 2 3)]"
  have a: "token_atom ?s TSymbol (span_new 1 2) = Some (Inr (ASymbol ''f''))"
    by (simp add: token_atom_def span_new_def str_slice_def is_char_boundary_def is_continuation_def byte_of_def)
  have "spells ?s (Suc 1023) ((Some TOpen, span_new 0 1) # concat [[(Some TSymbol, span_new 1 2)]] @ [(Some TShut, span_new 2 3)]) ?x"
    by (rule spells_list, intro list.rel_intros spells_atom [OF a])
  then have p: "spells ?s (rd_depth_limit reader_default) ?p ?x" by (simp add: reader_default_def)
  have l: "length (so_text ?s) \<le> rd_input_limit reader_default" by (simp add: reader_default_def)
  have c: "compile [] True ?x = Some (CCall (CRef (Global ''f'')) [])" by (simp add: compile.simps)
  from read_then_lower [OF l p, of True "[]"] obtain fm n res where
    r: "reader_read reader_default ?s True (?p @ []) = Some (Inr (Complete fm n))" "lower_form fm = Some (Some res)"
    "case res of Inr m \<Rightarrow> compile [] True ?x = Some (core_of (fm_nodes fm) (md_expressions m) (md_root m))
       | Inl e \<Rightarrow> compile [] True ?x = None \<and> dg_kind e = ESyntax" by blast
  obtain m where "res = Inr m" using r(3) c by (cases res) auto
  then show ?thesis using r c by auto
qed

end
